(* ===== verification/Prelude.thy ===== *)
theory Prelude
  imports Main "HOL-Library.Word" "HOL-Library.List_Lexorder" "HOL-Library.Char_ord"
begin

text \<open>
  What the components share: Rust's machine integers, results, strings and the
  control-flow idioms of the code, with the lemmas and hint collections that carry the
  component proofs.

  \<^item> \<open>u64\<close>/\<open>u32\<close> are words of that width: \<open>+\<close> wraps (the release profile does not
    check overflow), \<open>sat_add\<close>/\<open>sat_sub\<close> are \<open>saturating_add\<close>/\<open>saturating_sub\<close>.
    A \<open>usize\<close> that counts the elements of a container is a \<open>nat\<close>.
  \<^item> a Rust \<open>String\<close> is the list of its UTF-8 bytes, so \<open>length\<close> is \<open>len()\<close> and the
    order is the byte order of \<open>Ord for String\<close>.
  \<^item> \<open>Result<T, E>\<close> is \<open>'e + 'a\<close>, with \<open>Inl\<close> the error; \<open>bind_res\<close> is the
    \<open>?\<close> operator and \<open>check_all\<close> a \<open>for\<close> loop whose body may return early.
  \<^item> a \<open>BTreeSet\<close> is a HOL set, traversed (where the code traverses one) in the
    order of \<open>sorted_list_of_set\<close>.
\<close>

section \<open>Hint collections\<close>

named_theorems result_simps \<open>unfolding the \<open>?\<close> operator and early-return loops\<close>
named_theorems inv_intros \<open>preservation of component invariants\<close>

section \<open>Machine integers\<close>

type_synonym u64 = "64 word"
type_synonym u32 = "32 word"

definition sat_add :: "'a::len word \<Rightarrow> 'a word \<Rightarrow> 'a word" where
  "sat_add a b = (if a + b < a then - 1 else a + b)"

definition sat_sub :: "'a::len word \<Rightarrow> 'a word \<Rightarrow> 'a word" where
  "sat_sub a b = (if b \<le> a then a - b else 0)"

lemma unat_sat_add:
  fixes a b :: "'a::len word"
  shows "unat (sat_add a b) = min (unat a + unat b) (2 ^ LENGTH('a) - 1)"
proof (cases "unat a + unat b < 2 ^ LENGTH('a)")
  case True
  then have "unat (a + b) = unat a + unat b"
    by (simp add: unat_word_ariths)
  with True show ?thesis
    by (simp add: sat_add_def word_less_nat_alt)
next
  case False
  have bounds: "unat a < 2 ^ LENGTH('a)" "unat b < 2 ^ LENGTH('a)"
    by simp_all
  have "unat (a + b) = (unat a + unat b) mod 2 ^ LENGTH('a)"
    by (simp add: unat_word_ariths)
  also have "\<dots> = (unat a + unat b - 2 ^ LENGTH('a)) mod 2 ^ LENGTH('a)"
    using False by (simp add: le_mod_geq)
  also have "\<dots> = unat a + unat b - 2 ^ LENGTH('a)"
    using bounds by (intro mod_less) linarith
  finally have wrapped: "unat (a + b) = unat a + unat b - 2 ^ LENGTH('a)" .
  have "unat (a + b) < unat a"
    unfolding wrapped using False bounds by linarith
  then have "a + b < a"
    by (simp add: word_less_nat_alt)
  then show ?thesis
    using False by (simp add: sat_add_def unsigned_minus_1_eq_mask mask_eq_exp_minus_1)
qed

lemma sat_add_mono_left: "a \<le> sat_add a b"
  for a b :: "'a::len word"
proof -
  have "unat a < 2 ^ LENGTH('a)" by simp
  then have "unat a \<le> 2 ^ LENGTH('a) - 1" by linarith
  then have "unat a \<le> unat (sat_add a b)"
    by (simp add: unat_sat_add)
  then show ?thesis by (simp add: word_le_nat_alt)
qed

lemma unat_sat_sub: "unat (sat_sub a b) = unat a - unat b"
  by (auto simp: sat_sub_def unat_sub word_le_nat_alt)

section \<open>Results and early returns\<close>

fun bind_res :: "'e + 'a \<Rightarrow> ('a \<Rightarrow> 'e + 'b) \<Rightarrow> 'e + 'b" where
  "bind_res (Inl e) f = Inl e"
| "bind_res (Inr x) f = f x"

definition ensure :: "bool \<Rightarrow> 'e \<Rightarrow> 'e + unit" where
  "ensure c e = (if c then Inr () else Inl e)"

text \<open>\<open>opt.ok_or_else(..)?\<close>\<close>

definition ok_or :: "'a option \<Rightarrow> 'e \<Rightarrow> 'e + 'a" where
  "ok_or x e = (case x of None \<Rightarrow> Inl e | Some y \<Rightarrow> Inr y)"

fun check_all :: "('a \<Rightarrow> 'e + unit) \<Rightarrow> 'a list \<Rightarrow> 'e + unit" where
  "check_all f [] = Inr ()"
| "check_all f (x # xs) = bind_res (f x) (\<lambda>_. check_all f xs)"

text \<open>A loop that threads a state: \<open>for x in xs { s = f(s, x)?; }\<close>\<close>

fun fold_res :: "('s \<Rightarrow> 'a \<Rightarrow> 'e + 's) \<Rightarrow> 's \<Rightarrow> 'a list \<Rightarrow> 'e + 's" where
  "fold_res f s [] = Inr s"
| "fold_res f s (x # xs) = bind_res (f s x) (\<lambda>s'. fold_res f s' xs)"

lemma bind_res_Inr_iff [result_simps]:
  "bind_res r f = Inr y \<longleftrightarrow> (\<exists>x. r = Inr x \<and> f x = Inr y)"
  by (cases r) auto

lemma bind_res_Inl_iff [result_simps]:
  "bind_res r f = Inl e \<longleftrightarrow> r = Inl e \<or> (\<exists>x. r = Inr x \<and> f x = Inl e)"
  by (cases r) auto

lemma ensure_Inr_iff [result_simps]: "ensure c e = Inr u \<longleftrightarrow> c"
  by (simp add: ensure_def)

lemma ensure_Inl_iff [result_simps]: "ensure c e = Inl e' \<longleftrightarrow> \<not> c \<and> e' = e"
  by (auto simp: ensure_def)

lemma ok_or_Inr_iff [result_simps]: "ok_or x e = Inr y \<longleftrightarrow> x = Some y"
  by (simp add: ok_or_def split: option.split)

lemma ok_or_Inl_iff [result_simps]: "ok_or x e = Inl e' \<longleftrightarrow> x = None \<and> e' = e"
  by (auto simp: ok_or_def split: option.split)

lemma check_all_Inr_iff [result_simps]:
  "check_all f xs = Inr u \<longleftrightarrow> (\<forall>x\<in>set xs. f x = Inr ())"
  by (induction xs) (auto simp: bind_res_Inr_iff)

lemma check_all_Inl_iff:
  "check_all f xs = Inl e \<longleftrightarrow>
     (\<exists>ys x zs. xs = ys @ x # zs \<and> (\<forall>y\<in>set ys. f y = Inr ()) \<and> f x = Inl e)"
    (is "?L xs \<longleftrightarrow> ?R xs")
proof (induction xs)
  case Nil
  then show ?case by simp
next
  case (Cons x xs)
  show ?case
  proof (cases "f x")
    case (Inl e')
    then have "?L (x # xs) \<longleftrightarrow> e' = e" by simp
    also have "\<dots> \<longleftrightarrow> ?R (x # xs)"
    proof
      assume "e' = e"
      with Inl show "?R (x # xs)" by (intro exI [of _ "[]"]) simp
    next
      assume "?R (x # xs)"
      with Inl show "e' = e" by (auto simp: Cons_eq_append_conv)
    qed
    finally show ?thesis .
  next
    case (Inr u)
    then have "?L (x # xs) \<longleftrightarrow> ?R xs" using Cons by simp
    also have "\<dots> \<longleftrightarrow> ?R (x # xs)"
    proof
      assume "?R xs"
      then obtain ys y zs where "xs = ys @ y # zs" "\<forall>y\<in>set ys. f y = Inr ()" "f y = Inl e"
        by blast
      with Inr show "?R (x # xs)" by (intro exI [of _ "x # ys"]) auto
    next
      assume "?R (x # xs)"
      with Inr show "?R xs" by (auto simp: Cons_eq_append_conv) (metis)
    qed
    finally show ?thesis .
  qed
qed

lemma fold_res_append:
  "fold_res f s (xs @ ys) = bind_res (fold_res f s xs) (\<lambda>s'. fold_res f s' ys)"
proof (induction xs arbitrary: s)
  case Nil
  then show ?case by simp
next
  case (Cons x xs)
  then show ?case by (cases "f s x") auto
qed

lemma fold_res_inv:
  assumes "fold_res f s xs = Inr t" and "I s"
    and "\<And>s x s'. x \<in> set xs \<Longrightarrow> I s \<Longrightarrow> f s x = Inr s' \<Longrightarrow> I s'"
  shows "I t"
  using assms
proof (induction xs arbitrary: s)
  case Nil
  then show ?case by simp
next
  case (Cons x xs)
  from Cons.prems(1) obtain s' where s': "f s x = Inr s'" "fold_res f s' xs = Inr t"
    by (auto simp: bind_res_Inr_iff)
  show ?case
  proof (rule Cons.IH [OF s'(2)])
    show "I s'" using Cons.prems(2) Cons.prems(3) [of x s s'] s'(1) by simp
    show "\<And>s y s'. y \<in> set xs \<Longrightarrow> I s \<Longrightarrow> f s y = Inr s' \<Longrightarrow> I s'"
      by (rule Cons.prems(3)) auto
  qed
qed

lemma find_SomeD: "List.find P xs = Some x \<Longrightarrow> x \<in> set xs \<and> P x"
  by (auto simp: find_Some_iff)

section \<open>Strings\<close>

type_synonym rstr = string

definition is_ascii_lowercase :: "char \<Rightarrow> bool" where
  "is_ascii_lowercase c \<longleftrightarrow> CHR ''a'' \<le> c \<and> c \<le> CHR ''z''"

definition is_ascii_uppercase :: "char \<Rightarrow> bool" where
  "is_ascii_uppercase c \<longleftrightarrow> CHR ''A'' \<le> c \<and> c \<le> CHR ''Z''"

definition is_ascii_digit :: "char \<Rightarrow> bool" where
  "is_ascii_digit c \<longleftrightarrow> CHR ''0'' \<le> c \<and> c \<le> CHR ''9''"

definition is_ascii_hexdigit :: "char \<Rightarrow> bool" where
  "is_ascii_hexdigit c \<longleftrightarrow> is_ascii_digit c \<or> CHR ''a'' \<le> c \<and> c \<le> CHR ''f''
     \<or> CHR ''A'' \<le> c \<and> c \<le> CHR ''F''"

definition is_ascii_alphanumeric :: "char \<Rightarrow> bool" where
  "is_ascii_alphanumeric c \<longleftrightarrow>
     is_ascii_lowercase c \<or> is_ascii_uppercase c \<or> is_ascii_digit c"

text \<open>
  \<open>str::trim\<close> removes the code points with the Unicode property \<open>White_Space\<close>; these are
  their UTF-8 encodings. On a UTF-8 string an encoding occurs at the start (the end) exactly
  when the first (last) character is that code point.
\<close>

definition white_space :: "string list" where
  "white_space =
     [[CHR 0x09], [CHR 0x0A], [CHR 0x0B], [CHR 0x0C], [CHR 0x0D], [CHR 0x20],
      [CHR 0xC2, CHR 0x85], [CHR 0xC2, CHR 0xA0], [CHR 0xE1, CHR 0x9A, CHR 0x80],
      [CHR 0xE2, CHR 0x80, CHR 0x80], [CHR 0xE2, CHR 0x80, CHR 0x81],
      [CHR 0xE2, CHR 0x80, CHR 0x82], [CHR 0xE2, CHR 0x80, CHR 0x83],
      [CHR 0xE2, CHR 0x80, CHR 0x84], [CHR 0xE2, CHR 0x80, CHR 0x85],
      [CHR 0xE2, CHR 0x80, CHR 0x86], [CHR 0xE2, CHR 0x80, CHR 0x87],
      [CHR 0xE2, CHR 0x80, CHR 0x88], [CHR 0xE2, CHR 0x80, CHR 0x89],
      [CHR 0xE2, CHR 0x80, CHR 0x8A], [CHR 0xE2, CHR 0x80, CHR 0xA8],
      [CHR 0xE2, CHR 0x80, CHR 0xA9], [CHR 0xE2, CHR 0x80, CHR 0xAF],
      [CHR 0xE2, CHR 0x81, CHR 0x9F], [CHR 0xE3, CHR 0x80, CHR 0x80]]"

definition leading :: "string list \<Rightarrow> string \<Rightarrow> nat" where
  "leading ws s =
     (case List.find (\<lambda>w. take (length w) s = w) ws of None \<Rightarrow> 0 | Some w \<Rightarrow> length w)"

function strip_seqs :: "string list \<Rightarrow> string \<Rightarrow> string" where
  "strip_seqs ws s =
     (if s = [] \<or> leading ws s = 0 then s else strip_seqs ws (drop (leading ws s) s))"
  by pat_completeness auto
termination
  by (relation "measure (\<lambda>(ws, s). length s)") auto

declare strip_seqs.simps [simp del]

definition trim :: "string \<Rightarrow> string" where
  "trim s = rev (strip_seqs (map rev white_space) (rev (strip_seqs white_space s)))"

text \<open>\<open>value.trim().is_empty()\<close>\<close>

definition blank :: "string \<Rightarrow> bool" where
  "blank s \<longleftrightarrow> trim s = []"

definition trim_matches_char :: "char \<Rightarrow> string \<Rightarrow> string" where
  "trim_matches_char c s =
     rev (dropWhile (\<lambda>x. x = c) (rev (dropWhile (\<lambda>x. x = c) s)))"

text \<open>\<open>str::split(c)\<close>: always at least one piece.\<close>

fun split_char :: "char \<Rightarrow> string \<Rightarrow> string list" where
  "split_char c [] = [[]]"
| "split_char c (x # xs) =
     (if x = c then [] # split_char c xs
      else (case split_char c xs of [] \<Rightarrow> [[x]] | p # ps \<Rightarrow> (x # p) # ps))"

definition starts_with :: "string \<Rightarrow> string \<Rightarrow> bool" where
  "starts_with s p \<longleftrightarrow> take (length p) s = p"

definition strip_prefix :: "string \<Rightarrow> string \<Rightarrow> string option" where
  "strip_prefix s p = (if starts_with s p then Some (drop (length p) s) else None)"

text \<open>
  \<open>&s[..n]\<close> panics (\<open>None\<close>) when byte \<open>n\<close> is past the end or in the middle of a character,
  that is a UTF-8 continuation byte.
\<close>

definition continuation_byte :: "char \<Rightarrow> bool" where
  "continuation_byte c \<longleftrightarrow> CHR 0x80 \<le> c \<and> c \<le> CHR 0xBF"

definition str_prefix :: "string \<Rightarrow> nat \<Rightarrow> string option" where
  "str_prefix s n =
     (if n = 0 \<or> n = length s \<or> n < length s \<and> \<not> continuation_byte (s ! n) then Some (take n s)
      else None)"

fun join_with :: "string \<Rightarrow> string list \<Rightarrow> string" where
  "join_with sep [] = []"
| "join_with sep [x] = x"
| "join_with sep (x # y # xs) = x @ sep @ join_with sep (y # xs)"

text \<open>\<open>format!("{}", n)\<close> of an unsigned integer.\<close>

fun dec :: "nat \<Rightarrow> string" where
  "dec n = (if n < 10 then [char_of (48 + n)] else dec (n div 10) @ [char_of (48 + n mod 10)])"

declare dec.simps [simp del]

lemma starts_with_iff: "starts_with s p \<longleftrightarrow> (\<exists>t. s = p @ t)"
  by (auto simp: starts_with_def) (metis append_take_drop_id)

lemma starts_with_append [simp]: "starts_with (p @ t) p"
  by (simp add: starts_with_def)

lemma strip_prefix_Some_iff: "strip_prefix s p = Some t \<longleftrightarrow> s = p @ t"
  by (auto simp: strip_prefix_def starts_with_iff)

lemma split_char_not_Nil [simp]: "split_char c s \<noteq> []"
  by (induction s) (auto split: list.split)

lemma split_char_pieces: "p \<in> set (split_char c s) \<Longrightarrow> c \<notin> set p"
proof (induction s arbitrary: p)
  case Nil
  then show ?case by simp
next
  case (Cons x xs)
  show ?case
  proof (cases "x = c")
    case True
    with Cons show ?thesis by auto
  next
    case False
    obtain q qs where qs: "split_char c xs = q # qs"
      by (meson neq_Nil_conv split_char_not_Nil)
    with Cons.prems False have "p = x # q \<or> p \<in> set qs" by simp
    then show ?thesis using Cons.IH [of q] Cons.IH [of p] qs False by auto
  qed
qed

lemma split_char_no_sep: "c \<notin> set s \<Longrightarrow> split_char c s = [s]"
  by (induction s) auto

lemma split_char_append_sep:
  "split_char c (s @ c # t) = split_char c s @ split_char c t"
proof (induction s)
  case Nil
  then show ?case by simp
next
  case (Cons x xs)
  obtain q qs where "split_char c xs = q # qs"
    by (meson neq_Nil_conv split_char_not_Nil)
  with Cons show ?case by simp
qed

lemma trim_Nil [simp]: "trim [] = []"
  by (simp add: trim_def strip_seqs.simps)

lemma blank_Nil [simp]: "blank []"
  by (simp add: blank_def)

lemma length_strip_seqs: "length (strip_seqs ws s) \<le> length s"
proof (induction ws s rule: strip_seqs.induct)
  case (1 ws s)
  then show ?case
    by (subst strip_seqs.simps) (auto intro: le_trans)
qed

lemma length_trim: "length (trim s) \<le> length s"
  unfolding trim_def by (metis length_rev length_strip_seqs le_trans)

end
