(* ===== verification/Float64.thy ===== *)
theory Float64
  imports Complex_Main Prelude "HOL-Library.Log_Nat"
begin

text \<open>
  Rust's \<open>f64\<close>: IEEE 754 binary64 with rounding to nearest, ties to even. A finite value is
  the rational number it denotes; an operation computes the exact rational result and rounds
  it once (\<open>round64\<close>), overflow giving an infinity. The two zeros are one value: none of the
  code modelled here can tell them apart (it never divides by a computed zero and never prints
  a sign). The lemmas are the ones the budget and admission components need: rounding is
  monotone, odd, and exact on integers up to \<open>2 ^ 53\<close>; sums and products of non-negative
  values are non-negative.
\<close>

section \<open>Values and comparison\<close>

datatype f64 = Fin rat | PInf | NInf | NaN

fun f_le :: "f64 \<Rightarrow> f64 \<Rightarrow> bool" where
  "f_le NaN y = False"
| "f_le x NaN = False"
| "f_le NInf y = True"
| "f_le x PInf = True"
| "f_le (Fin a) (Fin b) = (a \<le> b)"
| "f_le x y = False"

definition f_lt :: "f64 \<Rightarrow> f64 \<Rightarrow> bool" where
  "f_lt x y \<longleftrightarrow> f_le x y \<and> x \<noteq> y"

text \<open>\<open>==\<close> on floats: like equality, but \<open>NaN\<close> is unequal to itself.\<close>

definition f_eq :: "f64 \<Rightarrow> f64 \<Rightarrow> bool" where
  "f_eq x y \<longleftrightarrow> x \<noteq> NaN \<and> x = y"

definition f_finite :: "f64 \<Rightarrow> bool" where
  "f_finite x \<longleftrightarrow> (case x of Fin a \<Rightarrow> True | _ \<Rightarrow> False)"

text \<open>\<open>f64::max\<close>: the other operand when one of them is \<open>NaN\<close>.\<close>

definition f_max :: "f64 \<Rightarrow> f64 \<Rightarrow> f64" where
  "f_max x y = (if x = NaN then y else if y = NaN then x else if f_le x y then y else x)"

abbreviation f_nonneg :: "f64 \<Rightarrow> bool" where
  "f_nonneg x \<equiv> f_le (Fin 0) x"

section \<open>Rounding\<close>

definition ilog2 :: "rat \<Rightarrow> int" where
  "ilog2 q = (let (n, d) = quotient_of q; k = bitlen n - bitlen d
    in if 2 powi k \<le> q then k else k - 1)"

definition round_even :: "rat \<Rightarrow> int" where
  "round_even q = (let f = \<lfloor>q\<rfloor>; r = q - of_int f
    in if r < 1 / 2 \<or> r = 1 / 2 \<and> even f then f else f + 1)"

definition round_at :: "int \<Rightarrow> rat \<Rightarrow> rat" where
  "round_at k q = of_int (round_even (q / 2 powi k)) * 2 powi k"

definition ulp_exp :: "rat \<Rightarrow> int" where
  "ulp_exp q = max (ilog2 \<bar>q\<bar> - 52) (- 1074)"

definition rnd64 :: "rat \<Rightarrow> rat" where
  "rnd64 q = (if q = 0 then 0 else round_at (ulp_exp q) q)"

definition clip64 :: "rat \<Rightarrow> f64" where
  "clip64 r = (if 2 ^ 1024 \<le> r then PInf else if r \<le> - (2 ^ 1024) then NInf else Fin r)"

definition round64 :: "rat \<Rightarrow> f64" where
  "round64 q = clip64 (rnd64 q)"

section \<open>Arithmetic and casts\<close>

fun f_neg :: "f64 \<Rightarrow> f64" where
  "f_neg (Fin a) = Fin (- a)"
| "f_neg PInf = NInf"
| "f_neg NInf = PInf"
| "f_neg NaN = NaN"

fun f_add :: "f64 \<Rightarrow> f64 \<Rightarrow> f64" where
  "f_add (Fin a) (Fin b) = round64 (a + b)"
| "f_add NaN y = NaN"
| "f_add x NaN = NaN"
| "f_add PInf NInf = NaN"
| "f_add NInf PInf = NaN"
| "f_add PInf y = PInf"
| "f_add NInf y = NInf"
| "f_add x PInf = PInf"
| "f_add x NInf = NInf"

definition f_sub :: "f64 \<Rightarrow> f64 \<Rightarrow> f64" where
  "f_sub x y = f_add x (f_neg y)"

definition f_sign :: "f64 \<Rightarrow> rat" where
  "f_sign x = (case x of Fin a \<Rightarrow> sgn a | PInf \<Rightarrow> 1 | NInf \<Rightarrow> - 1 | NaN \<Rightarrow> 0)"

definition inf_of_sign :: "rat \<Rightarrow> f64" where
  "inf_of_sign s = (if s = 0 then NaN else if 0 < s then PInf else NInf)"

fun f_mul :: "f64 \<Rightarrow> f64 \<Rightarrow> f64" where
  "f_mul (Fin a) (Fin b) = round64 (a * b)"
| "f_mul NaN y = NaN"
| "f_mul x NaN = NaN"
| "f_mul x y = inf_of_sign (f_sign x * f_sign y)"

text \<open>Division; a zero divisor is the positive zero.\<close>

fun f_div :: "f64 \<Rightarrow> f64 \<Rightarrow> f64" where
  "f_div (Fin a) (Fin b) = (if b = 0 then inf_of_sign (sgn a) else round64 (a / b))"
| "f_div NaN y = NaN"
| "f_div x NaN = NaN"
| "f_div (Fin a) y = Fin 0"
| "f_div x (Fin b) = inf_of_sign (f_sign x * (if b = 0 then 1 else sgn b))"
| "f_div x y = NaN"

text \<open>\<open>u64 as f64\<close> rounds; \<open>f64 as u64\<close> truncates and saturates, \<open>NaN\<close> becomes 0.\<close>

definition f_of_u64 :: "u64 \<Rightarrow> f64" where
  "f_of_u64 w = round64 (of_nat (unat w))"

fun f_to_u64 :: "f64 \<Rightarrow> u64" where
  "f_to_u64 NaN = 0"
| "f_to_u64 NInf = 0"
| "f_to_u64 PInf = - 1"
| "f_to_u64 (Fin a) = (if 2 ^ 64 - 1 \<le> a then - 1 else of_int (max 0 \<lfloor>a\<rfloor>))"

section \<open>Rounding: monotone, odd, exact on small integers\<close>

lemma powi_two_pos: "(0::rat) < 2 powi k"
  by (simp add: zero_less_power_int)

lemma powi_two_mono: "j \<le> k \<Longrightarrow> (2::rat) powi j \<le> 2 powi k"
  by (rule power_int_increasing) simp_all

lemma powi_two_strict: "(2::rat) powi j < 2 powi k \<longleftrightarrow> j < k"
  by (meson linorder_not_le order_less_imp_le powi_two_mono power_int_strict_increasing
      one_less_numeral_iff semiring_norm(76))

lemma bitlen_rat_bounds:
  fixes n :: int
  assumes "0 < n"
  shows "(2::rat) powi (bitlen n - 1) \<le> of_int n" and "(of_int n :: rat) < 2 powi bitlen n"
proof -
  define b where "b = nat (bitlen n) - 1"
  have "0 < bitlen n" using assms by (simp add: bitlen_eq_zero_iff less_le bitlen_nonneg)
  then have b: "bitlen n = int b + 1" by (simp add: b_def)
  have "2 ^ b \<le> n" and "n < 2 ^ Suc b"
    using bitlen_bounds [OF assms] unfolding b by (simp_all add: nat_add_distrib)
  then have "(of_int (2 ^ b) :: rat) \<le> of_int n" and "(of_int n :: rat) < of_int (2 ^ Suc b)"
    by (simp_all only: of_int_le_iff of_int_less_iff)
  then have "(2::rat) ^ b \<le> of_int n" and "(of_int n :: rat) < 2 ^ Suc b"
    by simp_all
  moreover have "(2::rat) powi bitlen n = 2 ^ Suc b"
    unfolding b using power_int_of_nat [of "2::rat" "Suc b"] by (simp add: add.commute)
  ultimately show "(2::rat) powi (bitlen n - 1) \<le> of_int n"
    and "(of_int n :: rat) < 2 powi bitlen n"
    by (simp_all add: b)
qed

lemma ilog2_bounds:
  assumes "0 < q"
  shows "2 powi ilog2 q \<le> q" and "q < 2 powi (ilog2 q + 1)"
proof -
  obtain n d where nd: "quotient_of q = (n, d)" by (cases "quotient_of q")
  have d: "0 < d" using nd by (rule quotient_of_denom_pos)
  have q: "q = of_int n / of_int d" using nd by (rule quotient_of_div)
  have n: "0 < n" using assms q d by (simp add: zero_less_divide_iff)
  define k where "k = bitlen n - bitlen d"
  have ilog: "ilog2 q = (if 2 powi k \<le> q then k else k - 1)"
    by (simp add: ilog2_def nd k_def Let_def)
  have up: "q < 2 powi (k + 1)"
  proof -
    have "of_int n < (2::rat) powi (k + 1) * 2 powi (bitlen d - 1)"
      using bitlen_rat_bounds(2) [OF n]
      by (simp add: k_def power_int_add [symmetric] algebra_simps)
    also have "\<dots> \<le> 2 powi (k + 1) * of_int d"
      using bitlen_rat_bounds(1) [OF d] by (intro mult_left_mono) simp_all
    finally show ?thesis using d by (simp add: q divide_less_eq)
  qed
  have low: "2 powi (k - 1) \<le> q"
  proof -
    have "(2::rat) powi (k - 1) * of_int d \<le> 2 powi (k - 1) * 2 powi bitlen d"
      using bitlen_rat_bounds(2) [OF d] by (intro mult_left_mono) simp_all
    also have "\<dots> = 2 powi (bitlen n - 1)"
      by (simp add: k_def power_int_add [symmetric] algebra_simps)
    also have "\<dots> \<le> of_int n" by (rule bitlen_rat_bounds(1) [OF n])
    finally show ?thesis using d by (simp add: q le_divide_eq)
  qed
  show "2 powi ilog2 q \<le> q" using low by (simp add: ilog)
  show "q < 2 powi (ilog2 q + 1)" using up by (simp add: ilog)
qed

lemma ilog2_mono:
  assumes "0 < x" and "x \<le> y"
  shows "ilog2 x \<le> ilog2 y"
proof -
  have "2 powi ilog2 x < (2::rat) powi (ilog2 y + 1)"
    using ilog2_bounds(1) [OF assms(1)] ilog2_bounds(2) [of y] assms by linarith
  then show ?thesis by (simp add: powi_two_strict)
qed

lemma round_even_of_int [simp]: "round_even (of_int i) = i"
  by (simp add: round_even_def)

lemma round_even_mono:
  assumes "x \<le> y"
  shows "round_even x \<le> round_even y"
proof (cases "\<lfloor>x\<rfloor> = \<lfloor>y\<rfloor>")
  case True
  with assms show ?thesis by (auto simp: round_even_def Let_def)
next
  case False
  with floor_mono [OF assms] have "\<lfloor>x\<rfloor> + 1 \<le> \<lfloor>y\<rfloor>" by linarith
  then show ?thesis by (auto simp: round_even_def Let_def)
qed

lemma round_even_uminus: "round_even (- q) = - round_even q"
proof (cases "q = of_int \<lfloor>q\<rfloor>")
  case True
  then show ?thesis by (metis of_int_minus round_even_of_int)
next
  case False
  then have lt: "of_int \<lfloor>q\<rfloor> < q" "q < of_int \<lfloor>q\<rfloor> + 1" by linarith+
  have "\<lfloor>- q\<rfloor> = - \<lfloor>q\<rfloor> - 1"
    using lt by (intro floor_unique) auto
  then show ?thesis by (auto simp: round_even_def Let_def)
qed

lemma round_at_mono: "x \<le> y \<Longrightarrow> round_at k x \<le> round_at k y"
  unfolding round_at_def
  by (intro mult_right_mono) (simp_all add: round_even_mono divide_right_mono powi_two_pos less_imp_le)

lemma round_at_grid:
  assumes "k \<le> e"
  shows "round_at k (of_int i * 2 powi e) = of_int i * 2 powi e"
proof -
  obtain n where n: "e = k + int n" using assms zle_iff_zadd by blast
  have "of_int i * 2 powi e / (2::rat) powi k = of_int (i * 2 ^ n)"
    by (simp add: n power_int_add)
  then have "round_even (of_int i * 2 powi e / (2::rat) powi k) = i * 2 ^ n"
    by (simp only: round_even_of_int)
  then show ?thesis
    unfolding round_at_def by (simp add: n power_int_add)
qed

lemma round_at_uminus: "round_at k (- q) = - round_at k q"
  by (simp add: round_at_def round_even_uminus)

lemma rnd64_uminus: "rnd64 (- q) = - rnd64 q"
  by (simp add: rnd64_def ulp_exp_def round_at_uminus)

lemma rnd64_zero [simp]: "rnd64 0 = 0"
  by (simp add: rnd64_def)

lemma round_at_nonneg: "0 \<le> q \<Longrightarrow> 0 \<le> round_at k q"
  using round_at_mono [of 0 q k] by (simp add: round_at_def round_even_def)

lemma rnd64_nonneg: "0 \<le> q \<Longrightarrow> 0 \<le> rnd64 q"
  by (simp add: rnd64_def round_at_nonneg)

lemma rnd64_mono_pos:
  assumes "0 < x" and "x \<le> y"
  shows "rnd64 x \<le> rnd64 y"
proof (cases "ulp_exp x = ulp_exp y")
  case True
  with assms show ?thesis by (simp add: rnd64_def round_at_mono)
next
  case False
  have le: "ilog2 x \<le> ilog2 y" using assms by (rule ilog2_mono)
  with False assms have less: "ilog2 x < ilog2 y" and ey: "ulp_exp y = ilog2 y - 52"
    by (auto simp: ulp_exp_def max_def split: if_splits)
  have ex: "ulp_exp x \<le> ilog2 y"
    using le less ey False assms by (auto simp: ulp_exp_def)
  have "x \<le> 2 powi ilog2 y"
    using ilog2_bounds(2) [OF assms(1)] powi_two_mono [of "ilog2 x + 1" "ilog2 y"] less
    by linarith
  then have "round_at (ulp_exp x) x \<le> 2 powi ilog2 y"
    using round_at_mono [of x "2 powi ilog2 y" "ulp_exp x"] round_at_grid [OF ex, of 1] by simp
  also have "\<dots> \<le> round_at (ulp_exp y) y"
    using round_at_mono [OF ilog2_bounds(1), of y "ulp_exp y"]
      round_at_grid [of "ulp_exp y" "ilog2 y" 1] assms ey by simp
  finally show ?thesis using assms by (simp add: rnd64_def)
qed

lemma rnd64_mono:
  assumes "x \<le> y"
  shows "rnd64 x \<le> rnd64 y"
proof -
  consider "0 < x" | "x \<le> 0" "0 \<le> y" | "y < 0" by linarith
  then show ?thesis
  proof cases
    case 1
    then show ?thesis using assms by (rule rnd64_mono_pos)
  next
    case 2
    then show ?thesis
      using rnd64_nonneg [of y] rnd64_nonneg [of "- x"] by (simp add: rnd64_uminus)
  next
    case 3
    then show ?thesis
      using rnd64_mono_pos [of "- y" "- x"] assms by (simp add: rnd64_uminus)
  qed
qed

lemma rnd64_of_int:
  assumes "\<bar>i\<bar> \<le> 2 ^ 53"
  shows "rnd64 (of_int i) = of_int i"
proof (cases "i = 0")
  case False
  define q :: rat where "q = of_int i"
  have pos: "0 < \<bar>q\<bar>" using False by (simp add: q_def)
  have qi: "\<bar>q\<bar> = of_int \<bar>i\<bar>" and two: "(2::rat) powi 53 = of_int (2 ^ 53)"
    by (simp_all add: q_def)
  have q: "\<bar>q\<bar> \<le> 2 powi 53"
    using assms unfolding qi two of_int_le_iff .
  show ?thesis
  proof (cases "\<bar>i\<bar> = 2 ^ 53")
    case True
    then have "i = sgn i * 2 ^ 53" by (metis mult.commute abs_mult_sgn)
    then have "q = of_int (sgn i * 2 ^ 53)" unfolding q_def by (rule arg_cong)
    then have "q = of_int (sgn i) * 2 powi 53" by simp
    moreover have "ulp_exp q \<le> 53"
    proof -
      have "(2::rat) powi ilog2 \<bar>q\<bar> < 2 powi 54"
        using ilog2_bounds(1) [OF pos] q by simp
      then have "ilog2 \<bar>q\<bar> < 54" by (simp only: powi_two_strict)
      then show ?thesis by (simp add: ulp_exp_def)
    qed
    ultimately have "round_at (ulp_exp q) q = q"
      using round_at_grid [of "ulp_exp q" 53 "sgn i"] by simp
    then show ?thesis using False by (simp add: rnd64_def q_def)
  next
    case False
    with assms have "\<bar>i\<bar> < 2 ^ 53" by (metis less_le)
    then have "\<bar>q\<bar> < 2 powi 53" unfolding qi two of_int_less_iff .
    then have "(2::rat) powi ilog2 \<bar>q\<bar> < 2 powi 53"
      using ilog2_bounds(1) [OF pos] by linarith
    then have "ilog2 \<bar>q\<bar> < 53" by (simp only: powi_two_strict)
    then have "ulp_exp q \<le> 0" by (simp add: ulp_exp_def)
    then have "round_at (ulp_exp q) q = q"
      using round_at_grid [of "ulp_exp q" 0 i] by (simp add: q_def)
    then show ?thesis using \<open>i \<noteq> 0\<close> by (simp add: rnd64_def q_def)
  qed
qed simp

lemma clip64_mono: "r \<le> s \<Longrightarrow> f_le (clip64 r) (clip64 s)"
  by (simp add: clip64_def)

lemma round64_mono: "x \<le> y \<Longrightarrow> f_le (round64 x) (round64 y)"
  by (simp add: round64_def clip64_mono rnd64_mono)

lemma round64_not_NaN [simp]: "round64 x \<noteq> NaN"
  by (simp add: round64_def clip64_def)

lemma round64_zero [simp]: "round64 0 = Fin 0"
  by (simp add: round64_def clip64_def)

lemma clip64_small: "\<bar>r\<bar> < 2 ^ 1024 \<Longrightarrow> clip64 r = Fin r"
  by (auto simp: clip64_def abs_less_iff)

lemma round64_of_int:
  assumes "\<bar>i\<bar> \<le> 2 ^ 53"
  shows "round64 (of_int i) = Fin (of_int i)"
proof -
  have "\<bar>i\<bar> < 2 ^ 1024"
    using assms by (rule order.strict_trans1) (rule power_strict_increasing, simp_all)
  then have "\<bar>of_int i :: rat\<bar> < of_int (2 ^ 1024)"
    unfolding of_int_abs [symmetric] of_int_less_iff .
  then have "\<bar>of_int i :: rat\<bar> < 2 ^ 1024"
    by (simp only: of_int_power of_int_numeral)
  then show ?thesis by (simp only: round64_def rnd64_of_int [OF assms] clip64_small)
qed

section \<open>The order on values\<close>

lemma f_le_refl [simp]: "f_le x x \<longleftrightarrow> x \<noteq> NaN"
  by (cases x) simp_all

lemma f_le_trans: "f_le x y \<Longrightarrow> f_le y z \<Longrightarrow> f_le x z"
  by (cases x; cases y; cases z) auto

lemma f_le_NaN [simp]: "\<not> f_le x NaN"
  by (cases x) simp_all

lemma f_le_PInf [simp]: "f_le x PInf \<longleftrightarrow> x \<noteq> NaN"
  by (cases x) simp_all

lemma f_le_not_NaN: "f_le x y \<Longrightarrow> x \<noteq> NaN \<and> y \<noteq> NaN"
  by (cases x; cases y) auto

lemma f_le_linear: "x \<noteq> NaN \<Longrightarrow> y \<noteq> NaN \<Longrightarrow> f_le x y \<or> f_le y x"
  by (cases x; cases y) auto

lemma f_not_lt: "x \<noteq> NaN \<Longrightarrow> y \<noteq> NaN \<Longrightarrow> \<not> f_lt x y \<Longrightarrow> f_le y x"
  by (cases x; cases y) (auto simp: f_lt_def)

lemma f_nonneg_cases:
  assumes "f_nonneg x"
  obtains a where "x = Fin a" "0 \<le> a" | "x = PInf"
  using assms by (cases x) auto

lemma f_nonneg_round64: "0 \<le> q \<Longrightarrow> f_nonneg (round64 q)"
  using round64_mono [of 0 q] by simp

lemma f_nonneg_of_u64 [simp]: "f_nonneg (f_of_u64 w)"
  unfolding f_of_u64_def by (intro f_nonneg_round64 of_nat_0_le_iff)

lemma f_nonneg_max [simp]: "f_nonneg (f_max x (Fin 0))"
  by (cases x) (auto simp: f_max_def)

lemma f_max_nonneg_id: "f_nonneg x \<Longrightarrow> f_max x (Fin 0) = x"
  by (cases x) (auto simp: f_max_def)

section \<open>Sums and products of non-negative values\<close>

lemma f_nonneg_add: "f_nonneg x \<Longrightarrow> f_nonneg y \<Longrightarrow> f_nonneg (f_add x y)"
  by (elim f_nonneg_cases) (auto simp: f_nonneg_round64)

lemma f_nonneg_mul: "f_finite y \<Longrightarrow> f_nonneg x \<Longrightarrow> f_finite x \<Longrightarrow> f_nonneg y \<Longrightarrow> f_nonneg (f_mul x y)"
  by (elim f_nonneg_cases) (auto simp: f_nonneg_round64 f_finite_def)

lemma rnd64_idem_ge:
  assumes "0 \<le> b" and "rnd64 a = a"
  shows "a \<le> rnd64 (a + b)"
  using rnd64_mono [of a "a + b"] assms by simp

lemma f_add_mono:
  assumes "f_le x x'" and "f_le y y'" and "f_nonneg x" and "f_nonneg y"
  shows "f_le (f_add x y) (f_add x' y')"
proof -
  have "f_nonneg x'" and "f_nonneg y'"
    using assms f_le_trans by blast+
  with assms show ?thesis
    by (elim f_nonneg_cases) (auto intro: round64_mono)
qed

lemma f_add_int:
  assumes "\<bar>i + j\<bar> \<le> 2 ^ 53"
  shows "f_add (Fin (of_int i)) (Fin (of_int j)) = Fin (of_int (i + j))"
  using round64_of_int [OF assms] by simp

lemma f_sub_int:
  assumes "\<bar>i - j\<bar> \<le> 2 ^ 53"
  shows "f_sub (Fin (of_int i)) (Fin (of_int j)) = Fin (of_int (i - j))"
  using round64_of_int [OF assms] by (simp add: f_sub_def)

text \<open>Every \<open>u64\<close> becomes a finite value.\<close>

lemma rnd64_two_power: "rnd64 (2 ^ n) \<le> 2 ^ n"
proof -
  have "(2::rat) powi ilog2 (2 ^ n) < 2 powi (int n + 1)"
    using ilog2_bounds(1) [of "2 ^ n"] powi_two_strict [of "int n" "int n + 1"] by simp
  then have "ulp_exp (2 ^ n) \<le> int n" by (simp only: powi_two_strict) (simp add: ulp_exp_def)
  then show ?thesis
    using round_at_grid [of "ulp_exp (2 ^ n)" "int n" 1] by (simp add: rnd64_def)
qed

lemma f_finite_of_u64 [simp]: "f_finite (f_of_u64 w)"
proof -
  have "unat w < 2 ^ 64" using unsigned_less [of w] by simp
  then have "(of_nat (unat w) :: rat) \<le> of_nat (2 ^ 64)"
    by (intro of_nat_mono) simp
  then have "rnd64 (of_nat (unat w)) \<le> rnd64 (2 ^ 64)"
    by (intro rnd64_mono) (simp only: of_nat_power of_nat_numeral)
  then have le: "rnd64 (of_nat (unat w)) \<le> 2 ^ 64" using rnd64_two_power [of 64] by (rule order.trans)
  have ge: "0 \<le> rnd64 (of_nat (unat w))" by (rule rnd64_nonneg) (rule of_nat_0_le_iff)
  have "(2::rat) ^ 64 < 2 ^ 1024" by (rule power_strict_increasing) simp_all
  with le have "rnd64 (of_nat (unat w)) < 2 ^ 1024" by (rule order.strict_trans1)
  with ge have "\<bar>rnd64 (of_nat (unat w))\<bar> < 2 ^ 1024" by (simp only: abs_of_nonneg)
  then show ?thesis unfolding f_of_u64_def round64_def by (simp only: clip64_small) (simp add: f_finite_def)
qed

lemma f_of_u64_small:
  assumes "unat w \<le> 2 ^ 53"
  shows "f_of_u64 w = Fin (of_nat (unat w))"
proof -
  from assms have "int (unat w) \<le> int (2 ^ 53)" by (simp only: of_nat_le_iff)
  then have "\<bar>int (unat w)\<bar> \<le> 2 ^ 53" by (simp only: abs_of_nat of_nat_power of_nat_numeral)
  from round64_of_int [OF this] show ?thesis
    unfolding f_of_u64_def by (simp only: of_int_of_nat_eq)
qed

lemma f_of_u64_numeral [simp]:
  "unat (numeral n :: u64) \<le> 2 ^ 53 \<Longrightarrow>
     f_of_u64 (numeral n) = Fin (of_nat (unat (numeral n :: u64)))"
  by (rule f_of_u64_small)

lemma f_of_u64_0 [simp]: "f_of_u64 0 = Fin 0"
  using f_of_u64_small [of 0] by simp

lemma f_of_u64_1 [simp]: "f_of_u64 1 = Fin 1"
  using f_of_u64_small [of 1] by simp

lemma round64_numeral [simp]:
  assumes "(numeral n :: int) \<le> 2 ^ 53"
  shows "round64 (numeral n) = Fin (numeral n)"
  using round64_of_int [of "numeral n"] assms by simp

lemma round64_one [simp]: "round64 1 = Fin 1"
  using round64_of_int [of 1] by simp

text \<open>Evaluating a rounding: compute \<open>rnd64\<close>, whose result is far from overflow.\<close>

lemma round64_eval: "rnd64 q = r \<Longrightarrow> \<bar>r\<bar> < 2 ^ 64 \<Longrightarrow> round64 q = Fin r"
proof -
  assume "rnd64 q = r" and r: "\<bar>r\<bar> < 2 ^ 64"
  have "(2::rat) ^ 64 < 2 ^ 1024" by (rule power_strict_increasing) simp_all
  with r have "\<bar>r\<bar> < 2 ^ 1024" by (rule order.strict_trans)
  with \<open>rnd64 q = r\<close> show ?thesis by (simp only: round64_def clip64_small)
qed

text \<open>The image of an integer is an integer.\<close>

lemma rnd64_integral: "\<exists>j. rnd64 (of_int i) = of_int j"
proof (cases "i = 0")
  case False
  define k where "k = ulp_exp (of_int i)"
  have r: "rnd64 (of_int i) = round_at k (of_int i)"
    using False by (simp add: rnd64_def k_def)
  show ?thesis
  proof (cases "k \<le> 0")
    case True
    then show ?thesis using round_at_grid [of k 0 i] r by auto
  next
    case False
    then have "(2::rat) powi k = of_int (2 ^ nat k)" by (simp add: power_int_def)
    then show ?thesis unfolding r round_at_def by (metis of_int_mult)
  qed
qed (auto intro: exI [of _ 0])

lemma f_of_u64_integral:
  assumes "f_of_u64 w = Fin a"
  shows "\<exists>n::nat. a = of_nat n"
proof -
  have a: "a = rnd64 (of_int (int (unat w)))"
    using assms unfolding f_of_u64_def round64_def clip64_def
    by (simp only: of_int_of_nat_eq split: if_splits) simp_all
  obtain j where j: "a = of_int j" using a rnd64_integral by blast
  have "0 \<le> a" using f_nonneg_of_u64 [of w] assms by simp
  with j have "0 \<le> j" by simp
  then have "a = of_nat (nat j)" using j by simp
  then show ?thesis by blast
qed

text \<open>Rounding a rounded value changes nothing; a value is \<open>representable\<close> if it is rounded.\<close>

lemma round_even_small: "x < 1 / 2 \<Longrightarrow> 0 < x \<Longrightarrow> round_even x = 0"
proof -
  assume x: "x < 1 / 2" "0 < x"
  then have "\<lfloor>x\<rfloor> = 0" by (intro floor_unique) simp_all
  with x show "round_even x = 0" by (simp add: round_even_def)
qed

lemma rnd64_abs_le:
  assumes "0 < q"
  shows "rnd64 q \<le> 2 powi (ilog2 q + 1) \<or> rnd64 q = 2 powi ulp_exp q"
proof (cases "ulp_exp q \<le> ilog2 q + 1")
  case True
  have "q \<le> 2 powi (ilog2 q + 1)" using ilog2_bounds(2) [OF assms] by simp
  then have "round_at (ulp_exp q) q \<le> 2 powi (ilog2 q + 1)"
    using round_at_mono [of q "2 powi (ilog2 q + 1)" "ulp_exp q"] round_at_grid [OF True, of 1]
    by simp
  with assms show ?thesis by (simp add: rnd64_def)
next
  case False
  then have "q / 2 powi ulp_exp q < 1 / 2"
  proof -
    have "q < 2 powi (ulp_exp q - 1)"
      using ilog2_bounds(2) [OF assms] powi_two_mono [of "ilog2 q + 1" "ulp_exp q - 1"] False
      by linarith
    then show ?thesis by (simp add: power_int_diff divide_less_eq powi_two_pos)
  qed
  moreover have "0 < q / 2 powi ulp_exp q" using assms by (simp add: powi_two_pos)
  ultimately have "round_even (q / 2 powi ulp_exp q) = 0"
    by (rule round_even_small)
  then have "rnd64 q = 0" using assms by (simp add: rnd64_def round_at_def)
  then show ?thesis using powi_two_pos [of "ilog2 q + 1"] by simp
qed

lemma rnd64_idem: "rnd64 (rnd64 q) = rnd64 q"
proof -
  have pos: "rnd64 (rnd64 q) = rnd64 q" if q: "0 < q" for q
  proof (cases "rnd64 q = 0")
    case False
    define r where "r = rnd64 q"
    define k where "k = ulp_exp q"
    have r: "r = of_int (round_even (q / 2 powi k)) * 2 powi k"
      using q by (simp add: r_def k_def rnd64_def round_at_def)
    have rpos: "0 < r" using False rnd64_nonneg [of q] q by (simp add: r_def)
    have grid: "rnd64 r = r" if "ulp_exp r \<le> e" "r = of_int i * 2 powi e" for e i
      using round_at_grid [OF that(1), of i] that(2) rpos by (simp add: rnd64_def)
    have bound: "ulp_exp r \<le> j" if "r < 2 powi (j + 53)" "- 1074 \<le> j" for j
    proof -
      have "(2::rat) powi ilog2 r < 2 powi (j + 53)"
        using ilog2_bounds(1) [OF rpos] that(1) by linarith
      then have "ilog2 r < j + 53" by (simp only: powi_two_strict)
      then show ?thesis using that(2) rpos by (simp add: ulp_exp_def)
    qed
    have k: "ilog2 q + 1 \<le> k + 53" "- 1074 \<le> k" using q by (auto simp: k_def ulp_exp_def)
    consider "r < 2 powi (k + 53)" | "2 powi (k + 53) \<le> r" by linarith
    then show ?thesis
    proof cases
      case 1
      then show ?thesis using grid [OF bound [OF 1 k(2)] r] by (simp add: r_def)
    next
      case 2
      have "r \<le> 2 powi (ilog2 q + 1) \<or> r = 2 powi k"
        using rnd64_abs_le [OF q] by (simp add: r_def k_def)
      moreover have "(2::rat) powi k < 2 powi (k + 53)" by (simp only: powi_two_strict)
      ultimately have eq: "r = of_int 1 * 2 powi (k + 53)"
        using 2 powi_two_mono [OF k(1)] by auto
      have "(2::rat) powi (k + 53) < 2 powi (k + 1 + 53)" by (simp only: powi_two_strict)
      then have "ulp_exp r \<le> k + 1"
        using k(2) eq by (intro bound) simp_all
      then show ?thesis using grid [OF _ eq] by (simp add: r_def)
    qed
  qed simp
  consider "0 < q" | "q = 0" | "0 < - q" by linarith
  then show ?thesis
    using pos [of q] pos [of "- q"] by cases (simp_all add: rnd64_uminus)
qed

definition f_repr :: "f64 \<Rightarrow> bool" where
  "f_repr x \<longleftrightarrow> (case x of Fin a \<Rightarrow> rnd64 a = a | _ \<Rightarrow> True)"

lemma f_repr_round64 [simp]: "f_repr (round64 q)"
  by (simp add: f_repr_def round64_def clip64_def rnd64_idem)

lemma f_repr_zero [simp]: "f_repr (Fin 0)"
  by (simp add: f_repr_def)

lemma f_repr_add [simp]: "f_repr (f_add x y)"
  by (cases x; cases y) (auto simp: f_repr_def [of PInf] f_repr_def [of NInf] f_repr_def [of NaN])

text \<open>Adding a non-negative amount to a representable value never decreases it.\<close>

lemma f_add_ge:
  assumes "f_repr x" and "f_nonneg x" and "f_nonneg y"
  shows "f_le x (f_add x y)"
  using assms(2)
proof (cases rule: f_nonneg_cases)
  case (1 a)
  from assms(3) show ?thesis
  proof (cases rule: f_nonneg_cases)
    case (1 b)
    have "round64 a = x \<or> round64 a = PInf"
      using assms(1) \<open>x = Fin a\<close> \<open>0 \<le> a\<close> by (simp add: f_repr_def round64_def clip64_def)
    moreover have "f_le (round64 a) (round64 (a + b))"
      using 1 by (intro round64_mono) simp
    ultimately show ?thesis using 1 \<open>x = Fin a\<close> by (cases "round64 (a + b)") auto
  qed (use 1 in simp)
next
  case 2
  from assms(3) show ?thesis by (cases rule: f_nonneg_cases) (simp_all add: 2)
qed

section \<open>Evaluation\<close>

text \<open>Code equations that make sums of whole tokens cheap to evaluate.\<close>


lemma round64_code [code]:
  "round64 q = (case quotient_of q of (n, d) \<Rightarrow>
     if d = 1 \<and> \<bar>n\<bar> \<le> 2 ^ 53 then Fin q else clip64 (rnd64 q))"
proof (cases "quotient_of q")
  case (Pair n d)
  show ?thesis
  proof (cases "d = 1 \<and> \<bar>n\<bar> \<le> 2 ^ 53")
    case True
    then have "q = of_int n" using quotient_of_div [OF Pair] by simp
    then show ?thesis using True Pair by (simp add: round64_of_int)
  next
    case False
    then show ?thesis by (simp only: Pair prod.case if_False round64_def)
  qed
qed
lemma f_of_u64_code [code]: "f_of_u64 w = round64 (of_int (uint w))"
  by (simp add: f_of_u64_def)

end
