(* ===== verification/Machines.thy ===== *)
theory Machines
  imports Prelude
begin

text \<open>
  The contracts the stateful components share.

  \<^item> \<open>state_machine\<close>: a step relation and a predicate its steps preserve, so that the
    predicate holds in everything reachable.
  \<^item> \<open>event_sourced\<close>: a component that keeps a derived state beside the journal of the
    events that produced it, and a replay function that folds the journal again. A provider
    shows how one record call extends the journal and the state, and how replay treats one
    more event; a client gets that replaying the journal of any reachable component gives its
    state, and that journals only grow.
  \<^item> \<open>held_resources\<close>: a component that hands out handles, each of which holds one key until
    it is given back. A client that acquires several and gives them back after a failure
    leaves the component as it found it.
\<close>

section \<open>Step relations and invariants\<close>

locale state_machine =
  fixes step :: "'s \<Rightarrow> 's \<Rightarrow> bool"
    and inv :: "'s \<Rightarrow> bool"
  assumes inv_step: "step s t \<Longrightarrow> inv s \<Longrightarrow> inv t"
begin

lemma inv_reachable: "step\<^sup>*\<^sup>* s t \<Longrightarrow> inv s \<Longrightarrow> inv t"
  by (induction rule: rtranclp_induct) (auto intro: inv_step)

end

section \<open>Event sourcing\<close>

text \<open>
  A caller that issues calls and carries on when one is refused, and the sequences of calls
  all of which a predicate admits in the state they are made in.
\<close>

definition run_calls :: "('c \<Rightarrow> 'k \<Rightarrow> 'c \<times> 'r) \<Rightarrow> 'c \<Rightarrow> 'k list \<Rightarrow> 'c" where
  "run_calls f c ks = foldl (\<lambda>c k. fst (f c k)) c ks"

fun admitted :: "('c \<Rightarrow> 'k \<Rightarrow> bool) \<Rightarrow> ('c \<Rightarrow> 'k \<Rightarrow> 'c \<times> 'r) \<Rightarrow> 'c \<Rightarrow> 'k list \<Rightarrow> bool" where
  "admitted ok f c [] = True"
| "admitted ok f c (k # ks) = (ok c k \<and> admitted ok f (fst (f c k)) ks)"

lemma run_calls_simps [simp]:
  "run_calls f c [] = c"
  "run_calls f c (k # ks) = run_calls f (fst (f c k)) ks"
  by (simp_all add: run_calls_def)

lemma run_calls_append: "run_calls f c (ks @ ls) = run_calls f (run_calls f c ks) ls"
  by (simp add: run_calls_def)

lemma run_calls_inv:
  assumes "I c" and "\<And>c k. I c \<Longrightarrow> I (fst (f c k))"
  shows "I (run_calls f c ks)"
  using assms(1) by (induction ks arbitrary: c) (auto intro: assms(2))

lemma run_calls_inv_admitted:
  assumes "I c" and "admitted ok f c ks" and "\<And>c k. I c \<Longrightarrow> ok c k \<Longrightarrow> I (fst (f c k))"
  shows "I (run_calls f c ks)"
  using assms(1,2) by (induction ks arbitrary: c) (auto intro: assms(3))

locale event_sourced =
  fixes journal :: "'c \<Rightarrow> 'j"
    and extend :: "'j \<Rightarrow> 'e \<Rightarrow> 'j"
    and state :: "'c \<Rightarrow> 's"
    and record_event :: "'c \<Rightarrow> 'k \<Rightarrow> 'c \<times> ('err + 'r)"
    and stamp :: "'c \<Rightarrow> 'k \<Rightarrow> 'e"
    and replay :: "'j \<Rightarrow> 'err + 's"
    and admits :: "'c \<Rightarrow> 'k \<Rightarrow> bool"
  assumes recorded_journal:
      "record_event c k = (c', Inr r) \<Longrightarrow> journal c' = extend (journal c) (stamp c k)"
    and recorded_replay:
      "record_event c k = (c', Inr r) \<Longrightarrow> replay (journal c) = Inr (state c) \<Longrightarrow>
         replay (journal c') = Inr (state c')"
    and refused_journal: "record_event c k = (c', Inl e) \<Longrightarrow> journal c' = journal c"
    and refused_state: "record_event c k = (c', Inl e) \<Longrightarrow> admits c k \<Longrightarrow> state c' = state c"
begin

lemma replay_call:
  assumes "replay (journal c) = Inr (state c)" and "admits c k"
  shows "replay (journal (fst (record_event c k))) = Inr (state (fst (record_event c k)))"
proof (cases "record_event c k")
  case (Pair c' res)
  then show ?thesis
    using assms recorded_replay refused_journal refused_state by (cases res) auto
qed

text \<open>The derived state is the replay of the journal after any admitted sequence of calls.\<close>

lemma replay_calls:
  assumes "replay (journal c) = Inr (state c)" and "admitted admits record_event c ks"
  shows "replay (journal (run_calls record_event c ks))
    = Inr (state (run_calls record_event c ks))"
  using assms by (rule run_calls_inv_admitted) (rule replay_call)

text \<open>The journal only ever grows, whatever is called.\<close>

lemma journal_calls: "\<exists>es. journal (run_calls record_event c ks) = foldl extend (journal c) es"
proof (induction ks arbitrary: c)
  case Nil
  then show ?case by (intro exI [of _ "[]"]) simp
next
  case (Cons k ks)
  obtain c' res where c': "record_event c k = (c', res)" by (cases "record_event c k")
  obtain es where es: "journal (run_calls record_event c' ks) = foldl extend (journal c') es"
    using Cons by blast
  show ?case
  proof (cases res)
    case (Inl e)
    then show ?thesis using es c' refused_journal [of c k c'] by auto
  next
    case (Inr r)
    then show ?thesis using es c' recorded_journal [of c k c']
      by (intro exI [of _ "stamp c k # es"]) simp
  qed
qed

end

section \<open>Handles\<close>

text \<open>
  Acquire one handle per request, in order. On the first refusal the handles acquired so far
  are returned with the error: the vector that holds them is dropped by the caller.
\<close>

fun acquire_all ::
  "('s \<Rightarrow> 'r \<Rightarrow> 'e + 's \<times> 'h) \<Rightarrow> 's \<Rightarrow> 'r list \<Rightarrow> ('e option \<times> 'h list) \<times> 's"
where
  "acquire_all f s [] = ((None, []), s)"
| "acquire_all f s (r # rs) =
     (case f s r of
        Inl e \<Rightarrow> ((Some e, []), s)
      | Inr (s', h) \<Rightarrow>
          (case acquire_all f s' rs of ((e, hs), t) \<Rightarrow> ((e, h # hs), t)))"

locale held_resources =
  fixes acquire :: "'s \<Rightarrow> 'r \<Rightarrow> 'e + 's \<times> 'h"
    and give_back :: "'s \<Rightarrow> 'h \<Rightarrow> 's"
    and held :: "'s \<Rightarrow> 'k set"
    and with_held :: "'s \<Rightarrow> 'k set \<Rightarrow> 's"
    and key :: "'h \<Rightarrow> 'k"
    and live :: "'h \<Rightarrow> bool"
  assumes held_with: "held (with_held s K) = K"
    and with_held_id: "with_held s (held s) = s"
    and with_held_twice: "with_held (with_held s K) L = with_held s L"
    and acquired: "acquire s r = Inr (s', h) \<Longrightarrow>
      key h \<notin> held s \<and> live h \<and> s' = with_held s (insert (key h) (held s))"
    and given_back: "live h \<Longrightarrow> give_back s h = with_held s (held s - {key h})"
begin

lemma give_back_acquired: "acquire s r = Inr (s', h) \<Longrightarrow> give_back s' h = s"
  using acquired [of s r s' h]
  by (simp add: given_back held_with with_held_twice with_held_id)

lemma acquire_all_held:
  assumes "acquire_all acquire s rs = ((e, hs), t)"
  shows "t = with_held s (held s \<union> key ` set hs) \<and> list_all live hs \<and> distinct (map key hs)
    \<and> held s \<inter> key ` set hs = {}"
  using assms
proof (induction rs arbitrary: s e hs)
  case Nil
  then show ?case by (simp add: with_held_id)
next
  case (Cons r rs)
  show ?case
  proof (cases "acquire s r")
    case (Inl x)
    then show ?thesis using Cons.prems by (simp add: with_held_id)
  next
    case (Inr q)
    obtain s' h where q: "q = (s', h)" by (cases q)
    obtain e' hs' where rest: "acquire_all acquire s' rs = ((e', hs'), t)" and hs: "hs = h # hs'"
      using Cons.prems Inr q by (auto split: prod.splits)
    note h = acquired [OF Inr [unfolded q]]
    from Cons.IH [OF rest] h show ?thesis
      by (auto simp: hs held_with with_held_twice)
  qed
qed

lemma give_back_all:
  assumes "list_all live hs"
  shows "foldl give_back s hs = with_held s (held s - key ` set hs)"
  using assms
proof (induction hs arbitrary: s)
  case Nil
  then show ?case by (simp add: with_held_id)
next
  case (Cons h hs)
  have "held s - {key h} - key ` set hs = held s - insert (key h) (key ` set hs)" by blast
  with Cons show ?case by (simp add: given_back held_with with_held_twice)
qed

text \<open>All or nothing: giving back everything that was acquired restores the component.\<close>

lemma acquire_all_rollback:
  assumes "acquire_all acquire s rs = ((e, hs), t)"
  shows "foldl give_back t hs = s"
proof -
  note a = acquire_all_held [OF assms]
  have "held s \<union> key ` set hs - key ` set hs = held s" using a by blast
  with a give_back_all [of hs t] show ?thesis
    by (simp add: held_with with_held_twice with_held_id)
qed

end

end
