(* ===== verification/Budget.thy ===== *)
theory Budget
  imports Float64 Machines
begin

text \<open>
  The shared token and cost budget of \<open>agent-orchestration/src/budget.rs\<close>. A
  \<open>shared_budget\<close> is the configuration with the state behind the mutex (every method takes
  the lock for its whole body, so a method is one atomic step). A \<open>budget_reservation\<close> is the
  RAII handle: \<open>settle\<close> replaces it by the authoritative usage, dropping it gives it back.
  \<open>budget_step\<close> is the system of one budget and the handles that are alive. The lemmas show
  that weighted usage is non-negative and never decreases, that the \<open>exhausted\<close> flag always
  agrees with the counters, and that what is reserved is exactly the sum of the live handles.
\<close>

section \<open>Data\<close>

record budget_config =
  limit_weighted_tokens :: "u64 option"
  max_cost_usd :: "f64 option"
  non_cached_input_weight :: f64
  cached_input_weight :: f64
  output_weight :: f64
  reminder_at_remaining_tokens :: "u64 list"

definition default_budget_config :: budget_config where
  "default_budget_config =
     \<lparr>limit_weighted_tokens = None, max_cost_usd = None,
      non_cached_input_weight = Fin 1,
      cached_input_weight = Fin (3602879701896397 / 36028797018963968),
      output_weight = Fin 4,
      reminder_at_remaining_tokens = [40000, 15000, 5000]\<rparr>"

record usage_charge =
  input_tokens :: u64
  cached_input_tokens :: u64
  output_tokens :: u64
  uc_cost_usd :: f64

definition default_usage_charge :: usage_charge where
  "default_usage_charge =
     \<lparr>input_tokens = 0, cached_input_tokens = 0, output_tokens = 0, uc_cost_usd = Fin 0\<rparr>"

record budget_snapshot =
  weighted_tokens_used :: f64
  weighted_tokens_reserved :: f64
  bs_cost_usd :: f64
  exhausted :: bool

definition default_budget_snapshot :: budget_snapshot where
  "default_budget_snapshot =
     \<lparr>weighted_tokens_used = Fin 0, weighted_tokens_reserved = Fin 0,
      bs_cost_usd = Fin 0, exhausted = False\<rparr>"

record budget_state =
  bst_snapshot :: budget_snapshot
  delivered_reminders :: "(rstr \<times> nat) set"

record shared_budget =
  sb_config :: budget_config
  sb_state :: budget_state

record budget_reservation =
  br_weighted_tokens :: f64
  br_active :: bool

datatype budget_error =
    TokenBudgetZero
  | WeightInvalid rstr
  | MaxCostInvalid
  | ReservationZero
  | CannotReserve f64

section \<open>Operations\<close>

definition bad_weight :: "f64 \<Rightarrow> bool" where
  "bad_weight v \<longleftrightarrow> \<not> f_finite v \<or> f_lt v (Fin 0)"

definition shared_budget_new :: "budget_config \<Rightarrow> budget_error + shared_budget" where
  "shared_budget_new config =
     (if limit_weighted_tokens config = Some 0 then Inl TokenBudgetZero
      else bind_res
        (check_all (\<lambda>(name, value). ensure (\<not> bad_weight value) (WeightInvalid name))
          [(''non_cached_input_weight'', non_cached_input_weight config),
           (''cached_input_weight'', cached_input_weight config),
           (''output_weight'', output_weight config)])
        (\<lambda>_. if (case max_cost_usd config of None \<Rightarrow> False | Some v \<Rightarrow> bad_weight v)
             then Inl MaxCostInvalid
             else Inr \<lparr>sb_config = config,
                       sb_state = \<lparr>bst_snapshot = default_budget_snapshot,
                                   delivered_reminders = {}\<rparr>\<rparr>))"

definition weighted_usage :: "budget_config \<Rightarrow> usage_charge \<Rightarrow> f64" where
  "weighted_usage config usage =
     (let non_cached = sat_sub (input_tokens usage) (cached_input_tokens usage)
      in f_add
           (f_add (f_mul (f_of_u64 non_cached) (non_cached_input_weight config))
                  (f_mul (f_of_u64 (cached_input_tokens usage)) (cached_input_weight config)))
           (f_mul (f_of_u64 (output_tokens usage)) (output_weight config)))"

definition exhausted_now :: "budget_config \<Rightarrow> budget_snapshot \<Rightarrow> bool" where
  "exhausted_now config s \<longleftrightarrow>
     (case limit_weighted_tokens config of None \<Rightarrow> False
      | Some limit \<Rightarrow>
          f_le (f_of_u64 limit) (f_add (weighted_tokens_used s) (weighted_tokens_reserved s)))
     \<or> (case max_cost_usd config of None \<Rightarrow> False | Some limit \<Rightarrow> f_le limit (bs_cost_usd s))"

definition update_exhausted :: "budget_config \<Rightarrow> budget_snapshot \<Rightarrow> budget_snapshot" where
  "update_exhausted config s = s\<lparr>exhausted := exhausted_now config s\<rparr>"

text \<open>Charging usage: the body shared by \<open>record\<close> and \<open>settle\<close>.\<close>

definition charge :: "budget_config \<Rightarrow> usage_charge \<Rightarrow> budget_snapshot \<Rightarrow> budget_snapshot" where
  "charge config usage s =
     s\<lparr>weighted_tokens_used := f_add (weighted_tokens_used s) (weighted_usage config usage),
       bs_cost_usd := f_add (bs_cost_usd s) (f_max (uc_cost_usd usage) (Fin 0))\<rparr>"

definition sb_snapshot :: "shared_budget \<Rightarrow> budget_snapshot" where
  "sb_snapshot b = bst_snapshot (sb_state b)"

definition set_snapshot :: "shared_budget \<Rightarrow> budget_snapshot \<Rightarrow> shared_budget" where
  "set_snapshot b s = b\<lparr>sb_state := (sb_state b)\<lparr>bst_snapshot := s\<rparr>\<rparr>"

definition record_usage :: "shared_budget \<Rightarrow> usage_charge \<Rightarrow> shared_budget \<times> budget_snapshot" where
  "record_usage b usage =
     (let s = update_exhausted (sb_config b) (charge (sb_config b) usage (sb_snapshot b))
      in (set_snapshot b s, s))"

definition try_reserve ::
    "shared_budget \<Rightarrow> u64 \<Rightarrow> budget_error + (shared_budget \<times> budget_reservation)" where
  "try_reserve b weighted_tokens =
     (if weighted_tokens = 0 then Inl ReservationZero
      else let w = f_of_u64 weighted_tokens; s = sb_snapshot b;
               projected = f_add (f_add (weighted_tokens_used s) (weighted_tokens_reserved s)) w
        in if (case limit_weighted_tokens (sb_config b) of None \<Rightarrow> False
               | Some limit \<Rightarrow> f_lt (f_of_u64 limit) projected)
              \<or> (case max_cost_usd (sb_config b) of None \<Rightarrow> False
               | Some limit \<Rightarrow> f_le limit (bs_cost_usd s))
           then Inl (CannotReserve w)
           else let s' = update_exhausted (sb_config b)
                  (s\<lparr>weighted_tokens_reserved := f_add (weighted_tokens_reserved s) w\<rparr>)
             in Inr (set_snapshot b s', \<lparr>br_weighted_tokens = w, br_active = True\<rparr>))"

definition take_reminder :: "shared_budget \<Rightarrow> rstr \<Rightarrow> shared_budget \<times> u64 option" where
  "take_reminder b agent =
     (case limit_weighted_tokens (sb_config b) of None \<Rightarrow> (b, None)
      | Some limit \<Rightarrow>
          let s = sb_snapshot b;
              remaining = f_to_u64 (f_max (f_sub (f_sub (f_of_u64 limit)
                 (weighted_tokens_used s)) (weighted_tokens_reserved s)) (Fin 0));
              reminder_index = length (filter (\<lambda>threshold. remaining \<le> threshold)
                 (reminder_at_remaining_tokens (sb_config b)));
              delivered = delivered_reminders (sb_state b)
          in if reminder_index = 0 then (b, None)
             else if (agent, reminder_index) \<in> delivered then (b, None)
             else (b\<lparr>sb_state := (sb_state b)\<lparr>delivered_reminders :=
                      insert (agent, reminder_index) delivered\<rparr>\<rparr>, Some remaining))"

definition release :: "budget_reservation \<Rightarrow> budget_snapshot \<Rightarrow> budget_snapshot" where
  "release r s =
     s\<lparr>weighted_tokens_reserved :=
         f_max (f_sub (weighted_tokens_reserved s) (br_weighted_tokens r)) (Fin 0)\<rparr>"

definition drop_reservation :: "shared_budget \<Rightarrow> budget_reservation \<Rightarrow> shared_budget" where
  "drop_reservation b r =
     (if \<not> br_active r then b
      else set_snapshot b (update_exhausted (sb_config b) (release r (sb_snapshot b))))"

text \<open>\<open>settle\<close> consumes the handle: at the end of its scope the inactive handle is dropped.\<close>

definition settle ::
    "shared_budget \<Rightarrow> budget_reservation \<Rightarrow> usage_charge \<Rightarrow> shared_budget \<times> budget_snapshot" where
  "settle b r usage =
     (let s = update_exhausted (sb_config b)
                (charge (sb_config b) usage (release r (sb_snapshot b)))
      in (drop_reservation (set_snapshot b s) (r\<lparr>br_active := False\<rparr>), s))"

section \<open>The budget with its live reservations\<close>

inductive budget_step ::
    "shared_budget \<times> budget_reservation list \<Rightarrow> shared_budget \<times> budget_reservation list \<Rightarrow> bool"
where
  bs_record: "budget_step (b, hs) (fst (record_usage b u), hs)"
| bs_reserve: "try_reserve b w = Inr (b', r) \<Longrightarrow> budget_step (b, hs) (b', r # hs)"
| bs_settle: "budget_step (b, xs @ r # ys) (fst (settle b r u), xs @ ys)"
| bs_drop: "budget_step (b, xs @ r # ys) (drop_reservation b r, xs @ ys)"
| bs_remind: "budget_step (b, hs) (fst (take_reminder b a), hs)"

inductive_cases budget_stepE: "budget_step (b, hs) (b', hs')"

section \<open>Accounting\<close>

text \<open>What the constructor establishes of the configuration.\<close>

definition valid_config :: "budget_config \<Rightarrow> bool" where
  "valid_config c \<longleftrightarrow>
     limit_weighted_tokens c \<noteq> Some 0 \<and>
     (\<forall>v\<in>{non_cached_input_weight c, cached_input_weight c, output_weight c}.
        f_finite v \<and> f_nonneg v) \<and>
     (\<forall>v. max_cost_usd c = Some v \<longrightarrow> f_finite v \<and> f_nonneg v)"

lemma bad_weight_iff: "bad_weight v \<longleftrightarrow> \<not> (f_finite v \<and> f_nonneg v)"
  by (cases v) (auto simp: bad_weight_def f_finite_def f_lt_def)

lemma shared_budget_new_Inr_iff:
  "shared_budget_new c = Inr b \<longleftrightarrow> valid_config c \<and>
     b = \<lparr>sb_config = c, sb_state = \<lparr>bst_snapshot = default_budget_snapshot,
            delivered_reminders = {}\<rparr>\<rparr>"
  by (auto simp: shared_budget_new_def valid_config_def result_simps bad_weight_iff
      split: option.splits)

lemma f_nonneg_product:
  "f_finite v \<Longrightarrow> f_nonneg v \<Longrightarrow> f_nonneg (f_mul (f_of_u64 w) v)"
  by (intro f_nonneg_mul) simp_all

lemma weighted_usage_nonneg: "valid_config c \<Longrightarrow> f_nonneg (weighted_usage c u)"
  unfolding weighted_usage_def Let_def valid_config_def
  by (intro f_nonneg_add f_nonneg_product) simp_all

text \<open>The counters are non-negative and rounded, and the flag agrees with them.\<close>

definition accounts_ok :: "budget_config \<Rightarrow> budget_snapshot \<Rightarrow> bool" where
  "accounts_ok c s \<longleftrightarrow>
     f_nonneg (weighted_tokens_used s) \<and> f_repr (weighted_tokens_used s) \<and>
     f_nonneg (weighted_tokens_reserved s) \<and>
     f_nonneg (bs_cost_usd s) \<and> f_repr (bs_cost_usd s)"

definition budget_ok :: "shared_budget \<Rightarrow> bool" where
  "budget_ok b \<longleftrightarrow> valid_config (sb_config b) \<and> accounts_ok (sb_config b) (sb_snapshot b)"

text \<open>
  The flag agrees with the counters. A budget whose cost cap is zero starts with the flag
  cleared although its cap is already reached, so this holds initially for the others only.
\<close>

definition flag_ok :: "shared_budget \<Rightarrow> bool" where
  "flag_ok b \<longleftrightarrow>
     (exhausted (sb_snapshot b) \<longleftrightarrow> exhausted_now (sb_config b) (sb_snapshot b))"

lemma exhausted_now_update [simp]:
  "exhausted_now c (s\<lparr>exhausted := e\<rparr>) = exhausted_now c s"
  by (simp add: exhausted_now_def split: option.split)

lemma sb_snapshot_set [simp]: "sb_snapshot (set_snapshot b s) = s"
  by (simp add: sb_snapshot_def set_snapshot_def)

lemma sb_config_set [simp]: "sb_config (set_snapshot b s) = sb_config b"
  by (simp add: set_snapshot_def)

lemma accounts_ok_update [simp]: "accounts_ok c (update_exhausted c' s) = accounts_ok c s"
  by (simp add: accounts_ok_def update_exhausted_def)

lemma budget_ok_set:
  "valid_config (sb_config b) \<Longrightarrow> accounts_ok (sb_config b) s \<Longrightarrow>
     budget_ok (set_snapshot b (update_exhausted (sb_config b) s))"
  by (simp add: budget_ok_def)

lemma flag_ok_set [simp]:
  "flag_ok (set_snapshot b (update_exhausted (sb_config b) s))"
  by (simp add: flag_ok_def) (simp add: update_exhausted_def)

lemma f_repr_of_u64 [simp]: "f_repr (f_of_u64 w)"
  by (simp add: f_of_u64_def)

lemma f_repr_mul [simp]: "f_repr (f_mul x y)"
proof (cases x; cases y)
qed (auto simp: inf_of_sign_def f_repr_def [of PInf] f_repr_def [of NInf] f_repr_def [of NaN])

lemma charge_ok:
  assumes "valid_config c" and "accounts_ok c s"
  shows "accounts_ok c (charge c u s)"
    and "f_le (weighted_tokens_used s) (weighted_tokens_used (charge c u s))"
    and "f_le (bs_cost_usd s) (bs_cost_usd (charge c u s))"
proof -
  have u: "f_nonneg (weighted_usage c u)" "f_repr (weighted_usage c u)"
    using weighted_usage_nonneg [OF assms(1)] by (simp_all add: weighted_usage_def Let_def)
  show "accounts_ok c (charge c u s)"
    using assms(2) u by (simp add: accounts_ok_def charge_def f_nonneg_add)
  show "f_le (weighted_tokens_used s) (weighted_tokens_used (charge c u s))"
    and "f_le (bs_cost_usd s) (bs_cost_usd (charge c u s))"
    using assms(2) u by (simp_all add: accounts_ok_def charge_def f_add_ge)
qed

lemma release_ok: "accounts_ok c s \<Longrightarrow> accounts_ok c (release r s)"
  by (simp add: accounts_ok_def release_def)

lemma budget_okD:
  "budget_ok b \<Longrightarrow> valid_config (sb_config b)"
  "budget_ok b \<Longrightarrow> accounts_ok (sb_config b) (sb_snapshot b)"
  by (simp_all add: budget_ok_def)

lemma budget_ok_new: "shared_budget_new c = Inr b \<Longrightarrow> budget_ok b"
  by (auto simp: shared_budget_new_Inr_iff budget_ok_def accounts_ok_def sb_snapshot_def
      default_budget_snapshot_def)

lemma f_of_u64_pos: "w \<noteq> 0 \<Longrightarrow> \<not> f_le (f_of_u64 w) (Fin 0)"
proof
  assume "w \<noteq> 0" and le: "f_le (f_of_u64 w) (Fin 0)"
  then have "1 \<le> unat w" by (simp add: unat_gt_0 Suc_le_eq)
  then have "(1::rat) \<le> of_nat (unat w)" by (metis of_nat_1 of_nat_mono)
  then have "f_le (round64 1) (f_of_u64 w)" unfolding f_of_u64_def by (rule round64_mono)
  from f_le_trans [OF this le] show False by simp
qed

lemma flag_ok_new:
  assumes "shared_budget_new c = Inr b" and "max_cost_usd c \<noteq> Some (Fin 0)"
  shows "flag_ok b"
proof -
  have "\<not> f_le v (Fin 0)" if "max_cost_usd c = Some v" for v
    using assms that by (cases v) (auto simp: shared_budget_new_Inr_iff valid_config_def)
  moreover have "\<not> f_le (f_of_u64 l) (Fin 0)" if "limit_weighted_tokens c = Some l" for l
    using assms that by (intro f_of_u64_pos) (auto simp: shared_budget_new_Inr_iff valid_config_def)
  ultimately show ?thesis
    using assms(1)
    by (auto simp: shared_budget_new_Inr_iff flag_ok_def exhausted_now_def sb_snapshot_def
        default_budget_snapshot_def split: option.split)
qed

lemma record_usage_ok [inv_intros]: "budget_ok b \<Longrightarrow> budget_ok (fst (record_usage b u))"
  by (simp add: record_usage_def Let_def budget_ok_set budget_okD charge_ok)

lemma release_update [simp]: "release r (s\<lparr>exhausted := e\<rparr>) = (release r s)\<lparr>exhausted := e\<rparr>"
  by (simp add: release_def)

lemma drop_reservation_ok [inv_intros]: "budget_ok b \<Longrightarrow> budget_ok (drop_reservation b r)"
  by (simp add: drop_reservation_def budget_ok_set budget_okD release_ok)

lemma settle_eq:
  "settle b r u =
     (let s = update_exhausted (sb_config b)
                (charge (sb_config b) u (release r (sb_snapshot b)))
      in (set_snapshot b s, s))"
  by (simp add: settle_def drop_reservation_def Let_def)

lemma settle_ok [inv_intros]: "budget_ok b \<Longrightarrow> budget_ok (fst (settle b r u))"
  by (simp add: settle_eq Let_def budget_ok_set budget_okD charge_ok release_ok)

lemma try_reserve_InrE:
  assumes "try_reserve b w = Inr (b', r)"
  obtains s' where "w \<noteq> 0" "r = \<lparr>br_weighted_tokens = f_of_u64 w, br_active = True\<rparr>"
    "s' = (sb_snapshot b)\<lparr>weighted_tokens_reserved :=
             f_add (weighted_tokens_reserved (sb_snapshot b)) (f_of_u64 w)\<rparr>"
    "b' = set_snapshot b (update_exhausted (sb_config b) s')"
    "\<And>l. limit_weighted_tokens (sb_config b) = Some l \<Longrightarrow>
       \<not> f_lt (f_of_u64 l) (f_add (f_add (weighted_tokens_used (sb_snapshot b))
           (weighted_tokens_reserved (sb_snapshot b))) (f_of_u64 w))"
    "\<And>v. max_cost_usd (sb_config b) = Some v \<Longrightarrow> \<not> f_le v (bs_cost_usd (sb_snapshot b))"
  using assms by (auto simp: try_reserve_def Let_def split: if_splits option.splits)

lemma try_reserve_ok [inv_intros]:
  assumes "try_reserve b w = Inr (b', r)" and "budget_ok b"
  shows "budget_ok b'"
  using assms(1)
proof (rule try_reserve_InrE)
  fix s'
  assume s': "s' = (sb_snapshot b)\<lparr>weighted_tokens_reserved :=
             f_add (weighted_tokens_reserved (sb_snapshot b)) (f_of_u64 w)\<rparr>"
    and b': "b' = set_snapshot b (update_exhausted (sb_config b) s')"
  have "accounts_ok (sb_config b) s'"
    using budget_okD(2) [OF assms(2)] by (simp add: s' accounts_ok_def f_nonneg_add)
  then show ?thesis unfolding b' by (intro budget_ok_set budget_okD assms(2))
qed

lemma take_reminder_config [simp]: "sb_config (fst (take_reminder b a)) = sb_config b"
  by (simp add: take_reminder_def Let_def split: option.split)

lemma take_reminder_snapshot [simp]: "sb_snapshot (fst (take_reminder b a)) = sb_snapshot b"
  by (simp add: take_reminder_def sb_snapshot_def Let_def split: option.split)

lemma take_reminder_ok [inv_intros]: "budget_ok b \<Longrightarrow> budget_ok (fst (take_reminder b a))"
  by (simp add: budget_ok_def)

lemma budget_step_ok: "budget_step p q \<Longrightarrow> budget_ok (fst p) \<Longrightarrow> budget_ok (fst q)"
  by (induction rule: budget_step.induct) (auto intro: inv_intros)

lemma budget_step_flag: "budget_step p q \<Longrightarrow> flag_ok (fst p) \<Longrightarrow> flag_ok (fst q)"
proof (induction rule: budget_step.induct)
  case (bs_record b hs u)
  then show ?case by (simp add: record_usage_def Let_def)
next
  case (bs_reserve b w b' r hs)
  from bs_reserve(1) show ?case by (rule try_reserve_InrE) simp
next
  case (bs_settle b xs r ys u)
  then show ?case by (simp add: settle_eq Let_def)
next
  case (bs_drop b xs r ys)
  then show ?case by (simp add: drop_reservation_def)
next
  case (bs_remind b hs a)
  then show ?case by (simp add: flag_ok_def)
qed

interpretation flags: state_machine budget_step "\<lambda>p. flag_ok (fst p)"
  by unfold_locales (rule budget_step_flag)

lemma budget_step_spending:
  "budget_step p q \<Longrightarrow> budget_ok (fst p) \<Longrightarrow>
     f_le (weighted_tokens_used (sb_snapshot (fst p))) (weighted_tokens_used (sb_snapshot (fst q)))
     \<and> f_le (bs_cost_usd (sb_snapshot (fst p))) (bs_cost_usd (sb_snapshot (fst q)))"
proof (induction rule: budget_step.induct)
  case (bs_record b hs u)
  then show ?case
    using charge_ok(2,3) [of "sb_config b" "sb_snapshot b" u] budget_okD [of b]
    by (simp add: record_usage_def Let_def update_exhausted_def)
next
  case (bs_reserve b w b' r hs)
  then show ?case using budget_okD(2) [of b] f_le_not_NaN
    by (auto elim!: try_reserve_InrE simp: update_exhausted_def accounts_ok_def)
next
  case (bs_settle b xs r ys u)
  then show ?case
    using charge_ok(2,3) [of "sb_config b" "release r (sb_snapshot b)" u] budget_okD [of b]
      release_ok [of "sb_config b" "sb_snapshot b" r]
    by (simp add: settle_eq Let_def update_exhausted_def) (simp add: release_def)
next
  case (bs_drop b xs r ys)
  then show ?case using budget_okD(2) [of b] f_le_not_NaN
    by (auto simp: drop_reservation_def update_exhausted_def release_def accounts_ok_def)
next
  case (bs_remind b hs a)
  then show ?case using budget_okD(2) [of b] f_le_not_NaN by (auto simp: accounts_ok_def)
qed

interpretation accounts: state_machine budget_step "\<lambda>p. budget_ok (fst p)"
  by unfold_locales (rule budget_step_ok)

section \<open>Reservations\<close>

definition handle_tokens :: "budget_reservation \<Rightarrow> rat" where
  "handle_tokens r = (case br_weighted_tokens r of Fin a \<Rightarrow> a | _ \<Rightarrow> 0)"

definition reserved_total :: "budget_reservation list \<Rightarrow> rat" where
  "reserved_total hs = sum_list (map handle_tokens hs)"

text \<open>
  The pool invariant under a limit below \<open>2 ^ 53\<close>, where sums of whole tokens are exact:
  every handle is active and holds a whole number of tokens, the reserved counter is their
  sum, and the sum is within the limit.
\<close>

definition whole_handle :: "budget_reservation \<Rightarrow> bool" where
  "whole_handle r \<longleftrightarrow> br_active r \<and> (\<exists>n. br_weighted_tokens r = Fin (of_nat n))"

definition pool_ok :: "u64 \<Rightarrow> shared_budget \<times> budget_reservation list \<Rightarrow> bool" where
  "pool_ok l p \<longleftrightarrow> (case p of (b, hs) \<Rightarrow>
     budget_ok b \<and> limit_weighted_tokens (sb_config b) = Some l \<and> unat l < 2 ^ 53 \<and>
     (\<forall>r\<in>set hs. whole_handle r) \<and>
     weighted_tokens_reserved (sb_snapshot b) = Fin (reserved_total hs) \<and>
     (\<exists>n\<le>unat l. reserved_total hs = of_nat n))"

lemma reserved_total_simps [simp]:
  "reserved_total [] = 0"
  "reserved_total (r # hs) = handle_tokens r + reserved_total hs"
  "reserved_total (xs @ ys) = reserved_total xs + reserved_total ys"
  by (simp_all add: reserved_total_def)

lemma whole_handle_tokens: "whole_handle r \<Longrightarrow> \<exists>n. handle_tokens r = of_nat n"
  by (auto simp: whole_handle_def handle_tokens_def)

lemma whole_total: "\<forall>r\<in>set hs. whole_handle r \<Longrightarrow> \<exists>n. reserved_total hs = of_nat n"
proof (induction hs)
  case (Cons r hs)
  then obtain m n where "handle_tokens r = of_nat m" "reserved_total hs = of_nat n"
    using whole_handle_tokens [of r] by auto
  then have "reserved_total (r # hs) = of_nat (m + n)" by simp
  then show ?case by blast
qed (auto intro: exI [of _ 0])

lemma f_add_whole:
  "n + m \<le> 2 ^ 53 \<Longrightarrow> f_add (Fin (of_nat n)) (Fin (of_nat m)) = Fin (of_nat (n + m))"
proof -
  assume "n + m \<le> 2 ^ 53"
  then have "int (n + m) \<le> int (2 ^ 53)" by (simp only: of_nat_le_iff)
  then have "\<bar>int n + int m\<bar> \<le> 2 ^ 53" by simp
  from f_add_int [OF this] show ?thesis by simp
qed

lemma f_sub_whole:
  "n + m \<le> 2 ^ 53 \<Longrightarrow> f_sub (Fin (of_nat (n + m))) (Fin (of_nat m)) = Fin (of_nat n)"
proof -
  assume "n + m \<le> 2 ^ 53"
  then have "int n \<le> int (2 ^ 53)" by (subst of_nat_le_iff) simp
  then have "\<bar>int (n + m) - int m\<bar> \<le> 2 ^ 53" by simp
  from f_sub_int [OF this] show ?thesis by simp
qed

lemma whole_sum_within:
  assumes le: "f_le (f_add (Fin (of_nat n)) (Fin (of_nat m))) (f_of_u64 l)" and l: "unat l < 2 ^ 53"
  shows "n + m \<le> unat l"
proof (rule ccontr)
  assume "\<not> n + m \<le> unat l"
  then have less: "unat l + 1 \<le> n + m" by simp
  have "(of_nat (unat l + 1) :: rat) \<le> of_nat (n + m)"
    using less by (rule of_nat_mono)
  then have "f_le (round64 (of_nat (unat l + 1))) (f_add (Fin (of_nat n)) (Fin (of_nat m)))"
    unfolding f_add.simps of_nat_add [symmetric] by (rule round64_mono)
  from f_le_trans [OF this le] have "f_le (round64 (of_nat (unat l + 1))) (f_of_u64 l)" .
  moreover have "round64 (of_nat (unat l + 1)) = Fin (of_nat (unat l + 1))"
  proof -
    have "unat l + 1 \<le> 2 ^ 53" using l by simp
    from f_add_whole [OF this] show ?thesis by (simp only: f_add.simps of_nat_add [symmetric])
  qed
  moreover have "f_of_u64 l = Fin (of_nat (unat l))"
    using l by (intro f_of_u64_small) simp
  ultimately have "(of_nat (unat l + 1) :: rat) \<le> of_nat (unat l)"
    by (simp only: f_le.simps)
  then show False by (simp only: of_nat_le_iff)
qed

lemma try_reserve_pool:
  assumes ok: "pool_ok l (b, hs)" and res: "try_reserve b w = Inr (b', r)"
  shows "pool_ok l (b', r # hs)"
  using res
proof (rule try_reserve_InrE)
  fix s'
  assume r: "r = \<lparr>br_weighted_tokens = f_of_u64 w, br_active = True\<rparr>"
    and s': "s' = (sb_snapshot b)\<lparr>weighted_tokens_reserved :=
             f_add (weighted_tokens_reserved (sb_snapshot b)) (f_of_u64 w)\<rparr>"
    and b': "b' = set_snapshot b (update_exhausted (sb_config b) s')"
    and limit: "\<And>l. limit_weighted_tokens (sb_config b) = Some l \<Longrightarrow>
       \<not> f_lt (f_of_u64 l) (f_add (f_add (weighted_tokens_used (sb_snapshot b))
           (weighted_tokens_reserved (sb_snapshot b))) (f_of_u64 w))"
  let ?used = "weighted_tokens_used (sb_snapshot b)"
  obtain n where l: "limit_weighted_tokens (sb_config b) = Some l" "unat l < 2 ^ 53"
    and reserved: "weighted_tokens_reserved (sb_snapshot b) = Fin (of_nat n)"
    and whole: "\<forall>r\<in>set hs. whole_handle r" and bok: "budget_ok b"
    and n: "n \<le> unat l" "reserved_total hs = of_nat n"
    using ok by (auto simp: pool_ok_def)
  obtain a where a: "f_of_u64 w = Fin a"
    using f_finite_of_u64 [of w] by (cases "f_of_u64 w") (auto simp: f_finite_def)
  obtain m where m: "a = of_nat m" using f_of_u64_integral [OF a] by blast
  have used: "f_nonneg ?used" using bok by (simp add: budget_ok_def accounts_ok_def)
  have n_fin: "f_add (Fin 0) (Fin (of_nat n)) = Fin (of_nat n)"
    using f_add_whole [of 0 n] n(1) l(2) by simp
  have "f_le (Fin (of_nat n)) (f_add ?used (Fin (of_nat n)))"
    using f_add_mono [OF used, of "Fin (of_nat n)" "Fin (of_nat n)"] n_fin by simp
  then have "f_le (f_add (Fin (of_nat n)) (Fin (of_nat m)))
      (f_add (f_add ?used (Fin (of_nat n))) (Fin (of_nat m)))"
    by (intro f_add_mono) simp_all
  moreover have "f_le (f_add (f_add ?used (Fin (of_nat n))) (Fin (of_nat m))) (f_of_u64 l)"
  proof (rule f_not_lt)
    have nn: "f_nonneg (f_add ?used (Fin (of_nat n)))" using used by (intro f_nonneg_add) simp_all
    show "f_add (f_add ?used (Fin (of_nat n))) (Fin (of_nat m)) \<noteq> NaN"
      using f_nonneg_add [OF nn, of "Fin (of_nat m)"] f_le_not_NaN by simp
    show "f_of_u64 l \<noteq> NaN" using f_nonneg_of_u64 [of l] f_le_not_NaN by blast
    show "\<not> f_lt (f_of_u64 l) (f_add (f_add ?used (Fin (of_nat n))) (Fin (of_nat m)))"
      using limit [OF l(1)] reserved a m by simp
  qed
  ultimately have sum: "n + m \<le> unat l"
    using f_le_trans whole_sum_within [OF _ l(2)] by blast
  have "budget_ok b'" by (rule try_reserve_ok [OF res bok])
  moreover have "handle_tokens r = of_nat m" "whole_handle r"
    by (auto simp: r a m handle_tokens_def whole_handle_def)
  moreover have "weighted_tokens_reserved (sb_snapshot b') = Fin (of_nat (m + n))"
    using sum l(2) f_add_whole [of n m] reserved a m
    by (simp add: b' s' update_exhausted_def add.commute)
  moreover have "\<exists>k\<le>unat l. of_nat m + of_nat n = (of_nat k :: rat)"
    using sum by (intro exI [of _ "m + n"]) simp
  ultimately show ?thesis
    using l whole n(2) by (simp add: pool_ok_def b')
qed

lemma release_reserved:
  assumes ok: "pool_ok l (b, xs @ r # ys)"
  shows "weighted_tokens_reserved (release r (sb_snapshot b)) = Fin (reserved_total (xs @ ys))"
    and "\<exists>n\<le>unat l. reserved_total (xs @ ys) = of_nat n"
proof -
  from ok have whole: "whole_handle r" "\<forall>h\<in>set (xs @ ys). whole_handle h"
    and res: "weighted_tokens_reserved (sb_snapshot b) = Fin (reserved_total (xs @ r # ys))"
    and l: "unat l < 2 ^ 53" "\<exists>n\<le>unat l. reserved_total (xs @ r # ys) = of_nat n"
    by (auto simp: pool_ok_def)
  obtain m where m: "br_weighted_tokens r = Fin (of_nat m)" "handle_tokens r = of_nat m"
    using whole(1) by (auto simp: whole_handle_def handle_tokens_def)
  obtain n where n: "reserved_total (xs @ ys) = of_nat n" using whole_total [OF whole(2)] by blast
  obtain k where k: "k \<le> unat l" "reserved_total (xs @ r # ys) = of_nat k" using l(2) by blast
  have sum: "reserved_total (xs @ r # ys) = of_nat (n + m)" using n m(2) by simp
  then have nm: "n + m \<le> unat l" using k by (metis of_nat_eq_iff)
  have "f_sub (Fin (of_nat (n + m))) (Fin (of_nat m)) = Fin (of_nat n)"
    using nm l(1) by (intro f_sub_whole) simp
  then show "weighted_tokens_reserved (release r (sb_snapshot b)) = Fin (reserved_total (xs @ ys))"
    unfolding n using sum by (simp add: release_def res m(1) f_max_nonneg_id)
  show "\<exists>n\<le>unat l. reserved_total (xs @ ys) = of_nat n"
    using n nm by (intro exI [of _ n]) simp
qed

lemma charge_reserved [simp]:
  "weighted_tokens_reserved (charge c u s) = weighted_tokens_reserved s"
  by (simp add: charge_def)

lemma update_reserved [simp]:
  "weighted_tokens_reserved (update_exhausted c s) = weighted_tokens_reserved s"
  by (simp add: update_exhausted_def)

lemma budget_step_pool: "budget_step p q \<Longrightarrow> pool_ok l p \<Longrightarrow> pool_ok l q"
proof (induction rule: budget_step.induct)
  case (bs_record b hs u)
  then show ?case
    using record_usage_ok [of b u] by (simp add: pool_ok_def record_usage_def Let_def)
next
  case (bs_reserve b w b' r hs)
  then show ?case by (rule try_reserve_pool [rotated])
next
  case (bs_settle b xs r ys u)
  then show ?case
    using settle_ok [of b r u] release_reserved [of l b xs r ys]
    by (auto simp: pool_ok_def settle_eq Let_def)
next
  case (bs_drop b xs r ys)
  then have "br_active r" by (simp add: pool_ok_def whole_handle_def)
  then show ?case
    using bs_drop drop_reservation_ok [of b r] release_reserved [of l b xs r ys]
    by (auto simp: pool_ok_def drop_reservation_def)
next
  case (bs_remind b hs a)
  then show ?case using take_reminder_ok [of b a] by (simp add: pool_ok_def)
qed

interpretation pool: state_machine budget_step "pool_ok l"
  by unfold_locales (rule budget_step_pool)

lemma pool_ok_new:
  assumes "shared_budget_new c = Inr b" and "limit_weighted_tokens c = Some l" and "unat l < 2 ^ 53"
  shows "pool_ok l (b, [])"
  using assms budget_ok_new [OF assms(1)]
  by (auto simp: pool_ok_def shared_budget_new_Inr_iff sb_snapshot_def default_budget_snapshot_def
      intro: exI [of _ 0])

lemma release_add:
  assumes "pool_ok l (b, hs)" and "try_reserve b w = Inr (b', r)"
  shows "release r (sb_snapshot b') = (sb_snapshot b)\<lparr>exhausted := exhausted (sb_snapshot b')\<rparr>"
proof -
  have "pool_ok l (b', [] @ r # hs)" using try_reserve_pool [OF assms] by simp
  then have "weighted_tokens_reserved (release r (sb_snapshot b')) = Fin (reserved_total hs)"
    using release_reserved(1) [of l b' "[]" r hs] by simp
  moreover have "weighted_tokens_reserved (sb_snapshot b) = Fin (reserved_total hs)"
    using assms(1) by (simp add: pool_ok_def)
  moreover have "weighted_tokens_used (sb_snapshot b') = weighted_tokens_used (sb_snapshot b)"
    "bs_cost_usd (sb_snapshot b') = bs_cost_usd (sb_snapshot b)"
    using assms(2) by (auto elim!: try_reserve_InrE simp: update_exhausted_def)
  ultimately show ?thesis by (simp add: release_def)
qed

lemma set_snapshot_twice [simp]: "set_snapshot (set_snapshot b s) t = set_snapshot b t"
  by (simp add: set_snapshot_def)

lemma set_snapshot_id: "set_snapshot b (sb_snapshot b) = b"
  by (simp add: set_snapshot_def sb_snapshot_def)

lemma drop_after_reserve:
  assumes pool: "pool_ok l (b, hs)" and flag: "flag_ok b" and res: "try_reserve b w = Inr (b', r)"
  shows "drop_reservation b' r = b"
proof -
  from res obtain s' where b': "b' = set_snapshot b s'" and act: "br_active r"
    by (auto elim!: try_reserve_InrE)
  let ?s = "sb_snapshot b"
  have "update_exhausted (sb_config b') (release r (sb_snapshot b')) = ?s"
    unfolding release_add [OF pool res] using flag b'
    by (simp add: update_exhausted_def flag_ok_def)
  then show ?thesis
    using act b' by (simp add: drop_reservation_def) (metis set_snapshot_id)
qed

section \<open>Reminders\<close>

text \<open>Each agent is reminded at most once per threshold count.\<close>

definition reminders_ok :: "shared_budget \<Rightarrow> bool" where
  "reminders_ok b \<longleftrightarrow>
     (\<forall>(a, i)\<in>delivered_reminders (sb_state b).
        1 \<le> i \<and> i \<le> length (reminder_at_remaining_tokens (sb_config b)))"

lemma delivered_set_snapshot [simp]:
  "delivered_reminders (sb_state (set_snapshot b s)) = delivered_reminders (sb_state b)"
  by (simp add: set_snapshot_def)

lemma take_reminder_SomeD:
  assumes "take_reminder b a = (b', Some n)"
  shows "\<exists>i. (a, i) \<notin> delivered_reminders (sb_state b) \<and> 1 \<le> i \<and>
    i \<le> length (reminder_at_remaining_tokens (sb_config b)) \<and>
    delivered_reminders (sb_state b') = insert (a, i) (delivered_reminders (sb_state b))"
  using assms length_filter_le
  by (auto simp: take_reminder_def Let_def Suc_le_eq split: option.splits if_splits)

lemma take_reminder_NoneD: "take_reminder b a = (b', None) \<Longrightarrow> b' = b"
  by (auto simp: take_reminder_def Let_def split: option.splits if_splits)

lemma take_reminder_reminders_ok:
  assumes "reminders_ok b" shows "reminders_ok (fst (take_reminder b a))"
proof (cases "take_reminder b a")
  case (Pair b' n)
  have c: "sb_config b' = sb_config b" using take_reminder_config [of b a] Pair by simp
  show ?thesis
  proof (cases n)
    case None
    then show ?thesis using Pair take_reminder_NoneD [of b a b'] assms by simp
  next
    case (Some m)
    then show ?thesis using Pair take_reminder_SomeD [of b a b' m] assms c
      by (auto simp: reminders_ok_def)
  qed
qed

text \<open>The reminders an agent receives from a sequence of calls.\<close>

fun take_reminders :: "shared_budget \<Rightarrow> rstr list \<Rightarrow> shared_budget \<times> (rstr \<times> u64) list" where
  "take_reminders b [] = (b, [])"
| "take_reminders b (a # as) =
     (let (b1, r) = take_reminder b a; (b2, rs) = take_reminders b1 as
      in (b2, (case r of None \<Rightarrow> rs | Some n \<Rightarrow> (a, n) # rs)))"

definition delivered_to :: "shared_budget \<Rightarrow> rstr \<Rightarrow> nat set" where
  "delivered_to b a = {i. (a, i) \<in> delivered_reminders (sb_state b)}"

lemma delivered_to_bound:
  assumes "reminders_ok b"
  shows "finite (delivered_to b a)"
    and "card (delivered_to b a) \<le> length (reminder_at_remaining_tokens (sb_config b))"
proof -
  have sub: "delivered_to b a \<subseteq> {1..length (reminder_at_remaining_tokens (sb_config b))}"
    using assms by (auto simp: delivered_to_def reminders_ok_def)
  then show "finite (delivered_to b a)" by (rule finite_subset) simp
  show "card (delivered_to b a) \<le> length (reminder_at_remaining_tokens (sb_config b))"
    using card_mono [OF _ sub] by simp
qed

lemma take_reminder_delivered_to:
  assumes "reminders_ok b" and "take_reminder b a = (b', r)"
  shows "card (delivered_to b' c) =
    card (delivered_to b c) + (if r \<noteq> None \<and> a = c then 1 else 0)"
proof (cases r)
  case None
  then show ?thesis using assms take_reminder_NoneD [of b a b'] by simp
next
  case (Some n)
  then obtain i where i: "(a, i) \<notin> delivered_reminders (sb_state b)"
      "delivered_reminders (sb_state b') = insert (a, i) (delivered_reminders (sb_state b))"
    using assms(2) take_reminder_SomeD [of b a b' n] by blast
  show ?thesis
  proof (cases "a = c")
    case True
    then have "delivered_to b' c = insert i (delivered_to b c)" "i \<notin> delivered_to b c"
      using i by (auto simp: delivered_to_def)
    then show ?thesis using delivered_to_bound(1) [OF assms(1)] True Some by simp
  next
    case False
    then have "delivered_to b' c = delivered_to b c" using i by (auto simp: delivered_to_def)
    then show ?thesis using False by simp
  qed
qed

lemma take_reminders_count:
  assumes "reminders_ok b" and "take_reminders b as = (b', rs)"
  shows "reminders_ok b' \<and> sb_config b' = sb_config b \<and>
    card (delivered_to b' c) = card (delivered_to b c) + length (filter (\<lambda>x. fst x = c) rs)"
  using assms
proof (induction as arbitrary: b rs)
  case Nil
  then show ?case by simp
next
  case (Cons a as)
  obtain b1 r where b1: "take_reminder b a = (b1, r)" by (cases "take_reminder b a")
  obtain rs1 where rs1: "take_reminders b1 as = (b', rs1)"
      and rs: "rs = (case r of None \<Rightarrow> rs1 | Some n \<Rightarrow> (a, n) # rs1)"
    using Cons.prems(2) b1 by (cases "take_reminders b1 as") auto
  have ok1: "reminders_ok b1" "sb_config b1 = sb_config b"
    using take_reminder_reminders_ok [OF Cons.prems(1), of a] take_reminder_config [of b a] b1
    by simp_all
  from Cons.IH [OF ok1(1) rs1] take_reminder_delivered_to [OF Cons.prems(1) b1, of c] ok1(2) rs
  show ?case by (auto split: option.split)
qed

section \<open>Properties\<close>

text \<open>
  C1. Concurrent reservations cannot oversubscribe the budget: in any history of recordings,
  reservations, settlements and drops from a fresh budget with a limit below \<open>2 ^ 53\<close>, the
  reserved counter is exactly the sum of the live handles and stays within the limit.
\<close>

theorem reservations_within_limit:
  assumes "shared_budget_new c = Inr b0" and "limit_weighted_tokens c = Some l"
    and "unat l < 2 ^ 53" and "budget_step\<^sup>*\<^sup>* (b0, []) (b, hs)"
  shows "weighted_tokens_reserved (sb_snapshot b) = Fin (reserved_total hs)
    \<and> reserved_total hs \<le> of_nat (unat l)"
proof -
  have "pool_ok l (b, hs)"
    using pool.inv_reachable [OF assms(4)] pool_ok_new [OF assms(1-3)] by blast
  then obtain n where "weighted_tokens_reserved (sb_snapshot b) = Fin (reserved_total hs)"
    and n: "n \<le> unat l" "reserved_total hs = of_nat n"
    by (auto simp: pool_ok_def)
  moreover have "(of_nat n :: rat) \<le> of_nat (unat l)" using n(1) by (rule of_nat_mono)
  ultimately show ?thesis unfolding n(2) by blast
qed

definition example_config :: budget_config where
  "example_config =
     \<lparr>limit_weighted_tokens = Some 100, max_cost_usd = None,
      non_cached_input_weight = Fin 1, cached_input_weight = Fin 0, output_weight = Fin 4,
      reminder_at_remaining_tokens = [50]\<rparr>"

definition example_budget :: shared_budget where
  "example_budget = \<lparr>sb_config = example_config,
     sb_state = \<lparr>bst_snapshot = default_budget_snapshot, delivered_reminders = {}\<rparr>\<rparr>"

definition example_reserved :: "shared_budget \<times> budget_reservation" where
  "example_reserved =
     (set_snapshot example_budget (default_budget_snapshot\<lparr>weighted_tokens_reserved := Fin 60\<rparr>),
      \<lparr>br_weighted_tokens = Fin 60, br_active = True\<rparr>)"

lemma example_new: "shared_budget_new example_config = Inr example_budget"
  by (simp add: shared_budget_new_Inr_iff valid_config_def example_budget_def example_config_def
      f_finite_def)

lemma example_reserve: "try_reserve example_budget 60 = Inr example_reserved"
  by (simp add: try_reserve_def Let_def example_budget_def example_config_def example_reserved_def
      sb_snapshot_def set_snapshot_def default_budget_snapshot_def update_exhausted_def
      exhausted_now_def f_lt_def)

lemma example_run: "budget_step\<^sup>*\<^sup>* (example_budget, []) (fst example_reserved, [snd example_reserved])"
  using bs_reserve [of example_budget 60 "fst example_reserved" "snd example_reserved" "[]"]
    example_reserve by auto

theorem reservations_within_limit_witness:
  "weighted_tokens_reserved (sb_snapshot (fst example_reserved)) = Fin 60
    \<and> reserved_total [snd example_reserved] \<le> 100"
  using reservations_within_limit [OF example_new _ _ example_run, of 100]
  by (simp add: example_config_def example_reserved_def handle_tokens_def)

text \<open>
  The ledger of spent tokens and cost never goes backward: in every history from a fresh
  budget the counters are non-negative (so never \<open>NaN\<close>), and no step of any kind decreases
  the tokens used or the cost.
\<close>

lemma spending_never_decreases:
  assumes "shared_budget_new c = Inr b0" and "budget_step\<^sup>*\<^sup>* (b0, []) p" and "budget_step p q"
  shows "f_nonneg (weighted_tokens_used (sb_snapshot (fst p)))
    \<and> f_nonneg (weighted_tokens_reserved (sb_snapshot (fst p)))
    \<and> f_le (weighted_tokens_used (sb_snapshot (fst p))) (weighted_tokens_used (sb_snapshot (fst q)))
    \<and> f_le (bs_cost_usd (sb_snapshot (fst p))) (bs_cost_usd (sb_snapshot (fst q)))"
proof -
  have ok: "budget_ok (fst p)"
    using accounts.inv_reachable [OF assms(2)] budget_ok_new [OF assms(1)] by simp
  have "f_le (weighted_tokens_used (sb_snapshot (fst p))) (weighted_tokens_used (sb_snapshot (fst q)))
    \<and> f_le (bs_cost_usd (sb_snapshot (fst p))) (bs_cost_usd (sb_snapshot (fst q)))"
    using assms(3) ok by (rule budget_step_spending)
  with budget_okD(2) [OF ok] show ?thesis by (simp add: accounts_ok_def)
qed

lemma spending_never_decreases_witness:
  "f_le (Fin 0) (weighted_tokens_used (sb_snapshot (fst example_reserved)))"
  using spending_never_decreases [OF example_new, of "(example_budget, [])"
      "(fst example_reserved, [snd example_reserved])"]
    bs_reserve [of example_budget 60 "fst example_reserved" "snd example_reserved" "[]"]
    example_reserve
  by (simp add: example_budget_def sb_snapshot_def default_budget_snapshot_def)

text \<open>
  A reservation that is dropped without being settled leaves no trace: the budget after
  \<open>try_reserve\<close> and the drop of the returned handle is the budget before, flag included.
\<close>

lemma dropped_reservation_restores_budget:
  assumes "shared_budget_new c = Inr b0" and "limit_weighted_tokens c = Some l"
    and "unat l < 2 ^ 53" and "max_cost_usd c \<noteq> Some (Fin 0)"
    and "budget_step\<^sup>*\<^sup>* (b0, []) (b, hs)" and "try_reserve b w = Inr (b', r)"
  shows "drop_reservation b' r = b"
proof -
  have "pool_ok l (b, hs)"
    using pool.inv_reachable [OF assms(5)] pool_ok_new [OF assms(1-3)] by blast
  moreover have "flag_ok b"
    using flags.inv_reachable [OF assms(5)] flag_ok_new [OF assms(1,4)] by simp
  ultimately show ?thesis using assms(6) by (rule drop_after_reserve)
qed

lemma dropped_reservation_restores_budget_witness:
  "drop_reservation (fst example_reserved) (snd example_reserved) = example_budget"
  by (rule dropped_reservation_restores_budget [OF example_new, of 100 example_budget "[]" 60])
     (simp_all add: example_config_def example_reserve)

text \<open>
  The \<open>exhausted\<close> flag is never stale: after any history from a budget whose cost cap is
  not zero it says exactly whether the token limit or the cost cap is reached.
\<close>

lemma exhausted_flag_accurate:
  assumes "shared_budget_new c = Inr b0" and "max_cost_usd c \<noteq> Some (Fin 0)"
    and "budget_step\<^sup>*\<^sup>* (b0, []) (b, hs)"
  shows "exhausted (sb_snapshot b) \<longleftrightarrow> exhausted_now (sb_config b) (sb_snapshot b)"
  using flags.inv_reachable [OF assms(3)] flag_ok_new [OF assms(1,2)] by (simp add: flag_ok_def)

lemma exhausted_flag_accurate_witness:
  "exhausted (sb_snapshot (fst example_reserved)) \<longleftrightarrow>
     exhausted_now (sb_config (fst example_reserved)) (sb_snapshot (fst example_reserved))"
  by (rule exhausted_flag_accurate [OF example_new _ example_run]) (simp add: example_config_def)

text \<open>
  A zero cost cap: the budget is accepted and reports that it is not exhausted, yet it
  refuses every reservation.
\<close>

lemma zero_cost_cap_not_reported:
  assumes "shared_budget_new c = Inr b" and "max_cost_usd c = Some (Fin 0)"
  shows "\<not> exhausted (sb_snapshot b) \<and> (\<exists>e. try_reserve b w = Inl e)"
  using assms
  by (auto simp: shared_budget_new_Inr_iff sb_snapshot_def default_budget_snapshot_def
      try_reserve_def Let_def)

lemma zero_cost_cap_not_reported_witness:
  "\<exists>b. shared_budget_new (example_config\<lparr>max_cost_usd := Some (Fin 0)\<rparr>) = Inr b
     \<and> \<not> exhausted (sb_snapshot b) \<and> (\<exists>e. try_reserve b 1 = Inl e)"
proof -
  let ?c = "example_config\<lparr>max_cost_usd := Some (Fin 0)\<rparr>"
  obtain b where b: "shared_budget_new ?c = Inr b"
    by (simp add: shared_budget_new_Inr_iff valid_config_def example_config_def f_finite_def)
  have "max_cost_usd ?c = Some (Fin 0)" by simp
  from zero_cost_cap_not_reported [OF b this, of 1] b show ?thesis by blast
qed

text \<open>
  Reminders do not repeat: whatever the calls and the agents, an agent is handed at most
  as many low-budget reminders as there are configured thresholds.
\<close>

lemma reminders_bounded:
  assumes "shared_budget_new c = Inr b" and "take_reminders b as = (b', rs)"
  shows "length (filter (\<lambda>x. fst x = agent) rs) \<le> length (reminder_at_remaining_tokens c)"
proof -
  have ok: "reminders_ok b" "delivered_to b agent = {}" "sb_config b = c"
    using assms(1) by (auto simp: shared_budget_new_Inr_iff reminders_ok_def delivered_to_def)
  note count = take_reminders_count [OF ok(1) assms(2), of agent]
  then have "card (delivered_to b' agent) \<le> length (reminder_at_remaining_tokens (sb_config b'))"
    using delivered_to_bound(2) by blast
  with count ok(2,3) show ?thesis by simp
qed

lemma reminders_bounded_witness:
  "length (filter (\<lambda>x. fst x = ''worker'')
     (snd (take_reminders example_budget [''worker'', ''worker'']))) \<le> 1"
  using reminders_bounded [OF example_new, of "[''worker'', ''worker'']" _ _ "''worker''"]
  by (cases "take_reminders example_budget [''worker'', ''worker'']")
     (fastforce simp: example_config_def)

end
