(* ===== verification/Contract.thy ===== *)
theory Contract
  imports Machines
begin

text \<open>
  Identifiers, paths and reports of \<open>agent-orchestration/src/contract.rs\<close>. \<open>TaskId\<close>,
  \<open>OrchestrationId\<close> and \<open>AgentPath\<close> are transparent wrappers of a string and are modelled by
  it. \<open>path_of\<close> is the abstract view of a path, the list of its task names: the lemmas show
  that parsing accepts exactly the images of valid name lists, that \<open>child\<close> appends a name and
  that \<open>depth\<close> is the length.
\<close>

section \<open>Data\<close>

type_synonym task_id = rstr
type_synonym orchestration_id = rstr
type_synonym agent_path = rstr

datatype agent_role = Explorer | Reviewer | Verifier | ExternalResearcher

datatype harness_kind = Local | Acp | BrokeredCloud

datatype agent_status = PendingInit | Running | Interrupted | Completed | Errored | Shutdown

definition is_final :: "agent_status \<Rightarrow> bool" where
  "is_final s \<longleftrightarrow> s = Completed \<or> s = Errored \<or> s = Shutdown"

datatype report_status = RRunning | RReported | RRework | RAccepted | RFailed

datatype delivery_mode = QueueOnly | TriggerTurn

datatype report_decision = Accept | Rework

record read_only_task =
  rt_id :: task_id
  rt_role :: agent_role
  rt_objective :: rstr
  rt_scopes :: "rstr set"
  rt_acceptance :: "rstr list"
  rt_harness :: rstr

record command_evidence =
  ce_command :: rstr
  ce_exit_code :: "int option"

record test_evidence =
  te_name :: rstr
  te_passed :: bool

record claim_evidence =
  cl_evidence_ref :: rstr
  cl_claim :: rstr

record structured_report =
  sr_task_id :: task_id
  sr_attempt :: u32
  sr_status :: report_status
  sr_changed_paths :: "rstr set"
  sr_commands :: "command_evidence list"
  sr_tests :: "test_evidence list"
  sr_claims :: "claim_evidence list"
  sr_unresolved :: "rstr list"
  sr_summary :: rstr

record agent_record =
  ar_id :: rstr
  ar_path :: agent_path
  ar_task :: read_only_task
  ar_status :: agent_status
  ar_report_status :: report_status
  ar_attempt :: u32
  ar_report :: "structured_report option"
  ar_error :: "rstr option"

record message =
  msg_sender :: agent_path
  msg_target :: agent_path
  msg_body :: rstr
  msg_mode :: delivery_mode

datatype contract_error =
    SegmentLength
  | SegmentChars
  | PathNotRooted
  | PathWithoutTask
  | ReportTaskMismatch
  | ReportAttemptMismatch
  | ReportNotReported
  | ReportChangedPaths
  | ReportSummaryEmpty
  | ReportWithoutEvidence
  | ReportClaimIncomplete
  | ReportEvidenceEmpty

section \<open>Identifiers and paths\<close>

definition segment_char :: "char \<Rightarrow> bool" where
  "segment_char c \<longleftrightarrow>
     is_ascii_lowercase c \<or> is_ascii_digit c \<or> c = CHR ''_'' \<or> c = CHR ''-''"

definition validate_segment :: "rstr \<Rightarrow> contract_error + unit" where
  "validate_segment value =
     (if value = [] \<or> 64 < length value then Inl SegmentLength
      else if \<not> list_all segment_char value then Inl SegmentChars
      else Inr ())"

definition task_id_new :: "rstr \<Rightarrow> contract_error + task_id" where
  "task_id_new value = bind_res (validate_segment value) (\<lambda>_. Inr value)"

definition orchestration_id_new :: "rstr \<Rightarrow> contract_error + orchestration_id" where
  "orchestration_id_new value = bind_res (validate_segment value) (\<lambda>_. Inr value)"

definition agent_path_root :: agent_path where
  "agent_path_root = ''/root''"

definition agent_path_parse :: "rstr \<Rightarrow> contract_error + agent_path" where
  "agent_path_parse value =
     (if value = ''/root'' then Inr agent_path_root
      else case strip_prefix value ''/root/'' of
          None \<Rightarrow> Inl PathNotRooted
        | Some tail \<Rightarrow>
            if tail = [] then Inl PathWithoutTask
            else bind_res (check_all validate_segment (split_char CHR ''/'' tail))
                   (\<lambda>_. Inr value))"

definition agent_path_child :: "agent_path \<Rightarrow> task_id \<Rightarrow> contract_error + agent_path" where
  "agent_path_child p task = agent_path_parse (p @ ''/'' @ task)"

definition agent_path_resolve :: "agent_path \<Rightarrow> rstr \<Rightarrow> contract_error + agent_path" where
  "agent_path_resolve p reference =
     (if starts_with reference ''/'' then agent_path_parse reference
      else bind_res (task_id_new reference) (agent_path_child p))"

text \<open>\<open>count() - 1\<close> on a \<open>usize\<close>; the subtraction wraps on a path without any name.\<close>

definition agent_path_depth :: "agent_path \<Rightarrow> nat" where
  "agent_path_depth p =
     (case length (filter (\<lambda>part. part \<noteq> []) (split_char CHR ''/'' p)) of
        0 \<Rightarrow> 2 ^ 64 - 1
      | Suc n \<Rightarrow> n)"

section \<open>Read-only reports\<close>

definition validate_read_only ::
    "structured_report \<Rightarrow> read_only_task \<Rightarrow> u32 \<Rightarrow> contract_error + unit" where
  "validate_read_only r task attempt =
     (if sr_task_id r \<noteq> rt_id task then Inl ReportTaskMismatch
      else if sr_attempt r \<noteq> attempt then Inl ReportAttemptMismatch
      else if sr_status r \<noteq> RReported then Inl ReportNotReported
      else if sr_changed_paths r \<noteq> {} then Inl ReportChangedPaths
      else if blank (sr_summary r) then Inl ReportSummaryEmpty
      else if sr_commands r = [] \<and> sr_tests r = [] \<and> sr_claims r = [] \<and> sr_unresolved r = []
        then Inl ReportWithoutEvidence
      else if list_ex (\<lambda>c. blank (cl_claim c) \<or> blank (cl_evidence_ref c)) (sr_claims r)
        then Inl ReportClaimIncomplete
      else if list_ex (\<lambda>c. blank (ce_command c)) (sr_commands r)
          \<or> list_ex (\<lambda>t. blank (te_name t)) (sr_tests r)
          \<or> list_ex blank (sr_unresolved r)
        then Inl ReportEvidenceEmpty
      else Inr ())"

text \<open>What a reader of an accepted report can rely on.\<close>

definition evidence_count :: "structured_report \<Rightarrow> nat" where
  "evidence_count r = length (sr_commands r) + length (sr_tests r) + length (sr_claims r)
     + length (sr_unresolved r)"

lemma validate_read_only_Inr:
  "validate_read_only r task attempt = Inr u \<longleftrightarrow>
     sr_task_id r = rt_id task \<and> sr_attempt r = attempt \<and> sr_status r = RReported \<and>
     sr_changed_paths r = {} \<and> \<not> blank (sr_summary r) \<and> 0 < evidence_count r \<and>
     (\<forall>c\<in>set (sr_claims r). \<not> blank (cl_claim c) \<and> \<not> blank (cl_evidence_ref c)) \<and>
     (\<forall>c\<in>set (sr_commands r). \<not> blank (ce_command c)) \<and>
     (\<forall>t\<in>set (sr_tests r). \<not> blank (te_name t)) \<and>
     (\<forall>i\<in>set (sr_unresolved r). \<not> blank i)"
  unfolding validate_read_only_def evidence_count_def
  by (simp add: list_ex_iff Bex_def Ball_def)

section \<open>Paths as lists of names\<close>

definition valid_segment :: "rstr \<Rightarrow> bool" where
  "valid_segment s \<longleftrightarrow> s \<noteq> [] \<and> length s \<le> 64 \<and> list_all segment_char s"

definition path_of :: "rstr list \<Rightarrow> agent_path" where
  "path_of names = concat (map (\<lambda>s. CHR ''/'' # s) (''root'' # names))"

lemma validate_segment_Inr [result_simps]: "validate_segment s = Inr u \<longleftrightarrow> valid_segment s"
  by (auto simp: validate_segment_def valid_segment_def)

lemma task_id_new_Inr: "task_id_new s = Inr t \<longleftrightarrow> valid_segment s \<and> t = s"
  by (auto simp: task_id_new_def result_simps)

lemma segment_char_not_slash: "segment_char c \<Longrightarrow> c \<noteq> CHR ''/''"
  by (auto simp: segment_char_def is_ascii_lowercase_def is_ascii_digit_def)

lemma valid_segment_no_slash: "valid_segment s \<Longrightarrow> CHR ''/'' \<notin> set s"
  by (auto simp: valid_segment_def list_all_iff dest: segment_char_not_slash)

lemma valid_segment_not_Nil: "valid_segment s \<Longrightarrow> s \<noteq> []"
  by (simp add: valid_segment_def)

lemma path_of_simps:
  "path_of [] = ''/root''"
  "path_of (names @ [s]) = path_of names @ CHR ''/'' # s"
  by (simp_all add: path_of_def)

lemma split_concat:
  assumes "\<forall>s\<in>set names. CHR ''/'' \<notin> set s" and "CHR ''/'' \<notin> set s0"
  shows "split_char CHR ''/'' (s0 @ concat (map (\<lambda>s. CHR ''/'' # s) names)) = s0 # names"
  using assms
proof (induction names arbitrary: s0)
  case Nil
  then show ?case by (simp add: split_char_no_sep)
next
  case (Cons s names)
  then show ?case by (simp add: split_char_append_sep split_char_no_sep)
qed

lemma split_path_of:
  assumes "\<forall>s\<in>set names. valid_segment s"
  shows "split_char CHR ''/'' (path_of names) = [] # ''root'' # names"
  using split_concat [of "''root'' # names" "''''"] assms valid_segment_no_slash
  by (auto simp: path_of_def)

lemma join_split:
  "concat (map (\<lambda>s. CHR ''/'' # s) (split_char CHR ''/'' t)) = CHR ''/'' # t"
proof (induction t)
  case (Cons x t)
  then show ?case by (cases "split_char CHR ''/'' t") auto
qed simp

lemma agent_path_parse_Inr:
  "agent_path_parse v = Inr p \<longleftrightarrow>
     p = v \<and> (\<exists>names. (\<forall>s\<in>set names. valid_segment s) \<and> v = path_of names)"
proof
  assume parse: "agent_path_parse v = Inr p"
  show "p = v \<and> (\<exists>names. (\<forall>s\<in>set names. valid_segment s) \<and> v = path_of names)"
  proof (cases "v = ''/root''")
    case True
    then have "v = path_of []" by (simp add: path_of_def)
    then show ?thesis using parse True
      by (auto simp: agent_path_parse_def agent_path_root_def intro!: exI [of _ "[]"])
  next
    case False
    with parse obtain tail where v: "v = ''/root/'' @ tail"
      and segs: "\<forall>s\<in>set (split_char CHR ''/'' tail). valid_segment s" and p: "p = v"
      by (auto simp: agent_path_parse_def strip_prefix_Some_iff result_simps
          split: option.splits if_splits)
    have "v = path_of (split_char CHR ''/'' tail)"
      by (simp add: v path_of_def join_split)
    with segs p show ?thesis by blast
  qed
next
  assume "p = v \<and> (\<exists>names. (\<forall>s\<in>set names. valid_segment s) \<and> v = path_of names)"
  then obtain names where p: "p = v" and valid: "\<forall>s\<in>set names. valid_segment s"
    and v: "v = path_of names" by blast
  show "agent_path_parse v = Inr p"
  proof (cases names)
    case Nil
    then show ?thesis using p v
      by (simp add: agent_path_parse_def agent_path_root_def path_of_def)
  next
    case (Cons s ss)
    define tail where "tail = s @ concat (map (\<lambda>s. CHR ''/'' # s) ss)"
    have "split_char CHR ''/'' tail = names"
      unfolding tail_def Cons
      using valid Cons valid_segment_no_slash by (intro split_concat) auto
    moreover have "v = ''/root/'' @ tail" by (simp add: v Cons path_of_def tail_def)
    moreover have "tail \<noteq> []" using valid Cons valid_segment_not_Nil by (auto simp: tail_def)
    ultimately show ?thesis
      using valid p
      by (auto simp: agent_path_parse_def strip_prefix_def starts_with_def result_simps)
  qed
qed

lemma agent_path_child_Inr:
  assumes "\<forall>s\<in>set names. valid_segment s" and "valid_segment t"
  shows "agent_path_child (path_of names) t = Inr (path_of (names @ [t]))"
  unfolding agent_path_child_def using assms
  by (subst agent_path_parse_Inr) (auto simp: path_of_simps intro!: exI [of _ "names @ [t]"])

lemma agent_path_depth_path_of:
  assumes "\<forall>s\<in>set names. valid_segment s"
  shows "agent_path_depth (path_of names) = length names"
proof -
  have "filter (\<lambda>part. part \<noteq> []) names = names"
    using assms valid_segment_not_Nil by (auto simp: filter_id_conv)
  then show ?thesis by (simp add: agent_path_depth_def split_path_of [OF assms])
qed

lemma path_of_inj:
  assumes "\<forall>s\<in>set names. valid_segment s" and "\<forall>s\<in>set names'. valid_segment s"
    and "path_of names = path_of names'"
  shows "names = names'"
proof -
  have "[] # ''root'' # names = [] # ''root'' # names'"
    unfolding split_path_of [OF assms(1), symmetric] split_path_of [OF assms(2), symmetric]
    by (rule arg_cong [OF assms(3)])
  then show ?thesis by (simp only: list.inject)
qed

lemma agent_path_childE:
  assumes "agent_path_child p t = Inr q"
  obtains names where "\<forall>s\<in>set names. valid_segment s" "q = path_of names" "q = p @ ''/'' @ t"
  using assms unfolding agent_path_child_def agent_path_parse_Inr by auto

text \<open>
  Agent paths are a faithful encoding of hierarchical names: the strings \<open>parse\<close> accepts
  are exactly the images of lists of valid task names, different lists have different paths,
  \<open>child\<close> appends one name and \<open>depth\<close> counts the names.
\<close>

lemma agent_paths_encode_names:
  assumes "\<forall>s\<in>set names. valid_segment s" and "valid_segment t"
  shows "agent_path_parse (path_of names) = Inr (path_of names)
    \<and> agent_path_child (path_of names) t = Inr (path_of (names @ [t]))
    \<and> agent_path_depth (path_of names) = length names
    \<and> (agent_path_parse v = Inr p \<longrightarrow>
         p = v \<and> (\<exists>!ns. (\<forall>s\<in>set ns. valid_segment s) \<and> v = path_of ns))"
proof -
  have "agent_path_parse (path_of names) = Inr (path_of names)"
    using assms by (auto simp: agent_path_parse_Inr)
  moreover have "agent_path_parse v = Inr p \<Longrightarrow>
      p = v \<and> (\<exists>!ns. (\<forall>s\<in>set ns. valid_segment s) \<and> v = path_of ns)"
    unfolding agent_path_parse_Inr using path_of_inj by blast
  ultimately show ?thesis
    using assms agent_path_child_Inr agent_path_depth_path_of by blast
qed

lemma agent_paths_encode_names_witness:
  "agent_path_child ''/root/api'' ''scan'' = Inr ''/root/api/scan''
    \<and> agent_path_depth ''/root/api'' = 1"
proof -
  have valid: "\<forall>s\<in>set [''api'']. valid_segment s" "valid_segment ''scan''"
    by (simp_all add: valid_segment_def segment_char_def is_ascii_lowercase_def)
  show ?thesis
    using agent_paths_encode_names [OF valid, of "''/root''" "''/root''"]
    by (simp add: path_of_def)
qed

end
