(* ===== verification/OrdMap.thy ===== *)
theory OrdMap
  imports Prelude
begin

text \<open>
  \<open>BTreeMap\<close>: an association list in strictly ascending key order, so that iterating the
  list is iterating the map (\<open>iter\<close>, \<open>keys\<close>, \<open>values\<close>) and \<open>length\<close> is \<open>len()\<close>.
  The locale \<open>finite_map\<close> is the interface the components use: what a lookup returns after
  an insertion or a removal, and how the number of keys changes. It is interpreted on the
  ordered association list at the end of the theory.
\<close>

section \<open>The interface\<close>

locale finite_map =
  fixes empty :: "'m"
    and get :: "'m \<Rightarrow> 'k \<Rightarrow> 'v option"
    and put :: "'k \<Rightarrow> 'v \<Rightarrow> 'm \<Rightarrow> 'm"
    and del :: "'k \<Rightarrow> 'm \<Rightarrow> 'm"
    and keys :: "'m \<Rightarrow> 'k list"
    and wf :: "'m \<Rightarrow> bool"
  assumes get_empty: "get empty k = None"
    and get_put: "wf m \<Longrightarrow> get (put k v m) = (get m)(k \<mapsto> v)"
    and get_del: "wf m \<Longrightarrow> get (del k m) = (get m)(k := None)"
    and set_keys: "wf m \<Longrightarrow> set (keys m) = dom (get m)"
    and distinct_keys: "wf m \<Longrightarrow> distinct (keys m)"
    and wf_empty: "wf empty"
    and wf_put: "wf m \<Longrightarrow> wf (put k v m)"
    and wf_del: "wf m \<Longrightarrow> wf (del k m)"
begin

lemma get_put_same: "wf m \<Longrightarrow> get (put k v m) k = Some v"
  by (simp add: get_put)

lemma get_put_other: "wf m \<Longrightarrow> k' \<noteq> k \<Longrightarrow> get (put k v m) k' = get m k'"
  by (simp add: get_put)

lemma length_keys: "wf m \<Longrightarrow> length (keys m) = card (dom (get m))"
  by (metis distinct_card distinct_keys set_keys)

lemma finite_dom: "wf m \<Longrightarrow> finite (dom (get m))"
  by (metis List.finite_set set_keys)

lemma length_keys_put:
  assumes "wf m"
  shows "length (keys (put k v m)) =
    (if k \<in> dom (get m) then length (keys m) else Suc (length (keys m)))"
  using assms finite_dom [OF assms]
  by (simp add: length_keys wf_put get_put insert_absorb)

lemma length_keys_del:
  assumes "wf m"
  shows "length (keys (del k m)) =
    (if k \<in> dom (get m) then length (keys m) - 1 else length (keys m))"
proof -
  have "dom (get (del k m)) = dom (get m) - {k}"
    using assms by (auto simp: get_del)
  then show ?thesis
    using assms finite_dom [OF assms] by (simp add: length_keys wf_del)
qed

lemma put_del_restores:
  assumes "wf m" and "get m k = None"
  shows "get (del k (put k v m)) = get m"
  using assms by (auto simp: get_del get_put wf_put)

end

section \<open>The ordered association list\<close>

type_synonym ('k, 'v) omap = "('k \<times> 'v) list"

definition om_wf :: "('k::linorder, 'v) omap \<Rightarrow> bool" where
  "om_wf m \<longleftrightarrow> sorted_wrt (<) (map fst m)"

abbreviation om_get :: "('k, 'v) omap \<Rightarrow> 'k \<Rightarrow> 'v option" where
  "om_get m k \<equiv> map_of m k"

abbreviation om_keys :: "('k, 'v) omap \<Rightarrow> 'k list" where
  "om_keys m \<equiv> map fst m"

abbreviation om_values :: "('k, 'v) omap \<Rightarrow> 'v list" where
  "om_values m \<equiv> map snd m"

definition om_contains :: "('k, 'v) omap \<Rightarrow> 'k \<Rightarrow> bool" where
  "om_contains m k \<longleftrightarrow> map_of m k \<noteq> None"

fun om_insert :: "'k::linorder \<Rightarrow> 'v \<Rightarrow> ('k, 'v) omap \<Rightarrow> ('k, 'v) omap" where
  "om_insert k v [] = [(k, v)]"
| "om_insert k v ((k', v') # m) =
     (if k < k' then (k, v) # (k', v') # m
      else if k = k' then (k, v) # m
      else (k', v') # om_insert k v m)"

fun om_remove :: "'k \<Rightarrow> ('k, 'v) omap \<Rightarrow> ('k, 'v) omap" where
  "om_remove k [] = []"
| "om_remove k ((k', v') # m) = (if k = k' then m else (k', v') # om_remove k m)"

text \<open>\<open>iter().map(|x| (key(x), x)).collect::<BTreeMap<_, _>>()\<close>: a later entry wins.\<close>

definition om_collect :: "('k::linorder \<times> 'v) list \<Rightarrow> ('k, 'v) omap" where
  "om_collect ps = foldl (\<lambda>m (k, v). om_insert k v m) [] ps"

lemma om_wf_Nil [simp]: "om_wf []"
  by (simp add: om_wf_def)

lemma om_wf_Cons:
  "om_wf ((k, v) # m) \<longleftrightarrow> (\<forall>k'\<in>fst ` set m. k < k') \<and> om_wf m"
  by (simp add: om_wf_def)

lemma map_of_om_insert [simp]: "map_of (om_insert k v m) = (map_of m)(k \<mapsto> v)"
  by (induction k v m rule: om_insert.induct) (auto simp: fun_eq_iff)

lemma keys_om_insert [simp]: "fst ` set (om_insert k v m) = insert k (fst ` set m)"
  by (induction k v m rule: om_insert.induct) auto

lemma om_wf_insert [intro, simp]: "om_wf m \<Longrightarrow> om_wf (om_insert k v m)"
  by (induction k v m rule: om_insert.induct) (auto simp: om_wf_Cons)

lemma set_om_remove_subset: "set (om_remove k m) \<subseteq> set m"
  by (induction k m rule: om_remove.induct) auto

lemma om_wf_remove [intro, simp]: "om_wf m \<Longrightarrow> om_wf (om_remove k m)"
proof (induction k m rule: om_remove.induct)
  case (2 k k' v' m)
  then show ?case using set_om_remove_subset [of k m] by (auto simp: om_wf_Cons)
qed simp

lemma map_of_om_remove: "om_wf m \<Longrightarrow> map_of (om_remove k m) = (map_of m)(k := None)"
proof (induction k m rule: om_remove.induct)
  case (2 k k' v' m)
  have "map_of m k' = None"
    using 2(2) by (auto simp: om_wf_Cons map_of_eq_None_iff)
  with 2 show ?case by (auto simp: om_wf_Cons fun_eq_iff)
qed simp

lemma dom_om_insert: "dom (map_of (om_insert k v m)) = insert k (dom (map_of m))"
  by (simp only: map_of_om_insert dom_fun_upd) simp

lemma dom_om_remove: "om_wf m \<Longrightarrow> dom (map_of (om_remove k m)) = dom (map_of m) - {k}"
  by (simp only: map_of_om_remove dom_fun_upd) simp

lemma om_wf_distinct: "om_wf m \<Longrightarrow> distinct (map fst m)"
  by (simp add: om_wf_def strict_sorted_iff)

lemma om_wf_sorted: "om_wf m \<Longrightarrow> sorted (map fst m)"
  by (simp add: om_wf_def strict_sorted_iff)

interpretation om: finite_map
  "[]" map_of om_insert om_remove om_keys "om_wf :: ('k::linorder, 'v) omap \<Rightarrow> bool"
  by unfold_locales (auto simp: map_of_om_remove om_wf_distinct dom_map_of_conv_image_fst)

lemma om_insert_same: "om_wf m \<Longrightarrow> map_of m k = Some v \<Longrightarrow> om_insert k v m = m"
proof (induction k v m rule: om_insert.induct)
  case (2 k v k' v' m)
  have "k' < k \<or> k = k'"
    using 2(2,3) by (auto simp: om_wf_Cons dest!: map_of_SomeD split: if_splits)
  with 2 show ?case by (auto simp: om_wf_Cons split: if_splits)
qed simp

lemma om_remove_insert: "om_wf m \<Longrightarrow> map_of m k = None \<Longrightarrow> om_remove k (om_insert k v m) = m"
  by (induction k v m rule: om_insert.induct) (auto simp: om_wf_Cons split: if_splits)

lemma om_wf_eqI:
  assumes "om_wf m" and "om_wf n" and "map_of m = map_of n"
  shows "m = n"
  using assms
proof (induction m arbitrary: n)
  case Nil
  then show ?case by (cases n) (auto simp: fun_eq_iff split: if_splits)
next
  case (Cons p m)
  obtain k v where p: "p = (k, v)" by (cases p)
  show ?case
  proof (cases n)
    case Nil
    then show ?thesis using Cons.prems(3) p by (auto simp: fun_eq_iff split: if_splits)
  next
    case (Cons q n')
    obtain k' v' where q: "q = (k', v')" by (cases q)
    have dom_eq: "insert k (fst ` set m) = insert k' (fst ` set n')"
      using arg_cong [OF Cons.prems(3), of dom] p q Cons
      by (simp only: dom_map_of_conv_image_fst) simp
    have less: "\<forall>x\<in>fst ` set m. k < x" "\<forall>x\<in>fst ` set n'. k' < x"
      using Cons.prems(1,2) p q Cons by (simp_all add: om_wf_Cons)
    have "k = k'"
    proof (rule ccontr)
      assume "k \<noteq> k'"
      have "k \<in> fst ` set n'"
        using dom_eq \<open>k \<noteq> k'\<close> by (metis insertE insertI1)
      moreover have "k' \<in> fst ` set m"
        using dom_eq \<open>k \<noteq> k'\<close> by (metis insertE insertI1)
      ultimately have "k' < k" and "k < k'"
        using less by (metis (no_types))+
      then show False by simp
    qed
    moreover have "v = v'"
      using fun_cong [OF Cons.prems(3), of k] p q Cons \<open>k = k'\<close> by simp
    moreover have "map_of m = map_of n'"
    proof
      fix x
      have none: "map_of m k = None" "map_of n' k = None"
        using less \<open>k = k'\<close> by (auto simp: map_of_eq_None_iff)
      show "map_of m x = map_of n' x"
        using none fun_cong [OF Cons.prems(3), of x] \<open>k = k'\<close>
        unfolding p q Cons by (cases "x = k") simp_all
    qed
    moreover have "om_wf m" and "om_wf n'"
      using Cons.prems(1,2) p q Cons by (simp_all add: om_wf_Cons)
    ultimately have "m = n'" by (intro Cons.IH)
    with \<open>k = k'\<close> \<open>v = v'\<close> show ?thesis unfolding p q Cons by simp
  qed
qed

lemma om_wf_foldl_insert:
  "om_wf m \<Longrightarrow> om_wf (foldl (\<lambda>m (k, v). om_insert k v m) m ps)"
  by (induction ps arbitrary: m) auto

lemma om_wf_collect [simp]: "om_wf (om_collect ps)"
  by (simp add: om_collect_def om_wf_foldl_insert)

lemma keys_foldl_insert:
  "fst ` set (foldl (\<lambda>m (k, v). om_insert k v m) m ps) = fst ` set m \<union> fst ` set ps"
  by (induction ps arbitrary: m) (simp_all add: split_beta)

lemma keys_om_collect: "fst ` set (om_collect ps) = fst ` set ps"
  by (simp add: om_collect_def keys_foldl_insert)

lemma map_of_foldl_insert:
  "map_of (foldl (\<lambda>m (k, v). om_insert k v m) m ps) = map_of m ++ map_of (rev ps)"
proof (induction ps arbitrary: m)
  case Nil
  then show ?case by simp
next
  case (Cons p ps)
  obtain k v where p: "p = (k, v)" by (cases p)
  have "map_of (foldl (\<lambda>m (k, v). om_insert k v m) m (p # ps))
    = (map_of m)(k \<mapsto> v) ++ map_of (rev ps)"
    using Cons [of "om_insert k v m"] p by (simp del: fun_upd_apply)
  also have "\<dots> = map_of m ++ map_of (rev (p # ps))"
    using p by (simp add: map_add_assoc fun_eq_iff map_add_def split: option.split)
  finally show ?case .
qed

lemma map_of_rev_of_distinct: "distinct (map fst ps) \<Longrightarrow> map_of (rev ps) = map_of ps"
proof (induction ps)
  case (Cons p ps)
  then have "map_of ps (fst p) = None" by (simp add: map_of_eq_None_iff)
  with Cons show ?case
    by (auto simp: fun_eq_iff map_add_def split: option.split)
qed simp

lemma map_of_om_collect: "distinct (map fst ps) \<Longrightarrow> map_of (om_collect ps) = map_of ps"
  by (simp add: om_collect_def map_of_foldl_insert map_of_rev_of_distinct)

end
