(* ===== verification/Control.thy ===== *)
theory Control
  imports Budget Contract OrdMap
begin

text \<open>
  The control plane of \<open>agent-orchestration/src/control.rs\<close>: the tree of delegated agents, the
  spawn reservations that hold an agent slot and its path, the review decisions and the
  mailboxes. The state behind the mutex is \<open>control_state\<close>; every method locks it for its
  whole body. \<open>control_step\<close> is the control plane with the spawn reservations that are alive;
  the budget behind it is shared, so it may change at any time.
  The lemmas show capacity and depth bounds, that a slot is held by exactly the live
  reservations, and that a report is only ever accepted after it was validated for the
  attempt it belongs to.
\<close>

section \<open>State\<close>

record control_state =
  cs_agents :: "(agent_path, agent_record) omap"
  cs_reserved_paths :: "agent_path set"
  cs_mailboxes :: "(agent_path, message list) omap"

record control_plane =
  cp_max_agents :: nat
  cp_max_depth :: nat
  cp_budget :: shared_budget
  cp_state :: control_state

record spawn_reservation =
  sp_path :: agent_path
  sp_task :: "read_only_task option"
  sp_active :: bool

record control_snapshot =
  snap_max_agents :: nat
  snap_max_depth :: nat
  snap_agents :: "(agent_path, agent_record) omap"
  snap_budget :: budget_snapshot

datatype control_error =
    MaxAgentsZero
  | MaxDepthZero
  | BadContract contract_error
  | DepthExceeded nat nat
  | AgentLimitReached
  | PathExists agent_path
  | PathNotReserved agent_path
  | UnknownAgent agent_path
  | DifferentReport
  | NotReported
  | MessageEmpty
  | UnknownTarget agent_path
  | TriggerWithoutRework

section \<open>Spawning\<close>

definition control_new ::
    "nat \<Rightarrow> nat \<Rightarrow> shared_budget \<Rightarrow> control_error + control_plane" where
  "control_new max_agents max_depth budget =
     (if max_agents = 0 then Inl MaxAgentsZero
      else if max_depth = 0 then Inl MaxDepthZero
      else Inr \<lparr>cp_max_agents = max_agents, cp_max_depth = max_depth, cp_budget = budget,
                cp_state = \<lparr>cs_agents = [], cs_reserved_paths = {}, cs_mailboxes = []\<rparr>\<rparr>)"

definition set_agents :: "control_plane \<Rightarrow> (agent_path, agent_record) omap \<Rightarrow> control_plane" where
  "set_agents c m = c\<lparr>cp_state := (cp_state c)\<lparr>cs_agents := m\<rparr>\<rparr>"

definition set_reserved :: "control_plane \<Rightarrow> agent_path set \<Rightarrow> control_plane" where
  "set_reserved c R = c\<lparr>cp_state := (cp_state c)\<lparr>cs_reserved_paths := R\<rparr>\<rparr>"

definition set_mailboxes :: "control_plane \<Rightarrow> (agent_path, message list) omap \<Rightarrow> control_plane" where
  "set_mailboxes c m = c\<lparr>cp_state := (cp_state c)\<lparr>cs_mailboxes := m\<rparr>\<rparr>"

abbreviation agents :: "control_plane \<Rightarrow> (agent_path, agent_record) omap" where
  "agents c \<equiv> cs_agents (cp_state c)"

abbreviation reserved_paths :: "control_plane \<Rightarrow> agent_path set" where
  "reserved_paths c \<equiv> cs_reserved_paths (cp_state c)"

abbreviation mailboxes :: "control_plane \<Rightarrow> (agent_path, message list) omap" where
  "mailboxes c \<equiv> cs_mailboxes (cp_state c)"

fun map_error :: "('e \<Rightarrow> 'f) \<Rightarrow> 'e + 'a \<Rightarrow> 'f + 'a" where
  "map_error f (Inl e) = Inl (f e)"
| "map_error f (Inr x) = Inr x"

definition reserve_spawn ::
    "control_plane \<Rightarrow> agent_path \<Rightarrow> read_only_task \<Rightarrow>
     control_error + (control_plane \<times> spawn_reservation)" where
  "reserve_spawn c parent task =
     bind_res (map_error BadContract (agent_path_child parent (rt_id task))) (\<lambda>path.
       if cp_max_depth c < agent_path_depth path
       then Inl (DepthExceeded (agent_path_depth path) (cp_max_depth c))
       else if cp_max_agents c \<le> length (agents c) + card (reserved_paths c)
       then Inl AgentLimitReached
       else if om_contains (agents c) path \<or> path \<in> reserved_paths c
       then Inl (PathExists path)
       else Inr (set_reserved c (insert path (reserved_paths c)),
                 \<lparr>sp_path = path, sp_task = Some task, sp_active = True\<rparr>))"

definition commit_spawn ::
    "control_plane \<Rightarrow> agent_path \<Rightarrow> read_only_task \<Rightarrow> rstr \<Rightarrow>
     control_error + (control_plane \<times> agent_record)" where
  "commit_spawn c path task agent_id =
     (if path \<notin> reserved_paths c then Inl (PathNotReserved path)
      else let c' = set_reserved c (reserved_paths c - {path});
               rec = \<lparr>ar_id = agent_id, ar_path = path, ar_task = task,
                      ar_status = PendingInit, ar_report_status = RRunning,
                      ar_attempt = 1, ar_report = None, ar_error = None\<rparr>
        in Inr (set_agents c' (om_insert path rec (agents c')), rec))"

definition rollback_spawn :: "control_plane \<Rightarrow> agent_path \<Rightarrow> control_plane" where
  "rollback_spawn c path = set_reserved c (reserved_paths c - {path})"

definition drop_spawn :: "control_plane \<Rightarrow> spawn_reservation \<Rightarrow> control_plane" where
  "drop_spawn c r = (if sp_active r then rollback_spawn c (sp_path r) else c)"

text \<open>
  \<open>SpawnReservation::commit\<close> takes the task out of the handle (the code expects it to be
  there: \<open>None\<close> is its panic) and consumes the handle, which is dropped at the end.
\<close>

definition commit ::
    "control_plane \<Rightarrow> spawn_reservation \<Rightarrow> rstr \<Rightarrow>
     (control_plane \<times> (control_error + agent_record)) option" where
  "commit c r agent_id =
     (case sp_task r of None \<Rightarrow> None
      | Some task \<Rightarrow>
          Some (case commit_spawn c (sp_path r) task agent_id of
              Inl e \<Rightarrow> (drop_spawn c (r\<lparr>sp_task := None\<rparr>), Inl e)
            | Inr (c', rec) \<Rightarrow>
                (drop_spawn c' (r\<lparr>sp_task := None, sp_active := False\<rparr>), Inr rec)))"

section \<open>Agent records\<close>

text \<open>\<open>agents.get_mut(path).ok_or(unknown)\<close> and an update of the record.\<close>

definition update_agent ::
    "control_plane \<Rightarrow> agent_path \<Rightarrow> (agent_record \<Rightarrow> control_error + (agent_record \<times> 'r)) \<Rightarrow>
     control_error + (control_plane \<times> 'r)" where
  "update_agent c path f =
     bind_res (ok_or (om_get (agents c) path) (UnknownAgent path)) (\<lambda>rec.
       bind_res (f rec) (\<lambda>(rec', out).
         Inr (set_agents c (om_insert path rec' (agents c)), out)))"

definition set_status ::
    "control_plane \<Rightarrow> agent_path \<Rightarrow> agent_status \<Rightarrow> control_error + (control_plane \<times> unit)" where
  "set_status c path status = update_agent c path (\<lambda>rec. Inr (rec\<lparr>ar_status := status\<rparr>, ()))"

definition control_fail ::
    "control_plane \<Rightarrow> agent_path \<Rightarrow> rstr \<Rightarrow> control_error + (control_plane \<times> unit)" where
  "control_fail c path error = update_agent c path (\<lambda>rec.
     Inr (rec\<lparr>ar_status := Errored, ar_report_status := RFailed, ar_error := Some error\<rparr>, ()))"

definition report_record ::
    "structured_report \<Rightarrow> agent_record \<Rightarrow> control_error + (agent_record \<times> bool)" where
  "report_record report rec =
     bind_res (map_error BadContract (validate_read_only report (ar_task rec) (ar_attempt rec)))
       (\<lambda>_. case ar_report rec of
           Some existing \<Rightarrow>
             if existing = report then Inr (rec, False) else Inl DifferentReport
         | None \<Rightarrow>
             Inr (rec\<lparr>ar_status := Completed, ar_report_status := RReported,
                      ar_report := Some report\<rparr>, True))"

definition control_report ::
    "control_plane \<Rightarrow> agent_path \<Rightarrow> structured_report \<Rightarrow> control_error + (control_plane \<times> bool)"
where
  "control_report c path report = update_agent c path (report_record report)"

definition decide_record ::
    "report_decision \<Rightarrow> agent_record \<Rightarrow> control_error + (agent_record \<times> u32)" where
  "decide_record decision rec =
     (if ar_report_status rec \<noteq> RReported \<or> ar_report rec = None then Inl NotReported
      else case decision of
          Accept \<Rightarrow> Inr (rec\<lparr>ar_report_status := RAccepted\<rparr>, ar_attempt rec)
        | Rework \<Rightarrow>
            Inr (rec\<lparr>ar_attempt := ar_attempt rec + 1, ar_status := Interrupted,
                     ar_report_status := RRework, ar_report := None, ar_error := None\<rparr>,
                 ar_attempt rec + 1))"

definition control_decide ::
    "control_plane \<Rightarrow> agent_path \<Rightarrow> report_decision \<Rightarrow> control_error + (control_plane \<times> u32)" where
  "control_decide c path decision = update_agent c path (decide_record decision)"

section \<open>Mailboxes and queries\<close>

definition send_message :: "control_plane \<Rightarrow> message \<Rightarrow> control_error + control_plane" where
  "send_message c m =
     (if blank (msg_body m) then Inl MessageEmpty
      else case om_get (agents c) (msg_target m) of
          None \<Rightarrow> Inl (UnknownTarget (msg_target m))
        | Some target \<Rightarrow>
            if msg_mode m = TriggerTurn \<and> ar_report_status target \<noteq> RRework
            then Inl TriggerWithoutRework
            else let box = (case om_get (mailboxes c) (msg_target m) of None \<Rightarrow> [] | Some b \<Rightarrow> b)
              in Inr (set_mailboxes c (om_insert (msg_target m) (box @ [m]) (mailboxes c))))"

definition drain_mailbox :: "control_plane \<Rightarrow> agent_path \<Rightarrow> control_plane \<times> message list" where
  "drain_mailbox c target =
     (set_mailboxes c (om_remove target (mailboxes c)),
      (case om_get (mailboxes c) target of None \<Rightarrow> [] | Some b \<Rightarrow> b))"

definition control_agent :: "control_plane \<Rightarrow> agent_path \<Rightarrow> agent_record option" where
  "control_agent c path = om_get (agents c) path"

definition control_snapshot_of :: "control_plane \<Rightarrow> control_snapshot" where
  "control_snapshot_of c =
     \<lparr>snap_max_agents = cp_max_agents c, snap_max_depth = cp_max_depth c,
      snap_agents = agents c, snap_budget = sb_snapshot (cp_budget c)\<rparr>"

section \<open>The control plane with its live reservations\<close>

inductive control_step ::
    "control_plane \<times> spawn_reservation list \<Rightarrow> control_plane \<times> spawn_reservation list \<Rightarrow> bool"
where
  ct_reserve: "reserve_spawn c parent task = Inr (c', r) \<Longrightarrow> control_step (c, hs) (c', r # hs)"
| ct_commit: "commit c r i = Some (c', res) \<Longrightarrow> control_step (c, xs @ r # ys) (c', xs @ ys)"
| ct_drop: "control_step (c, xs @ r # ys) (drop_spawn c r, xs @ ys)"
| ct_status: "set_status c p s = Inr (c', u) \<Longrightarrow> control_step (c, hs) (c', hs)"
| ct_fail: "control_fail c p e = Inr (c', u) \<Longrightarrow> control_step (c, hs) (c', hs)"
| ct_report: "control_report c p rep = Inr (c', fresh) \<Longrightarrow> control_step (c, hs) (c', hs)"
| ct_decide: "control_decide c p d = Inr (c', n) \<Longrightarrow> control_step (c, hs) (c', hs)"
| ct_send: "send_message c m = Inr c' \<Longrightarrow> control_step (c, hs) (c', hs)"
| ct_drain: "control_step (c, hs) (fst (drain_mailbox c p), hs)"
| ct_budget: "control_step (c, hs) (c\<lparr>cp_budget := b\<rparr>, hs)"


inductive_cases control_stepE: "control_step s t"

section \<open>What the operations do\<close>

lemma set_simps [simp]:
  "agents (set_agents c m) = m" "reserved_paths (set_agents c m) = reserved_paths c"
  "mailboxes (set_agents c m) = mailboxes c"
  "agents (set_reserved c R) = agents c" "reserved_paths (set_reserved c R) = R"
  "mailboxes (set_reserved c R) = mailboxes c"
  "agents (set_mailboxes c b) = agents c" "reserved_paths (set_mailboxes c b) = reserved_paths c"
  "mailboxes (set_mailboxes c b) = b"
  "cp_max_agents (set_agents c m) = cp_max_agents c"
  "cp_max_depth (set_agents c m) = cp_max_depth c"
  "cp_max_agents (set_reserved c R) = cp_max_agents c"
  "cp_max_depth (set_reserved c R) = cp_max_depth c"
  "cp_max_agents (set_mailboxes c b) = cp_max_agents c"
  "cp_max_depth (set_mailboxes c b) = cp_max_depth c"
  "set_reserved (set_reserved c R) R' = set_reserved c R'"
  "set_reserved c (reserved_paths c) = c"
  by (simp_all add: set_agents_def set_reserved_def set_mailboxes_def)

lemma map_error_Inr_iff [result_simps]: "map_error f r = Inr x \<longleftrightarrow> r = Inr x"
  by (cases r) auto

lemma map_error_Inl_iff [result_simps]: "map_error f r = Inl e \<longleftrightarrow> (\<exists>e'. r = Inl e' \<and> e = f e')"
  by (cases r) auto

lemma reserve_spawn_Inr:
  "reserve_spawn c parent task = Inr (c', r) \<longleftrightarrow>
     (\<exists>path. agent_path_child parent (rt_id task) = Inr path
        \<and> agent_path_depth path \<le> cp_max_depth c
        \<and> length (agents c) + card (reserved_paths c) < cp_max_agents c
        \<and> om_get (agents c) path = None \<and> path \<notin> reserved_paths c
        \<and> c' = set_reserved c (insert path (reserved_paths c))
        \<and> r = \<lparr>sp_path = path, sp_task = Some task, sp_active = True\<rparr>)"
  unfolding reserve_spawn_def by (auto simp: result_simps om_contains_def not_less not_le)

lemma update_agent_Inr:
  "update_agent c p f = Inr (c', out) \<longleftrightarrow>
     (\<exists>rec rec'. om_get (agents c) p = Some rec \<and> f rec = Inr (rec', out)
        \<and> c' = set_agents c (om_insert p rec' (agents c)))"
  unfolding update_agent_def by (auto simp: result_simps split: prod.splits)

lemma report_record_Inr:
  "report_record report rec = Inr (rec', fresh) \<longleftrightarrow>
     validate_read_only report (ar_task rec) (ar_attempt rec) = Inr ()
     \<and> (fresh = (ar_report rec = None))
     \<and> (if fresh then rec' = rec\<lparr>ar_status := Completed, ar_report_status := RReported,
                                 ar_report := Some report\<rparr>
        else ar_report rec = Some report \<and> rec' = rec)"
  unfolding report_record_def by (auto simp: result_simps split: option.splits)

lemma decide_record_Inr:
  "decide_record d rec = Inr (rec', n) \<longleftrightarrow>
     ar_report_status rec = RReported \<and> ar_report rec \<noteq> None \<and> n = ar_attempt rec'
     \<and> (case d of
          Accept \<Rightarrow> rec' = rec\<lparr>ar_report_status := RAccepted\<rparr>
        | Rework \<Rightarrow> rec' = rec\<lparr>ar_attempt := ar_attempt rec + 1, ar_status := Interrupted,
                               ar_report_status := RRework, ar_report := None, ar_error := None\<rparr>)"
  unfolding decide_record_def by (cases d) auto

lemma drop_spawn_reserved:
  "sp_active r \<Longrightarrow> drop_spawn c r = set_reserved c (reserved_paths c - {sp_path r})"
  by (simp add: drop_spawn_def rollback_spawn_def)

text \<open>Giving back a spawn reservation, and several of them.\<close>

interpretation spawns: held_resources
  "\<lambda>c (parent, task). reserve_spawn c parent task" drop_spawn reserved_paths set_reserved
  sp_path sp_active
  by unfold_locales (auto simp: reserve_spawn_Inr drop_spawn_reserved)

text \<open>The effect of a live reservation's commit.\<close>

lemma commit_live:
  assumes "sp_path r \<in> reserved_paths c" and "sp_task r = Some task"
  shows "commit c r i =
    Some (set_agents (set_reserved c (reserved_paths c - {sp_path r}))
            (om_insert (sp_path r)
               \<lparr>ar_id = i, ar_path = sp_path r, ar_task = task, ar_status = PendingInit,
                ar_report_status = RRunning, ar_attempt = 1, ar_report = None, ar_error = None\<rparr>
               (agents c)),
          Inr \<lparr>ar_id = i, ar_path = sp_path r, ar_task = task, ar_status = PendingInit,
               ar_report_status = RRunning, ar_attempt = 1, ar_report = None, ar_error = None\<rparr>)"
  using assms by (simp add: commit_def commit_spawn_def drop_spawn_def Let_def)

section \<open>The invariant\<close>

definition record_ok :: "agent_path \<Rightarrow> agent_record \<Rightarrow> bool" where
  "record_ok p rec \<longleftrightarrow>
     ar_path rec = p
     \<and> (case ar_report rec of None \<Rightarrow> True
          | Some r \<Rightarrow> validate_read_only r (ar_task rec) (ar_attempt rec) = Inr ())
     \<and> (ar_report_status rec = RReported \<or> ar_report_status rec = RAccepted \<longrightarrow>
          ar_report rec \<noteq> None)
     \<and> (ar_report_status rec = RRunning \<or> ar_report_status rec = RRework \<longrightarrow>
          ar_report rec = None)"

definition mailbox_ok :: "agent_path set \<Rightarrow> agent_path \<Rightarrow> message list \<Rightarrow> bool" where
  "mailbox_ok known p box \<longleftrightarrow>
     p \<in> known \<and> box \<noteq> [] \<and> list_all (\<lambda>m. msg_target m = p \<and> \<not> blank (msg_body m)) box"

definition control_ok :: "control_plane \<times> spawn_reservation list \<Rightarrow> bool" where
  "control_ok = (\<lambda>(c, hs).
     om_wf (agents c) \<and> om_wf (mailboxes c)
     \<and> reserved_paths c = sp_path ` set hs \<and> distinct (map sp_path hs)
     \<and> (\<forall>r\<in>set hs. sp_active r \<and> sp_task r \<noteq> None \<and> om_get (agents c) (sp_path r) = None)
     \<and> length (agents c) + card (reserved_paths c) \<le> cp_max_agents c
     \<and> (\<forall>p \<in> dom (om_get (agents c)) \<union> reserved_paths c. agent_path_depth p \<le> cp_max_depth c)
     \<and> (\<forall>p rec. om_get (agents c) p = Some rec \<longrightarrow> record_ok p rec)
     \<and> (\<forall>p box. om_get (mailboxes c) p = Some box \<longrightarrow>
          mailbox_ok (dom (om_get (agents c))) p box))"

lemma control_ok_new:
  "control_new max_agents max_depth budget = Inr c \<Longrightarrow> control_ok (c, [])"
  by (auto simp: control_new_def control_ok_def split: if_splits)

lemma length_om_insert:
  "om_wf m \<Longrightarrow> length (om_insert k v m) =
     (if k \<in> dom (om_get m) then length m else Suc (length m))"
  using om.length_keys_put [of m k v] by simp

lemma control_ok_update:
  assumes "control_ok (c, hs)" and "om_get (agents c) p = Some rec" and "record_ok p rec'"
  shows "control_ok (set_agents c (om_insert p rec' (agents c)), hs)"
proof -
  have "insert p (dom (om_get (agents c))) = dom (om_get (agents c))" using assms(2) by blast
  with assms show ?thesis
    by (auto simp: control_ok_def length_om_insert mailbox_ok_def)
qed

lemma control_ok_update_agent:
  assumes "control_ok (c, hs)" and "update_agent c p f = Inr (c', out)"
    and "\<And>rec rec' out. f rec = Inr (rec', out) \<Longrightarrow> record_ok p rec \<Longrightarrow> record_ok p rec'"
  shows "control_ok (c', hs)"
proof -
  obtain rec rec' where rec: "om_get (agents c) p = Some rec" "f rec = Inr (rec', out)"
    and c': "c' = set_agents c (om_insert p rec' (agents c))"
    using assms(2) by (auto simp: update_agent_Inr)
  have "record_ok p rec" using assms(1) rec(1) by (simp add: control_ok_def)
  then show ?thesis
    unfolding c' by (rule control_ok_update [OF assms(1) rec(1) assms(3) [OF rec(2)]])
qed

lemma control_ok_reserve:
  assumes "control_ok (c, hs)" and "reserve_spawn c parent task = Inr (c', r)"
  shows "control_ok (c', r # hs)"
  using assms by (auto simp: control_ok_def reserve_spawn_Inr)

lemma distinct_without:
  assumes "distinct (as @ a # bs)"
  shows "set (as @ a # bs) - {a} = set (as @ bs)"
    and "card (set (as @ a # bs)) = Suc (card (set (as @ bs)))"
  using assms by auto

lemma paths_without:
  assumes "distinct (map sp_path (xs @ r # ys))"
  shows "sp_path ` set (xs @ r # ys) - {sp_path r} = sp_path ` set (xs @ ys)"
    and "card (sp_path ` set (xs @ r # ys)) = Suc (card (sp_path ` set (xs @ ys)))"
  using distinct_without [of "map sp_path xs" "sp_path r" "map sp_path ys"] assms
  by (simp_all only: set_map [symmetric] map_append list.map)

lemma control_ok_remove:
  assumes "control_ok (c, xs @ r # ys)"
  shows "control_ok (set_reserved c (reserved_paths c - {sp_path r}), xs @ ys)"
proof -
  have d: "distinct (map sp_path (xs @ r # ys))"
    and R: "reserved_paths c = sp_path ` set (xs @ r # ys)"
    using assms by (simp_all add: control_ok_def)
  have R': "reserved_paths c - {sp_path r} = sp_path ` set (xs @ ys)"
    unfolding R by (rule paths_without(1) [OF d])
  have "length (agents c) + card (reserved_paths c) \<le> cp_max_agents c"
    using assms unfolding control_ok_def by blast
  then have "length (agents c) + card (sp_path ` set (xs @ ys)) \<le> cp_max_agents c"
    unfolding R paths_without(2) [OF d] by linarith
  then show ?thesis
    using assms unfolding R' control_ok_def by (auto simp: R)
qed

lemma control_ok_add:
  assumes "control_ok (c, hs)" and "p \<notin> dom (om_get (agents c))" and "record_ok p rec"
    and "p \<notin> sp_path ` set hs" and "agent_path_depth p \<le> cp_max_depth c"
    and "length (agents c) + card (reserved_paths c) < cp_max_agents c"
  shows "control_ok (set_agents c (om_insert p rec (agents c)), hs)"
  using assms by (auto simp: control_ok_def length_om_insert mailbox_ok_def)

lemma control_ok_commit:
  assumes "control_ok (c, xs @ r # ys)" and "commit c r i = Some (c', res)"
  shows "control_ok (c', xs @ ys)"
proof -
  have d: "distinct (map sp_path (xs @ r # ys))"
    and R: "reserved_paths c = sp_path ` set (xs @ r # ys)"
    using assms by (simp_all add: control_ok_def)
  obtain task where task: "sp_task r = Some task"
    using assms(1) by (auto simp: control_ok_def)
  have mem: "sp_path r \<in> reserved_paths c" by (simp add: R)
  define rec where "rec = \<lparr>ar_id = i, ar_path = sp_path r, ar_task = task,
    ar_status = PendingInit, ar_report_status = RRunning, ar_attempt = 1, ar_report = None,
    ar_error = None\<rparr>"
  let ?c = "set_reserved c (reserved_paths c - {sp_path r})"
  have c': "c' = set_agents ?c (om_insert (sp_path r) rec (agents ?c))"
    using assms(2) by (simp add: commit_live [OF mem task] rec_def)
  have "card (reserved_paths c) = Suc (card (reserved_paths ?c))"
    by (simp only: set_simps) (simp only: R paths_without [OF d])
  moreover have "length (agents c) + card (reserved_paths c) \<le> cp_max_agents c"
    using assms(1) unfolding control_ok_def by blast
  moreover have "agent_path_depth (sp_path r) \<le> cp_max_depth c"
    and "om_get (agents c) (sp_path r) = None"
    using assms(1) mem by (simp_all add: control_ok_def)
  ultimately show ?thesis
    unfolding c'
    using d
    by (intro control_ok_add [OF control_ok_remove [OF assms(1)]])
      (auto simp: record_ok_def rec_def)
qed

lemma control_ok_send:
  assumes "control_ok (c, hs)" and "send_message c m = Inr c'"
  shows "control_ok (c', hs)"
proof -
  define box where "box =
    (case om_get (mailboxes c) (msg_target m) of None \<Rightarrow> [] | Some b \<Rightarrow> b)"
  have c': "c' = set_mailboxes c (om_insert (msg_target m) (box @ [m]) (mailboxes c))"
    and target: "msg_target m \<in> dom (om_get (agents c))" and body: "\<not> blank (msg_body m)"
    using assms(2) by (auto simp: send_message_def box_def Let_def split: if_splits option.splits)
  have "mailbox_ok (dom (om_get (agents c))) (msg_target m) (box @ [m])"
    using assms(1) target body
    by (auto simp: control_ok_def mailbox_ok_def box_def split: option.splits)
  with assms(1) show ?thesis unfolding c' by (auto simp: control_ok_def)
qed

lemma control_ok_drain:
  assumes "control_ok (c, hs)"
  shows "control_ok (fst (drain_mailbox c p), hs)"
  using assms by (auto simp: control_ok_def drain_mailbox_def map_of_om_remove)

lemma report_record_ok:
  "report_record rep rec = Inr (rec', fresh) \<Longrightarrow> record_ok p rec \<Longrightarrow> record_ok p rec'"
  by (auto simp: report_record_Inr record_ok_def split: if_splits)

lemma decide_record_ok:
  "decide_record d rec = Inr (rec', n) \<Longrightarrow> record_ok p rec \<Longrightarrow> record_ok p rec'"
  by (auto simp: decide_record_Inr record_ok_def split: report_decision.splits)

lemma control_ok_report:
  "control_ok (c, hs) \<Longrightarrow> control_report c p rep = Inr (c', fresh) \<Longrightarrow> control_ok (c', hs)"
  unfolding control_report_def
  by (erule control_ok_update_agent) (auto intro: report_record_ok)

lemma control_ok_decide:
  "control_ok (c, hs) \<Longrightarrow> control_decide c p d = Inr (c', n) \<Longrightarrow> control_ok (c', hs)"
  unfolding control_decide_def
  by (erule control_ok_update_agent) (auto intro: decide_record_ok)

lemma control_ok_status:
  "control_ok (c, hs) \<Longrightarrow> set_status c p s = Inr (c', u) \<Longrightarrow> control_ok (c', hs)"
  unfolding set_status_def
  by (erule control_ok_update_agent) (auto simp: record_ok_def split: option.splits)

lemma control_ok_fail:
  "control_ok (c, hs) \<Longrightarrow> control_fail c p e = Inr (c', u) \<Longrightarrow> control_ok (c', hs)"
  unfolding control_fail_def
  by (erule control_ok_update_agent) (auto simp: record_ok_def split: option.splits)

lemma control_ok_budget: "control_ok (c, hs) \<Longrightarrow> control_ok (c\<lparr>cp_budget := b\<rparr>, hs)"
  by (auto simp: control_ok_def)

lemma control_ok_drop:
  assumes "control_ok (c, xs @ r # ys)"
  shows "control_ok (drop_spawn c r, xs @ ys)"
proof -
  have "sp_active r" using assms by (simp add: control_ok_def)
  then show ?thesis by (simp add: drop_spawn_reserved control_ok_remove [OF assms])
qed

lemmas control_ok_ops = control_ok_reserve control_ok_commit control_ok_drop control_ok_status
  control_ok_fail control_ok_report control_ok_decide control_ok_send control_ok_drain
  control_ok_budget

lemma control_ok_step: "control_step s t \<Longrightarrow> control_ok s \<Longrightarrow> control_ok t"
  by (induction rule: control_step.induct) (blast intro: control_ok_ops)+

interpretation control: state_machine control_step control_ok
  by unfold_locales (rule control_ok_step)


lemma control_config_step:
  "control_step s t \<Longrightarrow> cp_max_agents (fst t) = cp_max_agents (fst s)
     \<and> cp_max_depth (fst t) = cp_max_depth (fst s)"
  by (induction rule: control_step.induct)
    (auto simp: reserve_spawn_Inr commit_def commit_spawn_def drop_spawn_def rollback_spawn_def
      set_status_def control_fail_def control_report_def control_decide_def update_agent_Inr
      send_message_def drain_mailbox_def Let_def split: option.splits sum.splits if_splits)

lemma control_config_reachable:
  "control_step\<^sup>*\<^sup>* s t \<Longrightarrow> cp_max_agents (fst t) = cp_max_agents (fst s)
     \<and> cp_max_depth (fst t) = cp_max_depth (fst s)"
  by (induction rule: rtranclp_induct) (auto dest: control_config_step)

section \<open>A concrete agent\<close>

definition example_task :: read_only_task where
  "example_task = \<lparr>rt_id = ''scan'', rt_role = Explorer, rt_objective = ''find callers'',
     rt_scopes = {''src''}, rt_acceptance = [''list them''], rt_harness = ''local''\<rparr>"

definition example_report :: structured_report where
  "example_report = \<lparr>sr_task_id = ''scan'', sr_attempt = 1, sr_status = RReported,
     sr_changed_paths = {}, sr_commands = [\<lparr>ce_command = ''rg foo'', ce_exit_code = Some 0\<rparr>],
     sr_tests = [], sr_claims = [], sr_unresolved = [], sr_summary = ''three callers''\<rparr>"

definition example_reserved :: "shared_budget \<Rightarrow> control_plane" where
  "example_reserved b = \<lparr>cp_max_agents = 1, cp_max_depth = 2, cp_budget = b,
     cp_state = \<lparr>cs_agents = [], cs_reserved_paths = {''/root/scan''}, cs_mailboxes = []\<rparr>\<rparr>"

definition example_reservation :: spawn_reservation where
  "example_reservation =
     \<lparr>sp_path = ''/root/scan'', sp_task = Some example_task, sp_active = True\<rparr>"

definition example_agent :: agent_record where
  "example_agent = \<lparr>ar_id = ''a1'', ar_path = ''/root/scan'', ar_task = example_task,
     ar_status = Completed, ar_report_status = RReported, ar_attempt = 1,
     ar_report = Some example_report, ar_error = None\<rparr>"

definition example_reported :: "shared_budget \<Rightarrow> control_plane" where
  "example_reported b = \<lparr>cp_max_agents = 1, cp_max_depth = 2, cp_budget = b,
     cp_state = \<lparr>cs_agents = [(''/root/scan'', example_agent)], cs_reserved_paths = {},
                 cs_mailboxes = []\<rparr>\<rparr>"

lemma example_path: "agent_path_child ''/root'' ''scan'' = Inr ''/root/scan''"
  "agent_path_depth ''/root/scan'' = 1"
  by code_simp+

lemma example_validates: "validate_read_only example_report example_task 1 = Inr ()"
  by code_simp

lemma example_spawn:
  "reserve_spawn \<lparr>cp_max_agents = 1, cp_max_depth = 2, cp_budget = b,
     cp_state = \<lparr>cs_agents = [], cs_reserved_paths = {}, cs_mailboxes = []\<rparr>\<rparr> ''/root'' example_task
     = Inr (example_reserved b, example_reservation)"
  by (simp add: reserve_spawn_Inr example_path example_task_def [of] example_reserved_def
      example_reservation_def set_reserved_def)

lemma example_commit_report:
  "\<exists>c rec. commit (example_reserved b) example_reservation ''a1'' = Some (c, Inr rec)
     \<and> control_report c ''/root/scan'' example_report = Inr (example_reported b, True)"
  using example_validates
  by (simp add: commit_live example_reservation_def example_reserved_def control_report_def
      update_agent_Inr report_record_Inr example_reported_def example_agent_def set_agents_def
      set_reserved_def)

section \<open>Properties\<close>

text \<open>
  C2. The control plane never exceeds its configuration: in every state reachable from a new
  control plane the agents and the reserved slots together are at most \<open>max_agents\<close>, no agent
  or reservation is deeper than \<open>max_depth\<close>, and the reserved paths are exactly the paths of
  the spawn reservations that are alive, so neither a slot nor a path is ever leaked.
\<close>

theorem spawn_slots_bounded:
  assumes "control_new max_agents max_depth budget = Inr c"
    and "control_step\<^sup>*\<^sup>* (c, []) (c', hs)"
  shows "length (agents c') + length hs \<le> max_agents
    \<and> (\<forall>p \<in> dom (om_get (agents c')) \<union> reserved_paths c'. agent_path_depth p \<le> max_depth)
    \<and> reserved_paths c' = sp_path ` set hs
    \<and> distinct (map sp_path hs)
    \<and> dom (om_get (agents c')) \<inter> sp_path ` set hs = {}"
proof -
  have ok: "control_ok (c', hs)"
    by (rule control.inv_reachable [OF assms(2) control_ok_new [OF assms(1)]])
  have conf: "cp_max_agents c' = max_agents \<and> cp_max_depth c' = max_depth"
    using control_config_reachable [OF assms(2)] assms(1)
    by (auto simp: control_new_def split: if_splits)
  have hs: "reserved_paths c' = set (map sp_path hs)" "distinct (map sp_path hs)"
    using ok by (auto simp: control_ok_def)
  have "card (reserved_paths c') = length hs"
    unfolding hs(1) using distinct_card [OF hs(2)] by simp
  moreover have "length (agents c') + card (reserved_paths c') \<le> cp_max_agents c'"
    using ok unfolding control_ok_def by blast
  ultimately show ?thesis using ok conf by (auto simp: control_ok_def)
qed


theorem spawn_slots_bounded_witness:
  "\<forall>b. length (agents (example_reserved b)) + length [example_reservation] \<le> 1"
proof
  fix b
  let ?c = "\<lparr>cp_max_agents = 1, cp_max_depth = 2, cp_budget = b,
     cp_state = \<lparr>cs_agents = [], cs_reserved_paths = {}, cs_mailboxes = []\<rparr>\<rparr>"
  have "control_new 1 2 b = Inr ?c" by (simp add: control_new_def)
  moreover have "control_step\<^sup>*\<^sup>* (?c, []) (example_reserved b, [example_reservation])"
    by (rule r_into_rtranclp) (rule ct_reserve [OF example_spawn])
  ultimately show "length (agents (example_reserved b)) + length [example_reservation] \<le> 1"
    using spawn_slots_bounded by blast
qed

lemma example_reachable:
  "control_step\<^sup>*\<^sup>* (\<lparr>cp_max_agents = 1, cp_max_depth = 2, cp_budget = b,
     cp_state = \<lparr>cs_agents = [], cs_reserved_paths = {}, cs_mailboxes = []\<rparr>\<rparr>, [])
     (example_reported b, [])"
proof -
  obtain c rec where c: "commit (example_reserved b) example_reservation ''a1'' = Some (c, Inr rec)"
    "control_report c ''/root/scan'' example_report = Inr (example_reported b, True)"
    using example_commit_report by blast
  note ct_commit [OF c(1), of "[]" "[]", simplified]
  with ct_reserve [OF example_spawn [of b], of "[]"] ct_report [OF c(2), of "[]"]
  show ?thesis
    by (meson converse_rtranclp_into_rtranclp rtranclp.rtrancl_refl)
qed

text \<open>
  C3. A result is only presented for review, and only ever accepted, when it was validated
  against the agent's own task and current attempt: in every reachable state an agent whose
  report status is \<open>Reported\<close> or \<open>Accepted\<close> holds a report that passes the read-only
  validation, so it changes no path, has a non-blank summary and carries evidence.
\<close>

theorem reviewed_reports_validated:
  assumes "control_new max_agents max_depth budget = Inr c"
    and "control_step\<^sup>*\<^sup>* (c, []) (c', hs)"
    and "control_agent c' p = Some rec"
    and "ar_report_status rec = RReported \<or> ar_report_status rec = RAccepted"
  shows "\<exists>r. ar_report rec = Some r
    \<and> validate_read_only r (ar_task rec) (ar_attempt rec) = Inr ()
    \<and> sr_task_id r = rt_id (ar_task rec) \<and> sr_attempt r = ar_attempt rec
    \<and> sr_changed_paths r = {} \<and> \<not> blank (sr_summary r) \<and> 0 < evidence_count r"
proof -
  have "control_ok (c', hs)"
    by (rule control.inv_reachable [OF assms(2) control_ok_new [OF assms(1)]])
  then have "record_ok p rec" using assms(3) by (simp add: control_ok_def control_agent_def)
  with assms(4) obtain r where r: "ar_report rec = Some r"
    "validate_read_only r (ar_task rec) (ar_attempt rec) = Inr ()"
    by (auto simp: record_ok_def)
  then show ?thesis by (auto simp: validate_read_only_Inr)
qed

theorem reviewed_reports_validated_witness:
  "0 < evidence_count example_report \<and> ar_report example_agent = Some example_report"
proof -
  fix b
  have "control_agent (example_reported b) ''/root/scan'' = Some example_agent"
    by (simp add: control_agent_def example_reported_def)
  moreover have "control_new 1 2 b = Inr \<lparr>cp_max_agents = 1, cp_max_depth = 2, cp_budget = b,
     cp_state = \<lparr>cs_agents = [], cs_reserved_paths = {}, cs_mailboxes = []\<rparr>\<rparr>"
    by (simp add: control_new_def)
  ultimately show ?thesis
    using reviewed_reports_validated [OF _ example_reachable]
    by (fastforce simp: example_agent_def)
qed

text \<open>
  A spawn reservation either becomes an agent or leaves no trace: dropping a fresh
  reservation restores the control plane exactly, and committing it always succeeds, releases
  the reserved slot and registers the agent at the reserved path in its initial state.
\<close>

lemma spawn_reservation_resolves:
  assumes "reserve_spawn c parent task = Inr (c', r)"
  shows "drop_spawn c' r = c
    \<and> (\<exists>c'' rec. commit c' r agent_id = Some (c'', Inr rec)
        \<and> reserved_paths c'' = reserved_paths c
        \<and> agents c'' = om_insert (sp_path r) rec (agents c)
        \<and> ar_task rec = task \<and> ar_attempt rec = 1 \<and> ar_status rec = PendingInit
        \<and> ar_report_status rec = RRunning \<and> ar_report rec = None)"
proof
  show "drop_spawn c' r = c"
    by (rule spawns.give_back_acquired [of c "(parent, task)"]) (simp add: assms)
  have live: "sp_path r \<in> reserved_paths c'" "sp_task r = Some task"
    using assms by (auto simp: reserve_spawn_Inr)
  show "\<exists>c'' rec. commit c' r agent_id = Some (c'', Inr rec)
        \<and> reserved_paths c'' = reserved_paths c
        \<and> agents c'' = om_insert (sp_path r) rec (agents c)
        \<and> ar_task rec = task \<and> ar_attempt rec = 1 \<and> ar_status rec = PendingInit
        \<and> ar_report_status rec = RRunning \<and> ar_report rec = None"
    unfolding commit_live [OF live] using assms by (auto simp: reserve_spawn_Inr)
qed

lemma spawn_reservation_resolves_witness:
  "\<forall>b. reserved_paths (drop_spawn (example_reserved b) example_reservation) = {}"
  using spawn_reservation_resolves [OF example_spawn] by simp

lemma send_message_known:
  assumes "om_get (agents c) (msg_target m) = Some rec" and "\<not> blank (msg_body m)"
  shows "send_message c m = Inl TriggerWithoutRework \<longleftrightarrow>
      msg_mode m = TriggerTurn \<and> ar_report_status rec \<noteq> RRework"
    and "(\<exists>c4. send_message c m = Inr c4 \<and> last (the (om_get (mailboxes c4) (msg_target m))) = m)
      \<longleftrightarrow> \<not> (msg_mode m = TriggerTurn \<and> ar_report_status rec \<noteq> RRework)"
  using assms by (auto simp: send_message_def set_mailboxes_def Let_def)

text \<open>
  C4. The review protocol: submitting the reported result again is accepted without any
  effect and a different one is refused; an accepted result cannot be decided again; asking
  for rework starts the next attempt, from then on the old report no longer validates and there
  is nothing to decide. A message that would trigger a new turn of the agent is refused while the
  result is reported and after it was accepted, and delivered after the rework decision; messages
  that trigger nothing are delivered in each of these states.
\<close>

theorem review_protocol:
  assumes "control_ok (c, hs)" and "control_report c p rep = Inr (c1, True)"
  shows "control_report c1 p rep = Inr (c1, False)
    \<and> (rep' \<noteq> rep \<longrightarrow> (\<exists>e. control_report c1 p rep' = Inl e))
    \<and> (msg_target m = p \<and> \<not> blank (msg_body m) \<longrightarrow>
         (if msg_mode m = TriggerTurn then send_message c1 m = Inl TriggerWithoutRework
          else \<exists>c4. send_message c1 m = Inr c4 \<and> last (the (om_get (mailboxes c4) p)) = m))
    \<and> (\<exists>c2. control_decide c1 p Accept = Inr (c2, sr_attempt rep)
          \<and> control_decide c2 p d = Inl NotReported
          \<and> (msg_target m = p \<and> \<not> blank (msg_body m) \<longrightarrow>
               (if msg_mode m = TriggerTurn then send_message c2 m = Inl TriggerWithoutRework
                else \<exists>c4. send_message c2 m = Inr c4 \<and> last (the (om_get (mailboxes c4) p)) = m)))
    \<and> (\<exists>c3. control_decide c1 p Rework = Inr (c3, sr_attempt rep + 1)
          \<and> control_report c3 p rep = Inl (BadContract ReportAttemptMismatch)
          \<and> control_decide c3 p d = Inl NotReported
          \<and> (msg_target m = p \<and> \<not> blank (msg_body m) \<longrightarrow>
               (\<exists>c4. send_message c3 m = Inr c4 \<and> last (the (om_get (mailboxes c4) p)) = m)))"
proof -
  obtain rec where rec: "om_get (agents c) p = Some rec"
    and valid: "validate_read_only rep (ar_task rec) (ar_attempt rec) = Inr ()"
    and c1: "c1 = set_agents c (om_insert p (rec\<lparr>ar_status := Completed,
        ar_report_status := RReported, ar_report := Some rep\<rparr>) (agents c))"
    using assms(2) by (auto simp: control_report_def update_agent_Inr report_record_Inr)
  define rec1 where "rec1 = rec\<lparr>ar_status := Completed,
        ar_report_status := RReported, ar_report := Some rep\<rparr>"
  have rec1: "om_get (agents c1) p = Some rec1" "ar_report rec1 = Some rep"
    "ar_report_status rec1 = RReported" "ar_task rec1 = ar_task rec"
    "ar_attempt rec1 = ar_attempt rec"
    by (simp_all add: c1 rec1_def)
  have wf: "om_wf (agents c1)" using assms(1) by (simp add: c1 control_ok_def)
  have attempt: "sr_attempt rep = ar_attempt rec" "sr_task_id rep = rt_id (ar_task rec)"
    using valid by (auto simp: validate_read_only_Inr)
  have "control_report c1 p rep = Inr (c1, False)"
    using rec1 valid wf
    by (simp add: control_report_def update_agent_Inr report_record_Inr om_insert_same set_agents_def)
  moreover have "\<exists>e. control_report c1 p rep' = Inl e" if "rep' \<noteq> rep"
  proof (cases "control_report c1 p rep'")
    case (Inr b)
    then show ?thesis
      using that rec1
      by (cases b) (auto simp: control_report_def update_agent_Inr report_record_Inr split: if_splits)
  qed simp
  moreover have "msg_target m = p \<and> \<not> blank (msg_body m) \<longrightarrow>
         (if msg_mode m = TriggerTurn then send_message c1 m = Inl TriggerWithoutRework
          else \<exists>c4. send_message c1 m = Inr c4 \<and> last (the (om_get (mailboxes c4) p)) = m)"
    using rec1 send_message_known [of c1 m rec1] by auto
  moreover have "\<exists>c2. control_decide c1 p Accept = Inr (c2, sr_attempt rep)
          \<and> control_decide c2 p d = Inl NotReported
          \<and> (msg_target m = p \<and> \<not> blank (msg_body m) \<longrightarrow>
               (if msg_mode m = TriggerTurn then send_message c2 m = Inl TriggerWithoutRework
                else \<exists>c4. send_message c2 m = Inr c4 \<and> last (the (om_get (mailboxes c4) p)) = m))"
    using rec1 attempt
      send_message_known [of "set_agents c1 (om_insert p (rec1\<lparr>ar_report_status := RAccepted\<rparr>) (agents c1))" m]
    by (auto simp: control_decide_def update_agent_def decide_record_def ok_or_def)
  moreover have "\<exists>c3. control_decide c1 p Rework = Inr (c3, sr_attempt rep + 1)
          \<and> control_report c3 p rep = Inl (BadContract ReportAttemptMismatch)
          \<and> control_decide c3 p d = Inl NotReported
          \<and> (msg_target m = p \<and> \<not> blank (msg_body m) \<longrightarrow>
               (\<exists>c4. send_message c3 m = Inr c4 \<and> last (the (om_get (mailboxes c4) p)) = m))"
    using rec1 attempt
    by (simp add: control_decide_def update_agent_def decide_record_def ok_or_def
        control_report_def report_record_def validate_read_only_def send_message_def
        set_mailboxes_def Let_def)
  ultimately show ?thesis by blast
qed

lemma control_ok_example: "control_ok (example_reserved b, [example_reservation])"
  by (rule control_ok_reserve [OF _ example_spawn]) (simp add: control_ok_def)

theorem review_protocol_witness:
  "\<forall>b. control_report (example_reported b) ''/root/scan'' example_report
      = Inr (example_reported b, False)
    \<and> send_message (example_reported b) \<lparr>msg_sender = ''/root'', msg_target = ''/root/scan'',
        msg_body = ''again'', msg_mode = TriggerTurn\<rparr> = Inl TriggerWithoutRework"
proof
  fix b
  obtain c rec where c: "commit (example_reserved b) example_reservation ''a1'' = Some (c, Inr rec)"
    "control_report c ''/root/scan'' example_report = Inr (example_reported b, True)"
    using example_commit_report by blast
  have "control_ok (c, [])"
    using control_ok_commit [of "example_reserved b" "[]" example_reservation "[]"]
      control_ok_example c(1) by simp
  note protocol = review_protocol [OF this c(2), of undefined "\<lparr>msg_sender = ''/root'',
      msg_target = ''/root/scan'', msg_body = ''again'', msg_mode = TriggerTurn\<rparr>"]
  have "\<not> blank ''again''" by code_simp
  with protocol show "control_report (example_reported b) ''/root/scan'' example_report
      = Inr (example_reported b, False)
    \<and> send_message (example_reported b) \<lparr>msg_sender = ''/root'', msg_target = ''/root/scan'',
        msg_body = ''again'', msg_mode = TriggerTurn\<rparr> = Inl TriggerWithoutRework"
    by simp
qed

end
