(* ===== verification/Ledger.thy ===== *)
theory Ledger
  imports Budget Contract OrdMap
begin

text \<open>
  The execution ledger of \<open>agent-orchestration/src/execution.rs\<close> and its reducer
  (\<open>execution/reducer.rs\<close>): a snapshot of one execution beside the journal of the events
  that led to it. \<open>apply_event\<close> is the reducer; it works on the snapshot in place, so a
  refused event returns the snapshot as it was left at the early return. Every API method
  records one event kind (\<open>ledger_record\<close> holds the lock for its whole body); the methods that
  first read the snapshot and then record may interleave with others, so the lemmas quantify
  over arbitrary event kinds.
\<close>

section \<open>Data\<close>

type_synonym execution_id = rstr

datatype ledger_error =
    ExecutionIdLength
  | ExecutionIdChars
  | PolicyInvalid rstr
  | CreatedTwice
  | AttemptNotStartable
  | AttemptIdentity
  | BadTransition
  | TerminalWithoutAttempt
  | CheckpointEmpty
  | SteerFinished
  | ToolNotRunning
  | ToolUnnamed
  | ToolDuplicate rstr
  | ToolNotStarted rstr
  | UsageWithoutAttempt
  | RecoveryUnsafe
  | RecoveryWithoutAttempt
  | ChildPath
  | ChildAttachedTwice agent_path
  | ChildUnknown agent_path
  | EvidenceNotVerifying
  | ReplayEmpty
  | ReplayNotCreated
  | ReplayBadCreated
  | ReplayMismatch
  | RecoveryDenied "rstr list"

definition execution_id_char :: "char \<Rightarrow> bool" where
  "execution_id_char c \<longleftrightarrow> is_ascii_alphanumeric c
     \<or> c = CHR ''-'' \<or> c = CHR ''_'' \<or> c = CHR ''.'' \<or> c = CHR '':''"

definition execution_id_new :: "rstr \<Rightarrow> ledger_error + execution_id" where
  "execution_id_new value =
     (let trimmed = trim value
      in if trimmed = [] \<or> 128 < length trimmed then Inl ExecutionIdLength
         else if \<not> list_all execution_id_char trimmed then Inl ExecutionIdChars
         else Inr trimmed)"

record attempt_id =
  at_execution :: execution_id
  at_path :: agent_path
  at_sequence :: u32

datatype execution_state =
    Queued | XRunning | AwaitingInput | Recovering | Verifying | XCompleted | XFailed
  | XCancelled | XBlocked

definition execution_final :: "execution_state \<Rightarrow> bool" where
  "execution_final s \<longleftrightarrow> s = XCompleted \<or> s = XFailed \<or> s = XCancelled \<or> s = XBlocked"

datatype attempt_outcome = ORunning | OCompleted | OFailed | OCancelled | OBlocked

datatype failure_class =
    TransientTransport | RateLimited | FProvider | ContextOverflow | EmptyResponse | FTool
  | LocalState | FCancelled

definition recoverable :: "failure_class \<Rightarrow> bool" where
  "recoverable c \<longleftrightarrow> c = TransientTransport \<or> c = RateLimited"

datatype tool_execution_status = TCompleted | TFailed | TCancelled

record execution_policy =
  xp_non_cached_input_weight :: f64
  xp_cached_input_weight :: f64
  xp_output_weight :: f64

definition default_execution_policy :: execution_policy where
  "default_execution_policy =
     \<lparr>xp_non_cached_input_weight = Fin 1,
      xp_cached_input_weight = Fin (3602879701896397 / 36028797018963968),
      xp_output_weight = Fin 4\<rparr>"

definition policy_validate :: "execution_policy \<Rightarrow> ledger_error + unit" where
  "policy_validate p =
     check_all (\<lambda>(name, value). ensure (f_finite value \<and> \<not> f_lt value (Fin 0)) (PolicyInvalid name))
       [(''non_cached_input_weight'', xp_non_cached_input_weight p),
        (''cached_input_weight'', xp_cached_input_weight p),
        (''output_weight'', xp_output_weight p)]"

record execution_usage =
  xu_input_tokens :: u64
  xu_cached_input_tokens :: u64
  xu_output_tokens :: u64
  xu_weighted_tokens :: f64
  xu_cost_usd :: f64

definition default_execution_usage :: execution_usage where
  "default_execution_usage =
     \<lparr>xu_input_tokens = 0, xu_cached_input_tokens = 0, xu_output_tokens = 0,
      xu_weighted_tokens = Fin 0, xu_cost_usd = Fin 0\<rparr>"

definition usage_add :: "usage_charge \<Rightarrow> execution_policy \<Rightarrow> execution_usage \<Rightarrow> execution_usage" where
  "usage_add usage policy u =
     (let cached = min (cached_input_tokens usage) (input_tokens usage);
          non_cached = sat_sub (input_tokens usage) cached
      in u\<lparr>xu_input_tokens := sat_add (xu_input_tokens u) (input_tokens usage),
           xu_cached_input_tokens := sat_add (xu_cached_input_tokens u) cached,
           xu_output_tokens := sat_add (xu_output_tokens u) (output_tokens usage),
           xu_weighted_tokens := f_add (xu_weighted_tokens u)
             (f_add
                (f_add (f_mul (f_of_u64 non_cached) (xp_non_cached_input_weight policy))
                       (f_mul (f_of_u64 cached) (xp_cached_input_weight policy)))
                (f_mul (f_of_u64 (output_tokens usage)) (xp_output_weight policy))),
           xu_cost_usd := f_add (xu_cost_usd u) (f_max (uc_cost_usd usage) (Fin 0))\<rparr>)"

record tool_evidence =
  tv_id :: rstr
  tv_name :: rstr
  tv_mutating :: bool
  tv_status :: tool_execution_status
  tv_locations :: "rstr set"

record evidence_receipt =
  er_baseline_checkpoint :: "rstr option"
  er_changed_paths :: "rstr set"
  er_tools :: "(rstr, tool_evidence) omap"
  er_verification_tools :: "rstr set"

definition default_evidence_receipt :: evidence_receipt where
  "default_evidence_receipt =
     \<lparr>er_baseline_checkpoint = None, er_changed_paths = {}, er_tools = [],
      er_verification_tools = {}\<rparr>"

record execution_attempt =
  ea_id :: attempt_id
  ea_outcome :: attempt_outcome
  ea_usage :: execution_usage
  ea_failure_class :: "failure_class option"
  ea_failure :: "rstr option"

record child_execution =
  ch_path :: agent_path
  ch_role :: agent_role
  ch_status :: agent_status

record execution_snapshot =
  xs_id :: execution_id
  xs_root :: agent_path
  xs_writer :: agent_path
  xs_state :: execution_state
  xs_policy :: execution_policy
  xs_active_attempt :: "attempt_id option"
  xs_attempts :: "execution_attempt list"
  xs_usage :: execution_usage
  xs_recoveries :: u32
  xs_steering_messages :: u32
  xs_active_tools :: "(rstr, tool_evidence) omap"
  xs_children :: "(agent_path, child_execution) omap"
  xs_evidence :: evidence_receipt

datatype execution_event_kind =
    Created execution_policy
  | AttemptStarted attempt_id
  | StateChanged execution_state execution_state "rstr option"
  | Checkpointed rstr
  | SteeringRecorded
  | ToolStarted rstr rstr bool
  | ToolFinished rstr tool_execution_status "rstr set"
  | UsageRecorded usage_charge
  | RecoveryScheduled failure_class rstr
  | ChildAttached agent_path agent_role
  | ChildUpdated agent_path agent_status
  | EvidenceFinalized evidence_receipt

record execution_event =
  ev_sequence :: u64
  ev_execution_id :: execution_id
  ev_path :: agent_path
  ev_attempt :: "attempt_id option"
  ev_kind :: execution_event_kind

record execution_ledger =
  lg_snapshot :: execution_snapshot
  lg_events :: "execution_event list"

record recovery_decision =
  rd_allowed :: bool
  rd_reasons :: "rstr list"

section \<open>The reducer\<close>

fun valid_transition :: "execution_state \<Rightarrow> execution_state \<Rightarrow> bool" where
  "valid_transition XRunning AwaitingInput = True"
| "valid_transition AwaitingInput XRunning = True"
| "valid_transition XRunning Verifying = True"
| "valid_transition Verifying XCompleted = True"
| "valid_transition Verifying XFailed = True"
| "valid_transition Verifying XCancelled = True"
| "valid_transition XRunning XFailed = True"
| "valid_transition XRunning XCancelled = True"
| "valid_transition XRunning XBlocked = True"
| "valid_transition AwaitingInput XFailed = True"
| "valid_transition AwaitingInput XCancelled = True"
| "valid_transition _ _ = False"

text \<open>The outcome of a final state (the other states are the code's \<open>unreachable!\<close>).\<close>

fun final_outcome :: "execution_state \<Rightarrow> attempt_outcome" where
  "final_outcome XCompleted = OCompleted"
| "final_outcome XCancelled = OCancelled"
| "final_outcome XBlocked = OBlocked"
| "final_outcome XFailed = OFailed"
| "final_outcome _ = ORunning"

text \<open>\<open>if let Some(x) = xs.last_mut() { f(x) }\<close>, \<open>None\<close> when there is no last element.\<close>

definition update_last :: "('a \<Rightarrow> 'a) \<Rightarrow> 'a list \<Rightarrow> 'a list option" where
  "update_last f xs = (if xs = [] then None else Some (butlast xs @ [f (last xs)]))"

definition next_sequence :: "execution_snapshot \<Rightarrow> u32" where
  "next_sequence s = word_of_nat (length (xs_attempts s)) + 1"

definition apply_attempt_started ::
    "attempt_id \<Rightarrow> execution_snapshot \<Rightarrow> execution_snapshot \<times> (ledger_error + unit)" where
  "apply_attempt_started attempt s =
     (if xs_state s \<noteq> Queued \<and> xs_state s \<noteq> Recovering then (s, Inl AttemptNotStartable)
      else if at_execution attempt \<noteq> xs_id s \<or> at_path attempt \<noteq> xs_root s
          \<or> at_sequence attempt \<noteq> next_sequence s
        then (s, Inl AttemptIdentity)
      else (s\<lparr>xs_state := XRunning, xs_active_attempt := Some attempt,
              xs_attempts := xs_attempts s @
                [\<lparr>ea_id = attempt, ea_outcome = ORunning, ea_usage = default_execution_usage,
                  ea_failure_class = None, ea_failure = None\<rparr>]\<rparr>, Inr ()))"

definition apply_state_changed ::
    "execution_state \<Rightarrow> execution_state \<Rightarrow> execution_snapshot \<Rightarrow>
     execution_snapshot \<times> (ledger_error + unit)" where
  "apply_state_changed from_st to_st s =
     (if xs_state s \<noteq> from_st \<or> \<not> valid_transition from_st to_st then (s, Inl BadTransition)
      else let s' = s\<lparr>xs_state := to_st\<rparr>
        in if \<not> execution_final to_st then (s', Inr ())
           else case update_last (\<lambda>a. a\<lparr>ea_outcome := final_outcome to_st\<rparr>) (xs_attempts s') of
               None \<Rightarrow> (s', Inl TerminalWithoutAttempt)
             | Some attempts \<Rightarrow>
                 (s'\<lparr>xs_attempts := attempts, xs_active_attempt := None\<rparr>, Inr ()))"

definition apply_tool_started ::
    "rstr \<Rightarrow> rstr \<Rightarrow> bool \<Rightarrow> execution_snapshot \<Rightarrow> execution_snapshot \<times> (ledger_error + unit)"
where
  "apply_tool_started tid name mutating s =
     (if xs_state s \<noteq> XRunning then (s, Inl ToolNotRunning)
      else if blank tid \<or> blank name then (s, Inl ToolUnnamed)
      else if om_contains (xs_active_tools s) tid \<or> om_contains (er_tools (xs_evidence s)) tid
        then (s, Inl (ToolDuplicate tid))
      else (s\<lparr>xs_active_tools := om_insert tid
               \<lparr>tv_id = tid, tv_name = name, tv_mutating = mutating, tv_status = TCancelled,
                tv_locations = {}\<rparr> (xs_active_tools s)\<rparr>, Inr ()))"

definition apply_tool_finished ::
    "rstr \<Rightarrow> tool_execution_status \<Rightarrow> rstr set \<Rightarrow> execution_snapshot \<Rightarrow>
     execution_snapshot \<times> (ledger_error + unit)" where
  "apply_tool_finished tid status locations s =
     (case om_get (xs_active_tools s) tid of
        None \<Rightarrow> (s, Inl (ToolNotStarted tid))
      | Some started \<Rightarrow>
          let tool = started\<lparr>tv_status := status, tv_locations := locations\<rparr>;
              ev = xs_evidence s;
              verification =
                (if tv_name tool = ''check_diagnostics'' \<and> status = TCompleted
                 then insert (tv_name tool) (er_verification_tools ev)
                 else er_verification_tools ev)
          in (s\<lparr>xs_active_tools := om_remove tid (xs_active_tools s),
                xs_evidence := ev\<lparr>er_verification_tools := verification,
                                  er_tools := om_insert tid tool (er_tools ev)\<rparr>\<rparr>, Inr ()))"

definition apply_usage_recorded ::
    "usage_charge \<Rightarrow> execution_snapshot \<Rightarrow> execution_snapshot \<times> (ledger_error + unit)" where
  "apply_usage_recorded usage s =
     (let s' = s\<lparr>xs_usage := usage_add usage (xs_policy s) (xs_usage s)\<rparr>
      in case update_last (\<lambda>a. a\<lparr>ea_usage := usage_add usage (xs_policy s') (ea_usage a)\<rparr>)
                (xs_attempts s') of
          None \<Rightarrow> (s', Inl UsageWithoutAttempt)
        | Some attempts \<Rightarrow> (s'\<lparr>xs_attempts := attempts\<rparr>, Inr ()))"

definition apply_recovery_scheduled ::
    "failure_class \<Rightarrow> rstr \<Rightarrow> execution_snapshot \<Rightarrow> execution_snapshot \<times> (ledger_error + unit)"
where
  "apply_recovery_scheduled cls msg s =
     (if xs_state s \<noteq> XRunning \<or> \<not> recoverable cls \<or> xs_active_tools s \<noteq> []
      then (s, Inl RecoveryUnsafe)
      else case update_last (\<lambda>a. a\<lparr>ea_outcome := OFailed, ea_failure_class := Some cls,
                                    ea_failure := Some msg\<rparr>) (xs_attempts s) of
          None \<Rightarrow> (s, Inl RecoveryWithoutAttempt)
        | Some attempts \<Rightarrow>
            (s\<lparr>xs_attempts := attempts, xs_recoveries := sat_add (xs_recoveries s) 1,
               xs_state := Recovering, xs_active_attempt := None\<rparr>, Inr ()))"

definition apply_child_attached ::
    "agent_path \<Rightarrow> agent_role \<Rightarrow> execution_snapshot \<Rightarrow> execution_snapshot \<times> (ledger_error + unit)"
where
  "apply_child_attached path role s =
     (if agent_path_depth path = 0 \<or> \<not> starts_with path ''/root/'' then (s, Inl ChildPath)
      else if om_contains (xs_children s) path then (s, Inl (ChildAttachedTwice path))
      else (s\<lparr>xs_children := om_insert path
               \<lparr>ch_path = path, ch_role = role, ch_status = PendingInit\<rparr> (xs_children s)\<rparr>, Inr ()))"

definition apply_child_updated ::
    "agent_path \<Rightarrow> agent_status \<Rightarrow> execution_snapshot \<Rightarrow> execution_snapshot \<times> (ledger_error + unit)"
where
  "apply_child_updated path status s =
     (case om_get (xs_children s) path of
        None \<Rightarrow> (s, Inl (ChildUnknown path))
      | Some child \<Rightarrow>
          (s\<lparr>xs_children := om_insert path (child\<lparr>ch_status := status\<rparr>) (xs_children s)\<rparr>, Inr ()))"

text \<open>\<open>receipt.tools.entry(id).or_insert_with(..)\<close> for every tool of the ledger.\<close>

definition keep_tools ::
    "(rstr, tool_evidence) omap \<Rightarrow> (rstr, tool_evidence) omap \<Rightarrow> (rstr, tool_evidence) omap" where
  "keep_tools own receipt =
     foldl (\<lambda>m (i, tool). if om_contains m i then m else om_insert i tool m) receipt own"

definition apply_evidence_finalized ::
    "evidence_receipt \<Rightarrow> execution_snapshot \<Rightarrow> execution_snapshot \<times> (ledger_error + unit)" where
  "apply_evidence_finalized receipt s =
     (if xs_state s \<noteq> Verifying then (s, Inl EvidenceNotVerifying)
      else let ev = xs_evidence s;
               baseline = (case er_baseline_checkpoint receipt of
                   None \<Rightarrow> er_baseline_checkpoint ev | Some b \<Rightarrow> Some b)
        in (s\<lparr>xs_evidence := receipt\<lparr>er_baseline_checkpoint := baseline,
                er_tools := keep_tools (er_tools ev) (er_tools receipt),
                er_verification_tools :=
                  er_verification_tools receipt \<union> er_verification_tools ev\<rparr>\<rparr>, Inr ()))"

definition apply_event ::
    "execution_snapshot \<Rightarrow> execution_event \<Rightarrow> execution_snapshot \<times> (ledger_error + unit)" where
  "apply_event s event =
     (case ev_kind event of
        Created policy \<Rightarrow> (s, Inl CreatedTwice)
      | AttemptStarted attempt \<Rightarrow> apply_attempt_started attempt s
      | StateChanged from_st to_st reason \<Rightarrow> apply_state_changed from_st to_st s
      | Checkpointed i \<Rightarrow>
          if blank i then (s, Inl CheckpointEmpty)
          else (s\<lparr>xs_evidence := (xs_evidence s)\<lparr>er_baseline_checkpoint := Some i\<rparr>\<rparr>, Inr ())
      | SteeringRecorded \<Rightarrow>
          if execution_final (xs_state s) then (s, Inl SteerFinished)
          else (s\<lparr>xs_steering_messages := sat_add (xs_steering_messages s) 1\<rparr>, Inr ())
      | ToolStarted i name mutating \<Rightarrow> apply_tool_started i name mutating s
      | ToolFinished i status locations \<Rightarrow> apply_tool_finished i status locations s
      | UsageRecorded usage \<Rightarrow> apply_usage_recorded usage s
      | RecoveryScheduled cls msg \<Rightarrow> apply_recovery_scheduled cls msg s
      | ChildAttached path role \<Rightarrow> apply_child_attached path role s
      | ChildUpdated path status \<Rightarrow> apply_child_updated path status s
      | EvidenceFinalized receipt \<Rightarrow> apply_evidence_finalized receipt s)"

section \<open>The ledger\<close>

definition initial_snapshot :: "execution_id \<Rightarrow> execution_policy \<Rightarrow> execution_snapshot" where
  "initial_snapshot i policy =
     \<lparr>xs_id = i, xs_root = agent_path_root, xs_writer = agent_path_root, xs_state = Queued,
      xs_policy = policy, xs_active_attempt = None, xs_attempts = [],
      xs_usage = default_execution_usage, xs_recoveries = 0, xs_steering_messages = 0,
      xs_active_tools = [], xs_children = [], xs_evidence = default_evidence_receipt\<rparr>"

definition new_root ::
    "execution_id \<Rightarrow> execution_policy \<Rightarrow> ledger_error + execution_ledger" where
  "new_root i policy =
     bind_res (policy_validate policy) (\<lambda>_.
       Inr \<lparr>lg_snapshot = initial_snapshot i policy,
            lg_events = [\<lparr>ev_sequence = 1, ev_execution_id = i, ev_path = agent_path_root,
                          ev_attempt = None, ev_kind = Created policy\<rparr>]\<rparr>)"

definition ledger_event :: "execution_ledger \<Rightarrow> execution_event_kind \<Rightarrow> execution_event" where
  "ledger_event l kind =
     \<lparr>ev_sequence = word_of_nat (length (lg_events l)) + 1,
      ev_execution_id = xs_id (lg_snapshot l), ev_path = xs_root (lg_snapshot l),
      ev_attempt = xs_active_attempt (lg_snapshot l), ev_kind = kind\<rparr>"

definition ledger_record ::
    "execution_ledger \<Rightarrow> execution_event_kind \<Rightarrow> execution_ledger \<times> (ledger_error + execution_event)"
where
  "ledger_record l kind =
     (let event = ledger_event l kind
      in case apply_event (lg_snapshot l) event of
          (s, Inl e) \<Rightarrow> (l\<lparr>lg_snapshot := s\<rparr>, Inl e)
        | (s, Inr u) \<Rightarrow> (l\<lparr>lg_snapshot := s, lg_events := lg_events l @ [event]\<rparr>, Inr event))"

definition created_event :: "execution_ledger \<Rightarrow> execution_event option" where
  "created_event l = (case lg_events l of [] \<Rightarrow> None | e # es \<Rightarrow> Some e)"

definition start_attempt ::
    "execution_ledger \<Rightarrow> execution_ledger \<times> (ledger_error + execution_event)" where
  "start_attempt l =
     (let s = lg_snapshot l
      in ledger_record l (AttemptStarted
           \<lparr>at_execution = xs_id s, at_path = xs_root s, at_sequence = next_sequence s\<rparr>))"

definition transition ::
    "execution_ledger \<Rightarrow> execution_state \<Rightarrow> rstr option \<Rightarrow>
     execution_ledger \<times> (ledger_error + execution_event)" where
  "transition l to_st reason =
     ledger_record l (StateChanged (xs_state (lg_snapshot l)) to_st reason)"

definition state_debug :: "execution_state \<Rightarrow> rstr" where
  "state_debug s =
     (case s of Queued \<Rightarrow> ''Queued'' | XRunning \<Rightarrow> ''Running'' | AwaitingInput \<Rightarrow> ''AwaitingInput''
      | Recovering \<Rightarrow> ''Recovering'' | Verifying \<Rightarrow> ''Verifying'' | XCompleted \<Rightarrow> ''Completed''
      | XFailed \<Rightarrow> ''Failed'' | XCancelled \<Rightarrow> ''Cancelled'' | XBlocked \<Rightarrow> ''Blocked'')"

definition recovery_decision_of :: "execution_ledger \<Rightarrow> failure_class \<Rightarrow> recovery_decision" where
  "recovery_decision_of l cls =
     (let s = lg_snapshot l;
          reasons =
            (if \<not> recoverable cls then [''failure class is not recoverable''] else [])
            @ (if xs_state s \<noteq> XRunning
               then [''execution is not at a running boundary: '' @ state_debug (xs_state s)]
               else [])
            @ (if xs_active_tools s \<noteq> [] then [''a tool has no terminal receipt''] else [])
      in \<lparr>rd_allowed = (reasons = []), rd_reasons = reasons\<rparr>)"

definition schedule_recovery ::
    "execution_ledger \<Rightarrow> failure_class \<Rightarrow> rstr \<Rightarrow>
     execution_ledger \<times> (ledger_error + execution_event)" where
  "schedule_recovery l cls msg =
     (let decision = recovery_decision_of l cls
      in if \<not> rd_allowed decision then (l, Inl (RecoveryDenied (rd_reasons decision)))
         else ledger_record l (RecoveryScheduled cls msg))"

definition checkpoint where
  "checkpoint l i = ledger_record l (Checkpointed i)"

definition record_steering where
  "record_steering l = ledger_record l SteeringRecorded"

definition tool_started where
  "tool_started l i name mutating = ledger_record l (ToolStarted i name mutating)"

definition tool_finished where
  "tool_finished l i status locations = ledger_record l (ToolFinished i status locations)"

definition ledger_record_usage where
  "ledger_record_usage l usage = ledger_record l (UsageRecorded usage)"

definition attach_child where
  "attach_child l path role = ledger_record l (ChildAttached path role)"

definition update_child where
  "update_child l path status = ledger_record l (ChildUpdated path status)"

definition finalize_evidence where
  "finalize_evidence l receipt = ledger_record l (EvidenceFinalized receipt)"

text \<open>\<open>apply(&mut snapshot, event)?\<close> of the replay loop, whose snapshot is discarded on an error.\<close>

definition replay_event ::
    "execution_snapshot \<times> nat \<Rightarrow> execution_event \<Rightarrow> ledger_error + execution_snapshot \<times> nat" where
  "replay_event = (\<lambda>(s, index) event.
     if ev_sequence event \<noteq> word_of_nat index + 1 \<or> ev_execution_id event \<noteq> xs_id s
     then Inl ReplayMismatch
     else case apply_event s event of
         (s', Inl e) \<Rightarrow> Inl e
       | (s', Inr u) \<Rightarrow> Inr (s', Suc index))"

definition ledger_replay :: "execution_event list \<Rightarrow> ledger_error + execution_snapshot" where
  "ledger_replay events =
     (case events of
        [] \<Rightarrow> Inl ReplayEmpty
      | created # rest \<Rightarrow>
          (case ev_kind created of
             Created policy \<Rightarrow>
               if ev_sequence created \<noteq> 1 \<or> ev_path created \<noteq> agent_path_root
                  \<or> ev_attempt created \<noteq> None
               then Inl ReplayBadCreated
               else bind_res (policy_validate policy) (\<lambda>_.
                 bind_res
                   (fold_res replay_event (initial_snapshot (ev_execution_id created) policy, 1) rest)
                   (\<lambda>(s, index). Inr s))
           | _ \<Rightarrow> Inl ReplayNotCreated))"

section \<open>The reducer, case by case\<close>

lemmas apply_defs = apply_event_def apply_attempt_started_def apply_state_changed_def
  apply_tool_started_def apply_tool_finished_def apply_usage_recorded_def
  apply_recovery_scheduled_def apply_child_attached_def apply_child_updated_def
  apply_evidence_finalized_def

lemma update_last_Some:
  "update_last f xs = Some ys \<longleftrightarrow> xs \<noteq> [] \<and> ys = butlast xs @ [f (last xs)]"
  by (auto simp: update_last_def)

lemma update_last_None: "update_last f xs = None \<longleftrightarrow> xs = []"
  by (auto simp: update_last_def)

lemmas apply_splits = if_splits option.splits execution_event_kind.splits

lemma apply_event_identity:
  assumes "apply_event s event = (s', r)"
  shows "xs_id s' = xs_id s \<and> xs_root s' = xs_root s \<and> xs_policy s' = xs_policy s
    \<and> xs_writer s' = xs_writer s"
  using assms by (auto simp: apply_defs Let_def split: apply_splits)

text \<open>
  A refused event leaves the snapshot alone, unless it charges usage to, or ends, an execution
  that has no attempt.
\<close>

lemma apply_event_refused:
  assumes "apply_event s event = (s', Inl e)" and "xs_attempts s \<noteq> []"
  shows "s' = s"
  using assms by (auto simp: apply_defs Let_def update_last_def split: apply_splits)

lemma apply_event_refused_queued:
  assumes "apply_event s event = (s', Inl e)" and "xs_state s = Queued"
    and "\<And>u. ev_kind event \<noteq> UsageRecorded u"
  shows "s' = s"
  using assms by (auto simp: apply_defs Let_def update_last_def split: apply_splits)

section \<open>Invariant\<close>

definition attempt_open :: "execution_state \<Rightarrow> bool" where
  "attempt_open s \<longleftrightarrow> s = XRunning \<or> s = AwaitingInput \<or> s = Verifying"

definition recovered_attempt :: "execution_attempt \<Rightarrow> bool" where
  "recovered_attempt a \<longleftrightarrow>
     ea_outcome a = OFailed \<and> (case ea_failure_class a of None \<Rightarrow> False | Some c \<Rightarrow> recoverable c)"

definition last_attempt_ok :: "execution_snapshot \<Rightarrow> execution_attempt \<Rightarrow> bool" where
  "last_attempt_ok s a \<longleftrightarrow>
     (if attempt_open (xs_state s)
      then ea_outcome a = ORunning \<and> ea_failure_class a = None
        \<and> xs_active_attempt s = Some (ea_id a)
      else xs_active_attempt s = None
        \<and> (if xs_state s = Recovering then recovered_attempt a
           else execution_final (xs_state s) \<and> ea_outcome a = final_outcome (xs_state s)
             \<and> ea_failure_class a = None))"

definition attempt_identity :: "execution_snapshot \<Rightarrow> nat \<Rightarrow> attempt_id" where
  "attempt_identity s i =
     \<lparr>at_execution = xs_id s, at_path = xs_root s, at_sequence = word_of_nat i + 1\<rparr>"

definition snapshot_ok :: "execution_snapshot \<Rightarrow> bool" where
  "snapshot_ok s \<longleftrightarrow>
     map ea_id (xs_attempts s) = map (attempt_identity s) [0..<length (xs_attempts s)]
     \<and> (if xs_attempts s = [] then xs_state s = Queued \<and> xs_active_attempt s = None
        else (\<forall>a\<in>set (butlast (xs_attempts s)). recovered_attempt a)
          \<and> last_attempt_ok s (last (xs_attempts s)))
     \<and> om_wf (xs_active_tools s) \<and> om_wf (er_tools (xs_evidence s))
     \<and> (\<forall>i t. om_get (xs_active_tools s) i = Some t \<longrightarrow> tv_id t = i)"

lemma snapshot_ok_initial: "snapshot_ok (initial_snapshot i policy)"
  by (simp add: snapshot_ok_def initial_snapshot_def default_evidence_receipt_def)

lemma attempt_identity_cong:
  "xs_id s' = xs_id s \<Longrightarrow> xs_root s' = xs_root s \<Longrightarrow> attempt_identity s' = attempt_identity s"
  by (simp add: attempt_identity_def fun_eq_iff)

lemma last_attempt_ok_cong:
  "xs_state s' = xs_state s \<Longrightarrow> xs_active_attempt s' = xs_active_attempt s \<Longrightarrow>
     last_attempt_ok s' = last_attempt_ok s"
  by (simp add: last_attempt_ok_def fun_eq_iff)

text \<open>Events that touch neither the attempts nor the tools.\<close>

lemma snapshot_ok_cong:
  assumes "snapshot_ok s" and "xs_attempts s' = xs_attempts s" and "xs_state s' = xs_state s"
    and "xs_active_attempt s' = xs_active_attempt s" and "xs_id s' = xs_id s"
    and "xs_root s' = xs_root s" and "xs_active_tools s' = xs_active_tools s"
    and "er_tools (xs_evidence s') = er_tools (xs_evidence s)"
  shows "snapshot_ok s'"
  using assms attempt_identity_cong [of s' s] last_attempt_ok_cong [of s' s]
  by (simp add: snapshot_ok_def)

lemma snapshot_ok_last:
  assumes "snapshot_ok s" and "xs_attempts s \<noteq> []"
    and "xs_attempts s' = butlast (xs_attempts s) @ [a]" and "ea_id a = ea_id (last (xs_attempts s))"
    and "last_attempt_ok s' a" and "xs_id s' = xs_id s" and "xs_root s' = xs_root s"
    and "xs_active_tools s' = xs_active_tools s" and "xs_evidence s' = xs_evidence s"
  shows "snapshot_ok s'"
proof -
  have "map ea_id (xs_attempts s') = map ea_id (xs_attempts s)"
    using assms(2-4) by (metis (no_types, lifting) append_butlast_last_id list.simps(8,9) map_append)
  moreover have "length (xs_attempts s') = length (xs_attempts s)"
    using assms(2,3) by (metis append_butlast_last_id length_append_singleton)
  ultimately show ?thesis
    using assms attempt_identity_cong [of s' s] by (simp add: snapshot_ok_def)
qed

lemma snapshot_ok_attempt_started:
  assumes "snapshot_ok s" and "apply_attempt_started attempt s = (s', r)"
  shows "snapshot_ok s'"
proof (cases r)
  case (Inl e)
  then show ?thesis using assms by (auto simp: apply_attempt_started_def split: if_splits)
next
  case (Inr u)
  define a where "a = \<lparr>ea_id = attempt, ea_outcome = ORunning, ea_usage = default_execution_usage,
    ea_failure_class = None, ea_failure = None\<rparr>"
  have startable: "xs_state s = Queued \<or> xs_state s = Recovering"
    and identity: "attempt = attempt_identity s (length (xs_attempts s))"
    and s': "s' = s\<lparr>xs_state := XRunning, xs_active_attempt := Some attempt,
              xs_attempts := xs_attempts s @ [a]\<rparr>"
    using assms(2) Inr
    by (auto simp: apply_attempt_started_def a_def attempt_identity_def next_sequence_def
        split: if_splits)
  have last_recovered: "xs_attempts s \<noteq> [] \<Longrightarrow> recovered_attempt (last (xs_attempts s))"
    using assms(1) startable
    by (auto simp: snapshot_ok_def last_attempt_ok_def attempt_open_def execution_final_def)
  have "\<forall>b\<in>set (xs_attempts s). recovered_attempt b"
  proof (cases "xs_attempts s = []")
    case False
    then have "set (xs_attempts s) = insert (last (xs_attempts s)) (set (butlast (xs_attempts s)))"
      by (metis append_butlast_last_id list.simps(15) rotate1.simps(2) set_rotate1)
    then show ?thesis using False last_recovered assms(1) by (auto simp: snapshot_ok_def)
  qed simp
  then show ?thesis
    using assms(1) attempt_identity_cong [of s' s] identity
    by (simp add: snapshot_ok_def s' last_attempt_ok_def attempt_open_def a_def)
qed

lemma snapshot_ok_state_changed:
  assumes "snapshot_ok s" and "apply_state_changed f t s = (s', r)"
  shows "snapshot_ok s'"
proof (cases "xs_state s = f \<and> valid_transition f t")
  case False
  then show ?thesis using assms by (auto simp: apply_state_changed_def)
next
  case True
  then have "attempt_open f" by (cases f; cases t) (simp_all add: attempt_open_def)
  with True assms(1) have ne: "xs_attempts s \<noteq> []"
    and last_ok: "last_attempt_ok s (last (xs_attempts s))"
    by (auto simp: snapshot_ok_def attempt_open_def split: if_splits)
  show ?thesis
  proof (cases "execution_final t")
    case False
    then have "attempt_open t"
      using True by (cases f; cases t) (simp_all add: attempt_open_def execution_final_def)
    then have "last_attempt_ok s' (last (xs_attempts s))"
      using last_ok True \<open>attempt_open f\<close> False assms(2)
      by (auto simp: apply_state_changed_def last_attempt_ok_def)
    then show ?thesis
      using assms True False ne
      by (intro snapshot_ok_last [OF assms(1) ne, of s' "last (xs_attempts s)"])
        (auto simp: apply_state_changed_def)
  next
    case final: True
    then have "\<not> attempt_open t" and "t \<noteq> Recovering"
      by (auto simp: attempt_open_def execution_final_def)
    then show ?thesis
      using assms(2) True final ne last_ok \<open>attempt_open f\<close>
      by (intro snapshot_ok_last [OF assms(1) ne, of s'
            "(last (xs_attempts s))\<lparr>ea_outcome := final_outcome t\<rparr>"])
        (auto simp: apply_state_changed_def update_last_def last_attempt_ok_def)
  qed
qed

lemma snapshot_ok_usage_recorded:
  assumes "snapshot_ok s" and "apply_usage_recorded usage s = (s', r)"
  shows "snapshot_ok s'"
proof (cases "xs_attempts s = []")
  case True
  then show ?thesis using assms
    by (intro snapshot_ok_cong [OF assms(1)])
      (auto simp: apply_usage_recorded_def Let_def update_last_def)
next
  case False
  then have "last_attempt_ok s (last (xs_attempts s))"
    using assms(1) by (simp add: snapshot_ok_def)
  then show ?thesis
    using False assms(2)
    by (intro snapshot_ok_last [OF assms(1) False, of s' "(last (xs_attempts s))
          \<lparr>ea_usage := usage_add usage (xs_policy s) (ea_usage (last (xs_attempts s)))\<rparr>"])
      (auto simp: apply_usage_recorded_def Let_def update_last_def last_attempt_ok_def
        recovered_attempt_def)
qed

lemma snapshot_ok_recovery_scheduled:
  assumes "snapshot_ok s" and "apply_recovery_scheduled cls msg s = (s', r)"
  shows "snapshot_ok s'"
proof (cases "xs_state s \<noteq> XRunning \<or> \<not> recoverable cls \<or> xs_active_tools s \<noteq> []")
  case True
  then show ?thesis using assms by (simp add: apply_recovery_scheduled_def)
next
  case False
  then have "xs_attempts s \<noteq> []" using assms(1) by (auto simp: snapshot_ok_def)
  then show ?thesis
    using False assms(2)
    by (intro snapshot_ok_last [OF assms(1), of s' "(last (xs_attempts s))
          \<lparr>ea_outcome := OFailed, ea_failure_class := Some cls, ea_failure := Some msg\<rparr>"])
      (auto simp: apply_recovery_scheduled_def update_last_def last_attempt_ok_def
        recovered_attempt_def attempt_open_def)
qed

lemma om_wf_keep_tools:
  "om_wf receipt \<Longrightarrow> om_wf (keep_tools own receipt)"
  unfolding keep_tools_def by (induction own arbitrary: receipt) auto

lemma snapshot_ok_tools:
  assumes "snapshot_ok s" and "om_wf tools" and "om_wf (er_tools ev)"
    and "\<forall>i t. om_get tools i = Some t \<longrightarrow> tv_id t = i"
  shows "snapshot_ok (s\<lparr>xs_active_tools := tools, xs_evidence := ev\<rparr>)"
  using assms attempt_identity_cong [of "s\<lparr>xs_active_tools := tools, xs_evidence := ev\<rparr>" s]
    last_attempt_ok_cong [of "s\<lparr>xs_active_tools := tools, xs_evidence := ev\<rparr>" s]
  by (simp add: snapshot_ok_def)

lemma snapshot_ok_tool_started:
  assumes "snapshot_ok s" and "apply_tool_started i name mutating s = (s', r)"
  shows "snapshot_ok s'"
proof (cases r)
  case (Inl e)
  then show ?thesis using assms by (auto simp: apply_tool_started_def split: if_splits)
next
  case (Inr u)
  let ?tools = "om_insert i \<lparr>tv_id = i, tv_name = name, tv_mutating = mutating,
    tv_status = TCancelled, tv_locations = {}\<rparr> (xs_active_tools s)"
  have "s' = s\<lparr>xs_active_tools := ?tools, xs_evidence := xs_evidence s\<rparr>"
    using assms(2) Inr by (auto simp: apply_tool_started_def split: if_splits)
  moreover have "snapshot_ok (s\<lparr>xs_active_tools := ?tools, xs_evidence := xs_evidence s\<rparr>)"
    by (rule snapshot_ok_tools [OF assms(1)]) (use assms(1) in \<open>auto simp: snapshot_ok_def\<close>)
  ultimately show ?thesis by simp
qed

lemma snapshot_ok_tool_finished:
  assumes "snapshot_ok s" and "apply_tool_finished i status locations s = (s', r)"
  shows "snapshot_ok s'"
proof (cases "om_get (xs_active_tools s) i")
  case None
  then show ?thesis using assms by (simp add: apply_tool_finished_def)
next
  case (Some t)
  have wf: "om_wf (xs_active_tools s)" "om_wf (er_tools (xs_evidence s))"
    using assms(1) by (simp_all add: snapshot_ok_def)
  obtain ev where s': "s' = s\<lparr>xs_active_tools := om_remove i (xs_active_tools s),
      xs_evidence := ev\<rparr>"
    and ev: "er_tools ev = om_insert i (t\<lparr>tv_status := status, tv_locations := locations\<rparr>)
      (er_tools (xs_evidence s))"
    using assms(2) Some by (auto simp: apply_tool_finished_def Let_def)
  show ?thesis
    unfolding s'
    by (rule snapshot_ok_tools [OF assms(1)])
      (use assms(1) wf in \<open>auto simp: ev map_of_om_remove snapshot_ok_def\<close>)
qed

lemma snapshot_ok_evidence_finalized:
  assumes "snapshot_ok s" and "apply_evidence_finalized receipt s = (s', r)"
    and "om_wf (er_tools receipt)"
  shows "snapshot_ok s'"
proof (cases "xs_state s = Verifying")
  case False
  then show ?thesis using assms by (simp add: apply_evidence_finalized_def)
next
  case True
  then obtain ev where s': "s' = s\<lparr>xs_active_tools := xs_active_tools s, xs_evidence := ev\<rparr>"
    and ev: "er_tools ev = keep_tools (er_tools (xs_evidence s)) (er_tools receipt)"
    using assms(2) by (auto simp: apply_evidence_finalized_def Let_def)
  show ?thesis
    unfolding s' by (rule snapshot_ok_tools [OF assms(1)])
      (use assms in \<open>auto simp: ev snapshot_ok_def om_wf_keep_tools\<close>)
qed

text \<open>A receipt passed in by a caller is a \<open>BTreeMap\<close>, so its tools are in key order.\<close>

definition kind_wf :: "execution_event_kind \<Rightarrow> bool" where
  "kind_wf k = (case k of EvidenceFinalized receipt \<Rightarrow> om_wf (er_tools receipt) | _ \<Rightarrow> True)"

lemma snapshot_ok_apply:
  assumes "snapshot_ok s" and "apply_event s event = (s', r)" and "kind_wf (ev_kind event)"
  shows "snapshot_ok s'"
proof (cases "ev_kind event")
  case (Checkpointed i)
  with assms(2) show ?thesis
    by (intro snapshot_ok_cong [OF assms(1)]) (auto simp: apply_event_def split: if_splits)
next
  case SteeringRecorded
  with assms(2) show ?thesis
    by (intro snapshot_ok_cong [OF assms(1)]) (auto simp: apply_event_def split: if_splits)
next
  case (ChildAttached path role)
  with assms(2) show ?thesis
    by (intro snapshot_ok_cong [OF assms(1)])
      (auto simp: apply_event_def apply_child_attached_def split: if_splits)
next
  case (ChildUpdated path status)
  with assms(2) show ?thesis
    by (intro snapshot_ok_cong [OF assms(1)])
      (auto simp: apply_event_def apply_child_updated_def split: option.splits)
qed (use assms in \<open>auto simp: apply_event_def kind_wf_def intro: snapshot_ok_attempt_started
    snapshot_ok_state_changed snapshot_ok_tool_started snapshot_ok_tool_finished
    snapshot_ok_usage_recorded snapshot_ok_recovery_scheduled snapshot_ok_evidence_finalized\<close>)

section \<open>Recording and replaying\<close>

lemma ledger_record_Inr:
  "ledger_record l k = (l', Inr event) \<longleftrightarrow>
     event = ledger_event l k \<and> lg_events l' = lg_events l @ [event]
     \<and> apply_event (lg_snapshot l) event = (lg_snapshot l', Inr ())"
  by (cases l, cases l') (auto simp: ledger_record_def Let_def split: prod.splits sum.splits)

lemma ledger_record_Inl:
  "ledger_record l k = (l', Inl e) \<longleftrightarrow>
     lg_events l' = lg_events l
     \<and> apply_event (lg_snapshot l) (ledger_event l k) = (lg_snapshot l', Inl e)"
  by (cases l, cases l') (auto simp: ledger_record_def Let_def split: prod.splits sum.splits)

lemma replay_index:
  "fold_res replay_event (s, n) es = Inr (s', n') \<Longrightarrow> n' = n + length es"
proof (induction es arbitrary: s n)
  case Nil
  then show ?case by simp
next
  case (Cons e es)
  from Cons.prems obtain t where "fold_res replay_event (t, Suc n) es = Inr (s', n')"
    by (auto simp: replay_event_def result_simps split: if_splits prod.splits sum.splits)
  from Cons.IH [OF this] show ?case by simp
qed

lemma ledger_replay_snoc:
  assumes "ledger_replay es = Inr s" and "ev_sequence e = word_of_nat (length es) + 1"
    and "ev_execution_id e = xs_id s" and "apply_event s e = (s', Inr ())"
  shows "ledger_replay (es @ [e]) = Inr s'"
proof -
  obtain created rest where es: "es = created # rest"
    using assms(1) by (cases es) (auto simp: ledger_replay_def)
  obtain policy where policy: "ev_kind created = Created policy"
    "ev_sequence created = 1" "ev_path created = agent_path_root" "ev_attempt created = None"
    "policy_validate policy = Inr ()"
    and "\<exists>n. fold_res replay_event (initial_snapshot (ev_execution_id created) policy, 1) rest
      = Inr (s, n)"
    using assms(1) es
    by (auto simp: ledger_replay_def result_simps split: execution_event_kind.splits if_splits)
  then obtain n where "fold_res replay_event
      (initial_snapshot (ev_execution_id created) policy, 1) rest = Inr (s, n)" by blast
  with replay_index [OF this]
  have "fold_res replay_event (initial_snapshot (ev_execution_id created) policy, 1) (rest @ [e])
    = Inr (s', Suc n)"
    using assms es by (simp add: fold_res_append replay_event_def)
  then show ?thesis using es policy by (simp add: ledger_replay_def)
qed

text \<open>
  The calls after which a ledger is still the replay of its journal: all but charging usage to
  an execution that was never started (and ending one, which its state already excludes).
\<close>

definition ledger_admits :: "execution_ledger \<Rightarrow> execution_event_kind \<Rightarrow> bool" where
  "ledger_admits l k \<longleftrightarrow>
     xs_attempts (lg_snapshot l) \<noteq> []
     \<or> xs_state (lg_snapshot l) = Queued \<and> (\<forall>u. k \<noteq> UsageRecorded u)"

interpretation ledger: event_sourced lg_events "\<lambda>es e. es @ [e]" lg_snapshot ledger_record
  ledger_event ledger_replay ledger_admits
proof (unfold_locales, goal_cases)
  case (1 c k c' r)
  then show ?case by (simp add: ledger_record_Inr)
next
  case (2 c k c' r)
  then have r: "r = ledger_event c k" "lg_events c' = lg_events c @ [r]"
    "apply_event (lg_snapshot c) r = (lg_snapshot c', Inr ())"
    unfolding ledger_record_Inr by blast+
  show ?case
    unfolding r(2)
    by (rule ledger_replay_snoc [OF 2(2) _ _ r(3)]) (simp_all add: r(1) ledger_event_def)
next
  case (3 c k c' e)
  then show ?case by (simp add: ledger_record_Inl)
next
  case (4 c k c' e)
  then show ?case
    using apply_event_refused apply_event_refused_queued
    by (auto simp: ledger_record_Inl ledger_admits_def ledger_event_def)
qed

lemma ledger_replay_new: "new_root i policy = Inr l \<Longrightarrow> ledger_replay (lg_events l) = Inr (lg_snapshot l)"
  by (auto simp: new_root_def ledger_replay_def result_simps)

lemma ledger_ok_record:
  assumes "snapshot_ok (lg_snapshot l)" and "kind_wf k"
  shows "snapshot_ok (lg_snapshot (fst (ledger_record l k)))"
proof (cases "apply_event (lg_snapshot l) (ledger_event l k)")
  case (Pair s r)
  have "snapshot_ok s"
    by (rule snapshot_ok_apply [OF assms(1) Pair]) (simp add: ledger_event_def assms(2))
  then show ?thesis by (cases r) (simp_all add: ledger_record_def Pair Let_def)
qed

lemma ledger_ok_calls:
  assumes "new_root i policy = Inr l" and "\<forall>k\<in>set ks. kind_wf k"
  shows "snapshot_ok (lg_snapshot (run_calls ledger_record l ks))"
proof -
  have "snapshot_ok (lg_snapshot l)"
    using assms(1) by (auto simp: new_root_def result_simps snapshot_ok_initial)
  then show ?thesis
    using assms(2) by (induction ks arbitrary: l) (auto intro: ledger_ok_record)
qed

section \<open>Consequences of the invariant\<close>

definition usage_has_attempt :: "execution_ledger \<Rightarrow> execution_event_kind \<Rightarrow> bool" where
  "usage_has_attempt l k \<longleftrightarrow> (\<forall>u. k = UsageRecorded u \<longrightarrow> xs_attempts (lg_snapshot l) \<noteq> [])"

lemma ledger_admits_ok:
  "snapshot_ok (lg_snapshot l) \<Longrightarrow> usage_has_attempt l k \<Longrightarrow> ledger_admits l k"
  by (auto simp: snapshot_ok_def ledger_admits_def usage_has_attempt_def split: if_splits)

lemma ledger_admitted:
  assumes "snapshot_ok (lg_snapshot l)" and "\<forall>k\<in>set ks. kind_wf k"
    and "admitted usage_has_attempt ledger_record l ks"
  shows "admitted ledger_admits ledger_record l ks"
  using assms by (induction ks arbitrary: l) (auto intro: ledger_ok_record ledger_admits_ok)

lemma new_root_snapshot: "new_root i policy = Inr l \<Longrightarrow> lg_snapshot l = initial_snapshot i policy"
  by (auto simp: new_root_def result_simps)

lemma new_root_ok: "new_root i policy = Inr l \<Longrightarrow> snapshot_ok (lg_snapshot l)"
  by (simp add: new_root_snapshot snapshot_ok_initial)

text \<open>A finished execution: nothing about its outcome can change any more.\<close>

definition attempt_results :: "execution_snapshot \<Rightarrow> (attempt_id \<times> attempt_outcome) list" where
  "attempt_results s = map (\<lambda>a. (ea_id a, ea_outcome a)) (xs_attempts s)"

lemma valid_transition_not_final: "valid_transition f t \<Longrightarrow> \<not> execution_final f"
  by (cases f; cases t) (simp_all add: execution_final_def)

lemma map_update_last: "xs \<noteq> [] \<Longrightarrow> map g (butlast xs) @ [g (last xs)] = map g xs"
  by (metis append_butlast_last_id list.simps(8,9) map_append)

lemma finished_event:
  assumes "execution_final (xs_state s)" and "apply_event s event = (s', r)"
  shows "xs_state s' = xs_state s \<and> attempt_results s' = attempt_results s
    \<and> dom (om_get (xs_active_tools s')) \<subseteq> dom (om_get (xs_active_tools s)) \<or> \<not> snapshot_ok s"
proof (cases "ev_kind event")
  case (StateChanged f t reason)
  have "\<not> (xs_state s = f \<and> valid_transition f t)"
    using assms(1) valid_transition_not_final by blast
  then show ?thesis
    using assms StateChanged by (auto simp: apply_event_def apply_state_changed_def)
next
  case (UsageRecorded u)
  then show ?thesis
    using assms
    by (auto simp: apply_event_def apply_usage_recorded_def update_last_def Let_def
        attempt_results_def
        map_update_last [of _ "\<lambda>a. (ea_id a, ea_outcome a)"] split: if_splits)
next
  case (ToolFinished i status locations)
  show ?thesis
  proof (cases "snapshot_ok s")
    case True
    then have "om_wf (xs_active_tools s)" by (simp add: snapshot_ok_def)
    then show ?thesis
      using assms ToolFinished
      by (auto simp: apply_event_def apply_tool_finished_def Let_def attempt_results_def
          map_of_om_remove split: option.splits if_splits)
  qed simp
qed (use assms in \<open>auto simp: apply_defs attempt_results_def execution_final_def Let_def
    split: if_splits option.splits\<close>)

lemma finished_calls:
  assumes "snapshot_ok (lg_snapshot l)" and "execution_final (xs_state (lg_snapshot l))"
    and "\<forall>k\<in>set ks. kind_wf k"
  shows "xs_state (lg_snapshot (run_calls ledger_record l ks)) = xs_state (lg_snapshot l)
    \<and> attempt_results (lg_snapshot (run_calls ledger_record l ks)) = attempt_results (lg_snapshot l)
    \<and> dom (om_get (xs_active_tools (lg_snapshot (run_calls ledger_record l ks))))
        \<subseteq> dom (om_get (xs_active_tools (lg_snapshot l)))"
  using assms
proof (induction ks arbitrary: l)
  case Nil
  then show ?case by simp
next
  case (Cons k ks)
  define m where "m = fst (ledger_record l k)"
  obtain s r where sr: "apply_event (lg_snapshot l) (ledger_event l k) = (s, r)"
    by (cases "apply_event (lg_snapshot l) (ledger_event l k)")
  then have m: "lg_snapshot m = s"
    by (cases r) (simp_all add: m_def ledger_record_def Let_def)
  have ok: "snapshot_ok s"
    using ledger_ok_record [OF Cons.prems(1), of k] Cons.prems(3) m by (simp add: m_def)
  have here: "xs_state s = xs_state (lg_snapshot l)
      \<and> attempt_results s = attempt_results (lg_snapshot l) \<and> dom (om_get (xs_active_tools s)) \<subseteq> dom (om_get (xs_active_tools (lg_snapshot l)))"
    using finished_event [OF Cons.prems(2) sr] Cons.prems(1) by blast
  have "xs_state (lg_snapshot (run_calls ledger_record m ks)) = xs_state (lg_snapshot m)
    \<and> attempt_results (lg_snapshot (run_calls ledger_record m ks)) = attempt_results (lg_snapshot m)
    \<and> dom (om_get (xs_active_tools (lg_snapshot (run_calls ledger_record m ks))))
        \<subseteq> dom (om_get (xs_active_tools (lg_snapshot m)))"
    by (rule Cons.IH) (use Cons.prems ok m here in auto)
  with here show ?case
    unfolding m run_calls_simps m_def [symmetric] by (metis subset_trans)
qed

text \<open>Receipts only accumulate.\<close>

lemma dom_keep_tools:
  "dom (om_get (keep_tools own receipt)) = dom (om_get receipt) \<union> dom (om_get own)"
proof -
  have "dom (om_get (keep_tools own receipt)) = dom (om_get receipt) \<union> fst ` set own"
    unfolding keep_tools_def
    by (induction own arbitrary: receipt) (auto simp: om_contains_def split: if_splits)
  then show ?thesis by (simp only: dom_map_of_conv_image_fst [of own])
qed

lemma receipts_event:
  assumes "apply_event s event = (s', r)"
  shows "dom (om_get (er_tools (xs_evidence s))) \<subseteq> dom (om_get (er_tools (xs_evidence s')))
    \<and> er_verification_tools (xs_evidence s) \<subseteq> er_verification_tools (xs_evidence s')"
proof (cases "ev_kind event")
  case (EvidenceFinalized receipt)
  show ?thesis
  proof (cases "xs_state s = Verifying")
    case True
    then have "er_tools (xs_evidence s') = keep_tools (er_tools (xs_evidence s)) (er_tools receipt)"
      and "er_verification_tools (xs_evidence s')
        = er_verification_tools receipt \<union> er_verification_tools (xs_evidence s)"
      using assms EvidenceFinalized
      by (auto simp: apply_event_def apply_evidence_finalized_def Let_def)
    then show ?thesis by (simp only: dom_keep_tools) blast
  next
    case False
    then show ?thesis
      using assms EvidenceFinalized by (simp add: apply_event_def apply_evidence_finalized_def)
  qed
next
  case (ToolFinished i status locations)
  then show ?thesis
    using assms
    by (auto simp: apply_event_def apply_tool_finished_def Let_def split: option.splits)
qed (use assms in \<open>auto simp: apply_defs Let_def split: if_splits option.splits\<close>)

lemma tool_finished_receipt:
  "apply_tool_finished tid status locations s = (s', Inr u) \<Longrightarrow>
     tid \<in> dom (om_get (er_tools (xs_evidence s')))"
  by (auto simp: apply_tool_finished_def Let_def split: option.splits)

lemma receipts_calls:
  "dom (om_get (er_tools (xs_evidence (lg_snapshot l))))
     \<subseteq> dom (om_get (er_tools (xs_evidence (lg_snapshot (run_calls ledger_record l ks)))))
   \<and> er_verification_tools (xs_evidence (lg_snapshot l))
     \<subseteq> er_verification_tools (xs_evidence (lg_snapshot (run_calls ledger_record l ks)))"
proof (induction ks arbitrary: l)
  case Nil
  then show ?case by simp
next
  case (Cons k ks)
  obtain s r where sr: "apply_event (lg_snapshot l) (ledger_event l k) = (s, r)"
    by (cases "apply_event (lg_snapshot l) (ledger_event l k)")
  then have m: "lg_snapshot (fst (ledger_record l k)) = s"
    by (cases r) (simp_all add: ledger_record_def Let_def)
  show ?case
    using Cons.IH [of "fst (ledger_record l k)"] receipts_event [OF sr]
    unfolding m run_calls_simps by (metis subset_trans)
qed

text \<open>Token totals: the execution's counters are the saturating sums over its attempts.\<close>

definition saturated_sum :: "u64 list \<Rightarrow> nat" where
  "saturated_sum xs = min (sum_list (map unat xs)) (2 ^ 64 - 1)"

definition totals_ok :: "execution_snapshot \<Rightarrow> bool" where
  "totals_ok s \<longleftrightarrow>
     unat (xu_input_tokens (xs_usage s))
       = saturated_sum (map (xu_input_tokens \<circ> ea_usage) (xs_attempts s))
     \<and> unat (xu_cached_input_tokens (xs_usage s))
       = saturated_sum (map (xu_cached_input_tokens \<circ> ea_usage) (xs_attempts s))
     \<and> unat (xu_output_tokens (xs_usage s))
       = saturated_sum (map (xu_output_tokens \<circ> ea_usage) (xs_attempts s))"

lemma saturated_sum_add:
  assumes "unat t = saturated_sum (xs @ [a])"
  shows "unat (sat_add t x) = saturated_sum (xs @ [sat_add a x])"
proof -
  have "unat t = min (sum_list (map unat xs) + unat a) (2 ^ 64 - 1)"
    using assms by (simp add: saturated_sum_def)
  then show ?thesis
    by (simp add: saturated_sum_def unat_sat_add)
qed

lemma map_butlast_last:
  "xs \<noteq> [] \<Longrightarrow> map f xs = map f (butlast xs) @ [f (last xs)]"
  by (metis append_butlast_last_id list.simps(8,9) map_append)

lemma totals_ok_usage:
  assumes "totals_ok s" and "apply_usage_recorded u s = (s', r)" and ne: "xs_attempts s \<noteq> []"
  shows "totals_ok s'"
proof -
  have s': "xs_usage s' = usage_add u (xs_policy s) (xs_usage s)"
    "xs_attempts s' = butlast (xs_attempts s) @ [(last (xs_attempts s))
       \<lparr>ea_usage := usage_add u (xs_policy s) (ea_usage (last (xs_attempts s)))\<rparr>]"
    using assms(2) ne by (auto simp: apply_usage_recorded_def update_last_def Let_def)
  show ?thesis
    using assms(1)
    unfolding totals_ok_def s' map_butlast_last [OF ne]
    by (simp add: usage_add_def Let_def saturated_sum_add)
qed

lemma totals_ok_cong:
  assumes "totals_ok s" and "xs_usage s' = xs_usage s"
    and "map ea_usage (xs_attempts s') = map ea_usage (xs_attempts s)"
  shows "totals_ok s'"
  using assms unfolding totals_ok_def by (metis map_map)

lemma totals_ok_event:
  assumes "totals_ok s" and "apply_event s event = (s', r)"
    and "\<forall>u. ev_kind event = UsageRecorded u \<longrightarrow> xs_attempts s \<noteq> []"
  shows "totals_ok s'"
proof (cases "ev_kind event")
  case (UsageRecorded u)
  with assms show ?thesis by (auto simp: apply_event_def intro: totals_ok_usage)
next
  case (AttemptStarted a)
  with assms show ?thesis
    by (auto simp: apply_event_def apply_attempt_started_def totals_ok_def saturated_sum_def
        default_execution_usage_def split: if_splits)
next
  case (StateChanged f t reason)
  with assms(2) show ?thesis
    by (intro totals_ok_cong [OF assms(1)])
      (auto simp: apply_event_def apply_state_changed_def Let_def update_last_def
        map_update_last [of _ ea_usage] split: if_splits)
next
  case (RecoveryScheduled c m)
  with assms(2) show ?thesis
    by (intro totals_ok_cong [OF assms(1)])
      (auto simp: apply_event_def apply_recovery_scheduled_def Let_def update_last_def
        map_update_last [of _ ea_usage] split: if_splits)
qed (use assms in \<open>auto simp: apply_defs Let_def intro!: totals_ok_cong [OF assms(1)]
    split: if_splits option.splits\<close>)

lemma totals_ok_record:
  assumes "totals_ok (lg_snapshot l)" and "usage_has_attempt l k"
  shows "totals_ok (lg_snapshot (fst (ledger_record l k)))"
proof -
  obtain s r where sr: "apply_event (lg_snapshot l) (ledger_event l k) = (s, r)"
    by (cases "apply_event (lg_snapshot l) (ledger_event l k)")
  have "totals_ok s"
    by (rule totals_ok_event [OF assms(1) sr])
      (use assms(2) in \<open>auto simp: usage_has_attempt_def ledger_event_def\<close>)
  then show ?thesis using sr by (cases r) (simp_all add: ledger_record_def Let_def)
qed

section \<open>A concrete execution\<close>

definition example_policy :: execution_policy where
  "example_policy = \<lparr>xp_non_cached_input_weight = Fin 1, xp_cached_input_weight = Fin 0,
     xp_output_weight = Fin 4\<rparr>"

definition example_ledger :: execution_ledger where
  "example_ledger =
     \<lparr>lg_snapshot = initial_snapshot ''run-1'' example_policy,
      lg_events = [\<lparr>ev_sequence = 1, ev_execution_id = ''run-1'', ev_path = agent_path_root,
                    ev_attempt = None, ev_kind = Created example_policy\<rparr>]\<rparr>"

lemma example_ledger_new: "new_root ''run-1'' example_policy = Inr example_ledger"
  by (simp add: new_root_def policy_validate_def result_simps example_policy_def f_finite_def
      f_lt_def example_ledger_def)

definition example_first_attempt :: attempt_id where
  "example_first_attempt = \<lparr>at_execution = ''run-1'', at_path = agent_path_root, at_sequence = 1\<rparr>"

definition example_usage :: usage_charge where
  "example_usage = \<lparr>input_tokens = 10, cached_input_tokens = 4, output_tokens = 3,
     uc_cost_usd = Fin 0\<rparr>"

definition example_tool :: tool_evidence where
  "example_tool = \<lparr>tv_id = ''t1'', tv_name = ''check_diagnostics'', tv_mutating = False,
     tv_status = TCompleted, tv_locations = {}\<rparr>"

definition example_calls :: "execution_event_kind list" where
  "example_calls =
     [AttemptStarted example_first_attempt,
      ToolStarted ''t1'' ''check_diagnostics'' False,
      ToolFinished ''t1'' TCompleted {},
      UsageRecorded example_usage,
      RecoveryScheduled RateLimited ''retry'',
      AttemptStarted (example_first_attempt\<lparr>at_sequence := 2\<rparr>),
      StateChanged XRunning XFailed None]"

lemma example_calls_wf: "\<forall>k\<in>set example_calls. kind_wf k"
  by (simp add: example_calls_def kind_wf_def)

lemmas ledger_eval = example_calls_def example_ledger_def initial_snapshot_def
  example_first_attempt_def ledger_record_def ledger_event_def apply_defs next_sequence_def
  update_last_def recoverable_def om_contains_def default_evidence_receipt_def Let_def
  execution_final_def usage_has_attempt_def

lemma example_not_blank: "\<not> blank ''t1''" "\<not> blank ''check_diagnostics''"
  by code_simp+

lemma example_calls_admitted: "admitted usage_has_attempt ledger_record example_ledger example_calls"
  by (simp add: ledger_eval example_not_blank)

definition example_final :: execution_snapshot where
  "example_final = lg_snapshot (run_calls ledger_record example_ledger example_calls)"

lemma example_final_simps:
  "xs_state example_final = XFailed"
  "attempt_results example_final =
     [(example_first_attempt, OFailed), (example_first_attempt\<lparr>at_sequence := 2\<rparr>, OFailed)]"
  "om_get (er_tools (xs_evidence example_final)) ''t1'' = Some example_tool"
  "xu_input_tokens (xs_usage example_final) = 10"
  by (simp_all add: example_final_def ledger_eval example_not_blank attempt_results_def
      example_tool_def usage_add_def example_usage_def default_execution_usage_def sat_add_def)

section \<open>Properties\<close>

text \<open>
  C5. The journal is the execution: starting from a new ledger and whatever is called
  afterwards, refused calls included, replaying the recorded events gives exactly the live
  snapshot, and events are only ever appended, as long as usage is not charged before the
  first attempt was started.
\<close>

theorem ledger_replay_faithful:
  assumes "new_root i policy = Inr l" and "\<forall>k\<in>set ks. kind_wf k"
    and "admitted usage_has_attempt ledger_record l ks"
  shows "ledger_replay (lg_events (run_calls ledger_record l ks))
      = Inr (lg_snapshot (run_calls ledger_record l ks))
    \<and> (\<exists>es. lg_events (run_calls ledger_record l ks) = lg_events l @ es)"
proof
  show "ledger_replay (lg_events (run_calls ledger_record l ks))
      = Inr (lg_snapshot (run_calls ledger_record l ks))"
    using ledger.replay_calls [OF ledger_replay_new [OF assms(1)]]
      ledger_admitted [OF new_root_ok [OF assms(1)] assms(2,3)] by blast
  have "foldl (\<lambda>es e. es @ [e]) es0 es = es0 @ es" for es0 es :: "execution_event list"
    by (induction es arbitrary: es0) simp_all
  then show "\<exists>es. lg_events (run_calls ledger_record l ks) = lg_events l @ es"
    using ledger.journal_calls [of l ks] by simp
qed

theorem ledger_replay_faithful_witness:
  "ledger_replay (lg_events (run_calls ledger_record example_ledger example_calls))
     = Inr example_final"
  using ledger_replay_faithful [OF example_ledger_new example_calls_wf example_calls_admitted]
  by (simp add: example_final_def)

text \<open>
  Charging usage to an execution that has no attempt yet is refused, but not without
  effect: the total of the live snapshot already carries the charge while no event was
  recorded, so the snapshot is no longer the replay of its journal.
\<close>

lemma early_usage_breaks_replay:
  assumes "new_root i policy = Inr l" and "input_tokens usage \<noteq> 0"
    and "ledger_record_usage l usage = (l', r)"
  shows "r = Inl UsageWithoutAttempt \<and> lg_events l' = lg_events l
    \<and> xu_input_tokens (xs_usage (lg_snapshot l')) = input_tokens usage
    \<and> ledger_replay (lg_events l') = Inr (lg_snapshot l)
    \<and> lg_snapshot l' \<noteq> lg_snapshot l"
proof -
  have snap: "lg_snapshot l = initial_snapshot i policy"
    using assms(1) by (rule new_root_snapshot)
  have l': "l' = l\<lparr>lg_snapshot := (lg_snapshot l)\<lparr>xs_usage :=
      usage_add usage policy default_execution_usage\<rparr>\<rparr>" and r: "r = Inl UsageWithoutAttempt"
    using assms(3) snap
    by (auto simp: ledger_record_usage_def ledger_record_def ledger_event_def apply_event_def
        apply_usage_recorded_def initial_snapshot_def update_last_def Let_def)
  have usage: "xu_input_tokens (usage_add usage policy default_execution_usage) = input_tokens usage"
    by (simp add: usage_add_def default_execution_usage_def Let_def sat_add_def)
  have "xu_input_tokens (xs_usage (lg_snapshot l)) = 0"
    by (simp add: snap initial_snapshot_def default_execution_usage_def)
  then have "xs_usage (lg_snapshot l') \<noteq> xs_usage (lg_snapshot l)"
    using usage assms(2) by (auto simp: l')
  then have "lg_snapshot l' \<noteq> lg_snapshot l" by metis
  moreover have "lg_events l' = lg_events l"
    and "xu_input_tokens (xs_usage (lg_snapshot l')) = input_tokens usage"
    using usage by (simp_all add: l')
  ultimately show ?thesis
    using r ledger_replay_new [OF assms(1)] by simp
qed

lemma early_usage_breaks_replay_witness:
  "lg_snapshot (fst (ledger_record_usage example_ledger example_usage)) \<noteq> lg_snapshot example_ledger
    \<and> snd (ledger_record_usage example_ledger example_usage) = Inl UsageWithoutAttempt"
proof -
  have "input_tokens example_usage \<noteq> 0" by (simp add: example_usage_def)
  from early_usage_breaks_replay [OF example_ledger_new this] show ?thesis
    by (metis prod.collapse)
qed

text \<open>
  C6. The attempts of an execution form a chain of recoveries: in every reachable ledger the
  attempts are numbered from one and belong to the execution, every attempt but the last ended
  with a recoverable failure, at most one attempt is running, and the active attempt is the
  last one, present exactly while the execution is running, waiting for input or verifying.
\<close>

theorem attempts_form_recovery_chain:
  assumes "new_root i policy = Inr l" and "\<forall>k\<in>set ks. kind_wf k"
    and "s = lg_snapshot (run_calls ledger_record l ks)"
  shows "map ea_id (xs_attempts s) =
        map (\<lambda>n. \<lparr>at_execution = xs_id s, at_path = xs_root s, at_sequence = word_of_nat n + 1\<rparr>)
          [0..<length (xs_attempts s)]
    \<and> (\<forall>a\<in>set (butlast (xs_attempts s)). ea_outcome a = OFailed
          \<and> (\<exists>c. ea_failure_class a = Some c \<and> recoverable c))
    \<and> length (filter (\<lambda>a. ea_outcome a = ORunning) (xs_attempts s)) \<le> 1
    \<and> xs_active_attempt s =
        (if xs_state s = XRunning \<or> xs_state s = AwaitingInput \<or> xs_state s = Verifying
         then Some (ea_id (last (xs_attempts s))) else None)"
proof -
  have ok: "snapshot_ok s" unfolding assms(3) by (rule ledger_ok_calls [OF assms(1,2)])
  have before: "\<forall>a\<in>set (butlast (xs_attempts s)). recovered_attempt a"
    using ok by (cases "xs_attempts s = []") (simp_all add: snapshot_ok_def)
  have none: "filter (\<lambda>a. ea_outcome a = ORunning) (butlast (xs_attempts s)) = []"
    using before by (auto simp: filter_empty_conv recovered_attempt_def)
  have "length (filter (\<lambda>a. ea_outcome a = ORunning) (xs_attempts s)) \<le> 1"
  proof (cases "xs_attempts s = []")
    case False
    then have "xs_attempts s = butlast (xs_attempts s) @ [last (xs_attempts s)]" by simp
    then have "filter (\<lambda>a. ea_outcome a = ORunning) (xs_attempts s)
        = filter (\<lambda>a. ea_outcome a = ORunning) [last (xs_attempts s)]"
      using none by (metis append_Nil filter_append)
    then show ?thesis by simp
  qed simp
  moreover have "xs_active_attempt s =
        (if xs_state s = XRunning \<or> xs_state s = AwaitingInput \<or> xs_state s = Verifying
         then Some (ea_id (last (xs_attempts s))) else None)"
    using ok by (auto simp: snapshot_ok_def last_attempt_ok_def attempt_open_def split: if_splits)
  ultimately show ?thesis
    using ok before
    by (auto simp: snapshot_ok_def attempt_identity_def recovered_attempt_def
        split: option.splits cong: map_cong)
qed

theorem attempts_form_recovery_chain_witness:
  "list_all (\<lambda>a. ea_outcome a = OFailed) (butlast (xs_attempts example_final))
    \<and> xs_active_attempt example_final = None"
  using attempts_form_recovery_chain [OF example_ledger_new example_calls_wf example_final_def]
    example_final_simps(1)
  by (simp add: list_all_iff)

text \<open>
  C7. A finished execution stays finished: once the state is final, whatever is called
  afterwards leaves the state, the attempts and their outcomes unchanged, and no tool becomes
  active any more.
\<close>

theorem finished_executions_stay_finished:
  assumes "new_root i policy = Inr l" and "\<forall>k\<in>set (ks @ ks'). kind_wf k"
    and "execution_final (xs_state (lg_snapshot (run_calls ledger_record l ks)))"
  shows "xs_state (lg_snapshot (run_calls ledger_record l (ks @ ks')))
      = xs_state (lg_snapshot (run_calls ledger_record l ks))
    \<and> attempt_results (lg_snapshot (run_calls ledger_record l (ks @ ks')))
      = attempt_results (lg_snapshot (run_calls ledger_record l ks))
    \<and> dom (om_get (xs_active_tools (lg_snapshot (run_calls ledger_record l (ks @ ks')))))
      \<subseteq> dom (om_get (xs_active_tools (lg_snapshot (run_calls ledger_record l ks))))"
  using finished_calls [OF ledger_ok_calls [OF assms(1)] assms(3), of ks'] assms(2)
  by (simp add: run_calls_append)

theorem finished_executions_stay_finished_witness:
  "xs_state (lg_snapshot (run_calls ledger_record example_ledger
      (example_calls @ [AttemptStarted (example_first_attempt\<lparr>at_sequence := 3\<rparr>)]))) = XFailed"
proof -
  have "\<forall>k\<in>set (example_calls @ [AttemptStarted (example_first_attempt\<lparr>at_sequence := 3\<rparr>)]).
      kind_wf k"
    using example_calls_wf by (simp add: kind_wf_def)
  from finished_executions_stay_finished [OF example_ledger_new this] show ?thesis
    using example_final_simps(1) by (simp add: example_final_def execution_final_def)
qed

text \<open>
  C8. A recovery happens exactly at a safe boundary, and then always leads to a new attempt:
  scheduling one is accepted if and only if the failure is transient, the execution is running
  and every started tool has a receipt; the failed attempt is closed with its class, and
  starting the next attempt is then accepted with the next sequence number.
\<close>

theorem recovery_at_safe_boundary:
  assumes "new_root i policy = Inr l" and "\<forall>k\<in>set ks. kind_wf k"
    and "m = run_calls ledger_record l ks"
  shows "((\<exists>m' ev. schedule_recovery m cls msg = (m', Inr ev)) \<longleftrightarrow>
        recoverable cls \<and> xs_state (lg_snapshot m) = XRunning \<and> xs_active_tools (lg_snapshot m) = [])
    \<and> (schedule_recovery m cls msg = (m', Inr ev) \<longrightarrow>
        xs_state (lg_snapshot m') = Recovering
        \<and> ea_failure_class (last (xs_attempts (lg_snapshot m'))) = Some cls
        \<and> (\<exists>m'' ev'. start_attempt m' = (m'', Inr ev')
             \<and> xs_state (lg_snapshot m'') = XRunning
             \<and> length (xs_attempts (lg_snapshot m'')) = Suc (length (xs_attempts (lg_snapshot m)))))"
proof -
  let ?s = "lg_snapshot m"
  have ok: "snapshot_ok ?s" unfolding assms(3) by (rule ledger_ok_calls [OF assms(1,2)])
  show ?thesis
  proof (cases "recoverable cls \<and> xs_state ?s = XRunning \<and> xs_active_tools ?s = []")
    case True
    then have ne: "xs_attempts ?s \<noteq> []" using ok by (auto simp: snapshot_ok_def)
    define t where "t = ?s\<lparr>xs_attempts := butlast (xs_attempts ?s) @ [(last (xs_attempts ?s))
        \<lparr>ea_outcome := OFailed, ea_failure_class := Some cls, ea_failure := Some msg\<rparr>],
      xs_recoveries := sat_add (xs_recoveries ?s) 1, xs_state := Recovering,
      xs_active_attempt := None\<rparr>"
    define e where "e = ledger_event m (RecoveryScheduled cls msg)"
    have sched: "schedule_recovery m cls msg
        = (m\<lparr>lg_snapshot := t, lg_events := lg_events m @ [e]\<rparr>, Inr e)"
      using True ne
      by (simp add: schedule_recovery_def recovery_decision_of_def ledger_record_def e_def
          ledger_event_def apply_event_def apply_recovery_scheduled_def update_last_def t_def
          Let_def)
    have start: "\<exists>m'' ev'. start_attempt (m\<lparr>lg_snapshot := t, lg_events := es\<rparr>) = (m'', Inr ev')
        \<and> xs_state (lg_snapshot m'') = XRunning
        \<and> length (xs_attempts (lg_snapshot m'')) = Suc (length (xs_attempts ?s))" for es
      using ne by (simp add: start_attempt_def ledger_record_def ledger_event_def apply_event_def
          apply_attempt_started_def t_def next_sequence_def Let_def)
    show ?thesis using True sched start by (auto simp: t_def)
  next
    case False
    then have "\<exists>rs. schedule_recovery m cls msg = (m, Inl (RecoveryDenied rs))"
      by (auto simp: schedule_recovery_def recovery_decision_of_def Let_def)
    with False show ?thesis by auto
  qed
qed

theorem recovery_at_safe_boundary_witness:
  "\<exists>m' ev. schedule_recovery
     (run_calls ledger_record example_ledger [AttemptStarted example_first_attempt]) RateLimited ''r''
     = (m', Inr ev)"
proof -
  have "\<forall>k\<in>set [AttemptStarted example_first_attempt]. kind_wf k" by (simp add: kind_wf_def)
  from recovery_at_safe_boundary [OF example_ledger_new this refl, of RateLimited "''r''"]
  show ?thesis by (simp add: ledger_eval)
qed

text \<open>
  C9. A tool id runs at most once: whatever is called afterwards, the receipt of a finished
  tool stays in the evidence, finalisation included, a second start with its id is refused,
  and completed verification tools stay recorded.
\<close>

theorem receipts_never_lost:
  assumes "tool_finished l tid status locations = (l', Inr ev)"
    and "m = run_calls ledger_record l' ks"
  shows "om_contains (er_tools (xs_evidence (lg_snapshot m))) tid
    \<and> (\<exists>m' e. tool_started m tid name mutating = (m', Inl e))
    \<and> er_verification_tools (xs_evidence (lg_snapshot l'))
        \<subseteq> er_verification_tools (xs_evidence (lg_snapshot m))"
proof -
  have "apply_tool_finished tid status locations (lg_snapshot l) = (lg_snapshot l', Inr ())"
    using assms(1) by (auto simp: tool_finished_def ledger_record_Inr ledger_event_def apply_event_def)
  then have "tid \<in> dom (om_get (er_tools (xs_evidence (lg_snapshot l'))))"
    by (rule tool_finished_receipt)
  then have kept: "tid \<in> dom (om_get (er_tools (xs_evidence (lg_snapshot m))))"
    using receipts_calls [of l' ks] unfolding assms(2) by blast
  then have "\<exists>e. apply_event (lg_snapshot m) (ledger_event m (ToolStarted tid name mutating))
      = (lg_snapshot m, Inl e)"
    by (auto simp: apply_event_def apply_tool_started_def ledger_event_def om_contains_def)
  then show ?thesis
    using kept receipts_calls [of l' ks] assms(2)
    by (auto simp: tool_started_def ledger_record_def om_contains_def Let_def)
qed

theorem receipts_never_lost_witness:
  "om_contains (er_tools (xs_evidence example_final)) ''t1''"
proof -
  let ?l = "run_calls ledger_record example_ledger (take 2 example_calls)"
  let ?l' = "run_calls ledger_record example_ledger (take 3 example_calls)"
  have "snd (tool_finished ?l ''t1'' TCompleted {})
      = Inr (ledger_event ?l (ToolFinished ''t1'' TCompleted {}))"
    by (simp add: tool_finished_def ledger_eval example_not_blank)
  moreover have "fst (tool_finished ?l ''t1'' TCompleted {}) = ?l'"
    by (simp add: tool_finished_def example_calls_def)
  ultimately have finished: "tool_finished ?l ''t1'' TCompleted {}
      = (?l', Inr (ledger_event ?l (ToolFinished ''t1'' TCompleted {})))"
    by (simp add: prod_eq_iff)
  have "run_calls ledger_record example_ledger example_calls
      = run_calls ledger_record ?l' (drop 3 example_calls)"
    by (simp only: run_calls_append [symmetric] append_take_drop_id)
  from receipts_never_lost [OF finished this] show ?thesis by (simp add: example_final_def)
qed

text \<open>
  The execution's token totals are the sums over its attempts, saturating at the largest
  counter value, in every ledger that charges usage only after its first attempt.
\<close>

lemma usage_totals_sum_attempts:
  assumes "new_root i policy = Inr l" and "admitted usage_has_attempt ledger_record l ks"
    and "s = lg_snapshot (run_calls ledger_record l ks)"
  shows "unat (xu_input_tokens (xs_usage s))
      = saturated_sum (map (\<lambda>a. xu_input_tokens (ea_usage a)) (xs_attempts s))
    \<and> unat (xu_cached_input_tokens (xs_usage s))
      = saturated_sum (map (\<lambda>a. xu_cached_input_tokens (ea_usage a)) (xs_attempts s))
    \<and> unat (xu_output_tokens (xs_usage s))
      = saturated_sum (map (\<lambda>a. xu_output_tokens (ea_usage a)) (xs_attempts s))"
proof -
  have "totals_ok (lg_snapshot l)"
    using new_root_snapshot [OF assms(1)]
    by (simp add: totals_ok_def initial_snapshot_def default_execution_usage_def saturated_sum_def)
  then have "totals_ok s"
    unfolding assms(3) using assms(2) by (rule run_calls_inv_admitted) (rule totals_ok_record)
  then show ?thesis by (simp add: totals_ok_def comp_def)
qed

lemma usage_totals_sum_attempts_witness:
  "saturated_sum (map (\<lambda>a. xu_input_tokens (ea_usage a)) (xs_attempts example_final)) = 10"
  using usage_totals_sum_attempts [OF example_ledger_new example_calls_admitted example_final_def]
    example_final_simps(4) by simp

end
