(* ===== verification/Admission.thy ===== *)
theory Admission
  imports Float64 Contract "HOL-Library.Sublist"
begin

text \<open>
  The fan-out admission policy of \<open>agent-orchestration/src/policy.rs\<close>: whether a batch of
  delegated agents may run at all, decided from its purpose, its size, the independence of
  its scopes, its risk signals and its projected cost. \<open>evaluate\<close> collects every rejection, in
  the order of the code; a request is admitted when there is none. The lemmas relate the
  string test for overlapping scopes to the path components of the scopes.
\<close>

section \<open>Data\<close>

datatype authorization = NoAuthorization | UserRequested | RepositoryPolicy

datatype orchestration_purpose = Explore | Review | Verify | ExternalResearch

record model_rate =
  input_per_million_usd :: f64
  output_per_million_usd :: f64

record workstream_estimate =
  ws_task_id :: task_id
  ws_scopes :: "rstr set"
  ws_estimated_context_tokens :: u64
  ws_estimated_output_tokens :: u64
  ws_harness_kind :: harness_kind
  ws_model :: rstr
  ws_model_rate :: "model_rate option"

record risk_signals =
  changed_paths :: nat
  touches_public_api :: bool
  touches_auth_or_security :: bool
  touches_data_migration :: bool
  touches_dependencies :: bool
  touches_concurrency :: bool
  verification_missing :: bool
  user_requested_review :: bool
  prior_attempt_failed :: bool

definition requires_independent_gate :: "risk_signals \<Rightarrow> bool" where
  "requires_independent_gate r \<longleftrightarrow>
     user_requested_review r \<or> prior_attempt_failed r \<or> verification_missing r
     \<or> touches_auth_or_security r \<or> touches_data_migration r \<or> touches_concurrency r
     \<or> touches_public_api r \<or> touches_dependencies r \<or> 8 \<le> changed_paths r"

record admission_request =
  rq_authorization :: authorization
  rq_purpose :: orchestration_purpose
  rq_workstreams :: "workstream_estimate list"
  rq_root_model :: rstr
  rq_root_model_rate :: model_rate
  rq_root_estimated_output_tokens :: u64
  rq_risk :: risk_signals
  rq_external_research_required :: bool

record admission_policy =
  ap_max_agents :: nat
  ap_minimum_parallel_context_tokens :: u64
  ap_child_system_prompt_tokens :: u64
  ap_max_projected_cost_ratio :: f64
  ap_max_projected_weighted_tokens :: "f64 option"
  ap_output_token_weight :: f64
  ap_require_explicit_authorization :: bool

definition default_admission_policy :: admission_policy where
  "default_admission_policy =
     \<lparr>ap_max_agents = 3, ap_minimum_parallel_context_tokens = 40000,
      ap_child_system_prompt_tokens = 6000, ap_max_projected_cost_ratio = Fin (5 / 4),
      ap_max_projected_weighted_tokens = None, ap_output_token_weight = Fin 4,
      ap_require_explicit_authorization = True\<rparr>"

record rejection =
  rj_code :: rstr
  rj_detail :: rstr

record admission_decision =
  ad_admitted :: bool
  ad_rejections :: "rejection list"
  ad_projected_single_cost_usd :: f64
  ad_projected_multi_cost_usd :: f64
  ad_projected_cost_ratio :: f64
  ad_projected_weighted_tokens :: f64

section \<open>Scopes\<close>

definition normalize_scope :: "rstr \<Rightarrow> rstr" where
  "normalize_scope scope = trim_matches_char CHR ''/'' (trim scope)"

definition scopes_clash :: "rstr \<Rightarrow> rstr \<Rightarrow> bool" where
  "scopes_clash left right \<longleftrightarrow>
     left = right \<or> starts_with left (right @ ''/'') \<or> starts_with right (left @ ''/'')"

text \<open>The four nested loops, which return the first clashing pair.\<close>

definition first_clash :: "workstream_estimate \<Rightarrow> workstream_estimate \<Rightarrow> rstr option" where
  "first_clash left right =
     (case List.find (\<lambda>(l, r). scopes_clash (normalize_scope l) (normalize_scope r))
             (List.product (sorted_list_of_set (ws_scopes left))
                           (sorted_list_of_set (ws_scopes right))) of
        None \<Rightarrow> None
      | Some (l, r) \<Rightarrow> Some (normalize_scope l @ '' <> '' @ normalize_scope r))"

fun overlapping_scope :: "workstream_estimate list \<Rightarrow> rstr option" where
  "overlapping_scope [] = None"
| "overlapping_scope (left # rest) =
     (case List.find (\<lambda>right. first_clash left right \<noteq> None) rest of
        Some right \<Rightarrow> first_clash left right
      | None \<Rightarrow> overlapping_scope rest)"

section \<open>Projections\<close>

definition projected_cost :: "model_rate \<Rightarrow> u64 \<Rightarrow> u64 \<Rightarrow> f64" where
  "projected_cost rate input output =
     f_add (f_mul (f_div (f_of_u64 input) (Fin 1000000)) (input_per_million_usd rate))
           (f_mul (f_div (f_of_u64 output) (Fin 1000000)) (output_per_million_usd rate))"

definition rate_valid :: "model_rate \<Rightarrow> bool" where
  "rate_valid rate \<longleftrightarrow>
     f_finite (input_per_million_usd rate) \<and> f_finite (output_per_million_usd rate)
     \<and> f_le (Fin 0) (input_per_million_usd rate) \<and> f_le (Fin 0) (output_per_million_usd rate)"

text \<open>\<open>sum::<u64>()\<close>: plain addition, which wraps in the release profile.\<close>

definition context_tokens :: "admission_request \<Rightarrow> u64" where
  "context_tokens request =
     foldl (\<lambda>total w. total + ws_estimated_context_tokens w) 0 (rq_workstreams request)"

definition f_sum :: "f64 list \<Rightarrow> f64" where
  "f_sum xs = foldl f_add (Fin 0) xs"

definition projected_multi_cost :: "admission_policy \<Rightarrow> admission_request \<Rightarrow> f64" where
  "projected_multi_cost p request =
     f_sum (map (\<lambda>w.
       projected_cost
         (case ws_model_rate w of None \<Rightarrow> rq_root_model_rate request | Some rate \<Rightarrow> rate)
         (sat_add (ws_estimated_context_tokens w) (ap_child_system_prompt_tokens p))
         (ws_estimated_output_tokens w)) (rq_workstreams request))"

definition projected_single_cost :: "admission_policy \<Rightarrow> admission_request \<Rightarrow> f64" where
  "projected_single_cost p request =
     projected_cost (rq_root_model_rate request)
       (sat_add (context_tokens request) (ap_child_system_prompt_tokens p))
       (rq_root_estimated_output_tokens request)"

definition projected_weighted :: "admission_policy \<Rightarrow> admission_request \<Rightarrow> f64" where
  "projected_weighted p request =
     f_sum (map (\<lambda>w.
       f_add
         (f_of_u64 (sat_add (ws_estimated_context_tokens w) (ap_child_system_prompt_tokens p)))
         (f_mul (f_of_u64 (ws_estimated_output_tokens w)) (ap_output_token_weight p)))
       (rq_workstreams request))"

definition single_token_work :: "admission_policy \<Rightarrow> admission_request \<Rightarrow> u64" where
  "single_token_work p request =
     sat_add (sat_add (context_tokens request) (ap_child_system_prompt_tokens p))
       (rq_root_estimated_output_tokens request)"

definition multi_token_work :: "admission_policy \<Rightarrow> admission_request \<Rightarrow> u64" where
  "multi_token_work p request =
     foldl (\<lambda>total w.
       sat_add (sat_add (sat_add total (ws_estimated_context_tokens w))
                  (ap_child_system_prompt_tokens p))
         (ws_estimated_output_tokens w)) 0 (rq_workstreams request)"

definition projected_ratio :: "admission_policy \<Rightarrow> admission_request \<Rightarrow> f64" where
  "projected_ratio p request =
     (let single = projected_single_cost p request; multi = projected_multi_cost p request
      in if f_lt (Fin 0) single then f_div multi single
         else if f_eq multi (Fin 0)
         then f_div (f_of_u64 (multi_token_work p request))
                (f_of_u64 (max (single_token_work p request) 1))
         else PInf)"

section \<open>The decision\<close>

definition reject_if :: "bool \<Rightarrow> rstr \<Rightarrow> rstr \<Rightarrow> rejection list" where
  "reject_if c code detail = (if c then [\<lparr>rj_code = code, rj_detail = detail\<rparr>] else [])"

definition basic_rejections :: "admission_policy \<Rightarrow> admission_request \<Rightarrow> rejection list" where
  "basic_rejections p request =
     reject_if (ap_require_explicit_authorization p \<and> rq_authorization request = NoAuthorization)
       ''authorization_required''
       ''delegation requires a user request or repository policy''
     @ reject_if (rq_workstreams request = [] \<or> ap_max_agents p < length (rq_workstreams request))
       ''invalid_fanout_size''
       ''workstream count is outside the configured bounds''
     @ reject_if (\<not> rate_valid (rq_root_model_rate request)
         \<or> list_ex (\<lambda>w. case ws_model_rate w of None \<Rightarrow> False | Some rate \<Rightarrow> \<not> rate_valid rate)
             (rq_workstreams request))
       ''invalid_model_rate''
       ''model rates must be finite and non-negative''
     @ reject_if (\<not> f_finite (ap_output_token_weight p) \<or> f_lt (ap_output_token_weight p) (Fin 1))
       ''invalid_token_weight''
       ''output token weight must be finite and at least one''
     @ reject_if (case ap_max_projected_weighted_tokens p of None \<Rightarrow> False
         | Some limit \<Rightarrow> \<not> f_finite limit \<or> f_le limit (Fin 0))
       ''invalid_token_budget''
       ''projected token budget must be finite and greater than zero''"

definition purpose_rejections :: "admission_policy \<Rightarrow> admission_request \<Rightarrow> rejection list" where
  "purpose_rejections p request =
     (case rq_purpose request of
        Explore \<Rightarrow>
          reject_if (length (rq_workstreams request) < 2)
            ''not_parallel''
            ''exploration fan-out requires at least two independent workstreams''
          @ reject_if (context_tokens request < ap_minimum_parallel_context_tokens p)
            ''context_too_small''
            ''the repository slice is too small to justify repeated agent prompts''
          @ (case overlapping_scope (rq_workstreams request) of
               None \<Rightarrow> []
             | Some overlap \<Rightarrow>
                 reject_if True ''overlapping_scopes''
                   (''workstreams do not have independent scopes: '' @ overlap))
      | ExternalResearch \<Rightarrow>
          reject_if (\<not> rq_external_research_required request)
            ''external_research_not_required''
            ''product cloud is reserved for genuinely external research''
          @ reject_if (length (rq_workstreams request) \<noteq> 1
              \<or> ws_harness_kind (rq_workstreams request ! 0) \<noteq> BrokeredCloud)
            ''invalid_cloud_route''
            ''external research must use exactly one product cloud workstream''
      | _ \<Rightarrow>
          reject_if (length (rq_workstreams request) \<noteq> 1)
            ''gate_must_be_single''
            ''review and verification gates use one independent agent''
          @ reject_if (\<not> requires_independent_gate (rq_risk request))
            ''risk_gate_not_triggered''
            ''the change does not meet the independent-review risk threshold'')
     @ reject_if (rq_purpose request \<noteq> ExternalResearch
         \<and> list_ex (\<lambda>w. ws_harness_kind w = BrokeredCloud) (rq_workstreams request))
       ''cloud_for_local_task''
       ''product cloud agents cannot be used for repository-local work''"

definition cost_rejections :: "admission_policy \<Rightarrow> admission_request \<Rightarrow> rejection list" where
  "cost_rejections p request =
     reject_if (case ap_max_projected_weighted_tokens p of None \<Rightarrow> False
         | Some limit \<Rightarrow> f_lt limit (projected_weighted p request))
       ''projected_token_budget_exceeded''
       ''the first parallel batch exceeds the shared weighted-token budget''
     @ reject_if (rq_purpose request \<noteq> ExternalResearch
         \<and> f_lt (ap_max_projected_cost_ratio p) (projected_ratio p request))
       ''projected_cost_too_high''
       ''fan-out cost exceeds the configured single-agent ratio''"

definition evaluate :: "admission_policy \<Rightarrow> admission_request \<Rightarrow> admission_decision" where
  "evaluate p request =
     (let rejections =
            basic_rejections p request @ purpose_rejections p request @ cost_rejections p request
      in \<lparr>ad_admitted = (rejections = []), ad_rejections = rejections,
          ad_projected_single_cost_usd = projected_single_cost p request,
          ad_projected_multi_cost_usd = projected_multi_cost p request,
          ad_projected_cost_ratio = projected_ratio p request,
          ad_projected_weighted_tokens = projected_weighted p request\<rparr>)"

section \<open>Scopes as path components\<close>

text \<open>The components of a scope, none for the whole repository.\<close>

definition scope_components :: "rstr \<Rightarrow> rstr list" where
  "scope_components scope =
     (if normalize_scope scope = [] then [] else split_char CHR ''/'' (normalize_scope scope))"

text \<open>
  Two scopes that the code takes to overlap: one is a path above or equal to the other, and they
  are both the whole repository or both below it.
\<close>

definition scopes_overlap :: "rstr \<Rightarrow> rstr \<Rightarrow> bool" where
  "scopes_overlap l r \<longleftrightarrow>
     (scope_components l = [] \<longleftrightarrow> scope_components r = [])
     \<and> (prefix (scope_components l) (scope_components r)
          \<or> prefix (scope_components r) (scope_components l))"

lemma join_with_append:
  "xs \<noteq> [] \<Longrightarrow> ys \<noteq> [] \<Longrightarrow> join_with sep (xs @ ys) = join_with sep xs @ sep @ join_with sep ys"
proof (induction sep xs rule: join_with.induct)
  case (2 sep x)
  then show ?case by (cases ys) simp_all
qed auto

lemma join_split_char: "join_with [c] (split_char c s) = s"
proof (induction s)
  case Nil
  then show ?case by simp
next
  case (Cons x xs)
  obtain q qs where qs: "split_char c xs = q # qs"
    by (meson neq_Nil_conv split_char_not_Nil)
  then show ?case using Cons by (cases qs) auto
qed

lemma prefix_components:
  "prefix (split_char CHR ''/'' a) (split_char CHR ''/'' b) \<longleftrightarrow>
     b = a \<or> starts_with b (a @ ''/'')" (is "?L \<longleftrightarrow> ?R")
proof
  assume ?L
  then obtain cs where cs: "split_char CHR ''/'' b = split_char CHR ''/'' a @ cs"
    by (auto simp: prefix_def)
  have b: "b = join_with ''/'' (split_char CHR ''/'' a @ cs)"
    using join_split_char [of "CHR ''/''" b] unfolding cs by simp
  show ?R
  proof (cases cs)
    case Nil
    then show ?thesis using b by (simp add: join_split_char)
  next
    case (Cons c cs')
    then have "b = (a @ ''/'') @ join_with ''/'' cs"
      using b by (simp only: join_with_append split_char_not_Nil not_False_eq_True list.simps
          join_split_char append_assoc)
    then show ?thesis unfolding starts_with_iff by blast
  qed
next
  assume ?R
  then show ?L by (auto simp: starts_with_iff split_char_append_sep)
qed

lemma scopes_clash_components:
  "scopes_clash a b \<longleftrightarrow>
     prefix (split_char CHR ''/'' a) (split_char CHR ''/'' b)
     \<or> prefix (split_char CHR ''/'' b) (split_char CHR ''/'' a)"
  unfolding prefix_components scopes_clash_def by auto

lemma normalize_scope_head: "\<not> starts_with (normalize_scope s) ''/''"
proof
  let ?slash = "\<lambda>x. x = CHR ''/''"
  let ?ys = "dropWhile ?slash (trim s)"
  assume "starts_with (normalize_scope s) ''/''"
  then obtain t where t: "rev (dropWhile ?slash (rev ?ys)) = CHR ''/'' # t"
    by (auto simp: starts_with_iff normalize_scope_def trim_matches_char_def)
  have "rev (takeWhile ?slash (rev ?ys) @ dropWhile ?slash (rev ?ys)) = ?ys"
    by (simp only: takeWhile_dropWhile_id rev_rev_ident)
  then have ys: "?ys = CHR ''/'' # t @ rev (takeWhile ?slash (rev ?ys))"
    by (simp only: rev_append t append_Cons)
  then have "?ys \<noteq> []" and "hd ?ys = CHR ''/''" by (metis list.distinct(1), metis list.sel(1))
  then show False using hd_dropWhile [of ?slash "trim s"] by simp
qed

lemma scopes_clash_iff: "scopes_clash (normalize_scope l) (normalize_scope r) \<longleftrightarrow> scopes_overlap l r"
proof (cases "normalize_scope l = [] \<or> normalize_scope r = []")
  case True
  then show ?thesis
    using normalize_scope_head [of l] normalize_scope_head [of r]
    by (auto simp: scopes_clash_def scopes_overlap_def scope_components_def starts_with_iff)
next
  case False
  then show ?thesis
    by (simp add: scopes_clash_components scopes_overlap_def scope_components_def)
qed

definition independent :: "workstream_estimate \<Rightarrow> workstream_estimate \<Rightarrow> bool" where
  "independent left right \<longleftrightarrow>
     (\<forall>l\<in>ws_scopes left. \<forall>r\<in>ws_scopes right.
        \<not> scopes_clash (normalize_scope l) (normalize_scope r))"

lemma first_clash_None:
  "finite (ws_scopes left) \<Longrightarrow> finite (ws_scopes right) \<Longrightarrow>
     first_clash left right = None \<longleftrightarrow> independent left right"
  by (auto simp: first_clash_def independent_def find_None_iff split: option.splits
      dest!: find_SomeD) blast

lemma overlapping_scope_None:
  "\<forall>w\<in>set ws. finite (ws_scopes w) \<Longrightarrow>
     overlapping_scope ws = None \<longleftrightarrow> sorted_wrt independent ws"
proof (induction ws)
  case Nil
  then show ?case by simp
next
  case (Cons w ws)
  show ?case
  proof (cases "\<exists>right\<in>set ws. first_clash w right \<noteq> None")
    case True
    then obtain right where r: "List.find (\<lambda>right. first_clash w right \<noteq> None) ws = Some right"
      by (cases "List.find (\<lambda>right. first_clash w right \<noteq> None) ws")
        (auto simp: find_None_iff)
    then have "first_clash w right \<noteq> None" and "right \<in> set ws"
      by (auto simp: find_Some_iff)
    with r Cons.prems show ?thesis by (auto simp: first_clash_None)
  next
    case False
    then have "List.find (\<lambda>right. first_clash w right \<noteq> None) ws = None"
      by (auto simp: find_None_iff)
    with False Cons show ?thesis by (auto simp: first_clash_None)
  qed
qed

section \<open>When a request is admitted\<close>

lemma reject_if_Nil [simp]: "reject_if c code detail = [] \<longleftrightarrow> \<not> c"
  by (simp add: reject_if_def)

lemma admitted_iff:
  "ad_admitted (evaluate p request) \<longleftrightarrow>
     basic_rejections p request = [] \<and> purpose_rejections p request = []
     \<and> cost_rejections p request = []"
  by (simp add: evaluate_def Let_def)

lemma purpose_rejections_Explore:
  "rq_purpose request = Explore \<Longrightarrow> purpose_rejections p request = [] \<longleftrightarrow>
     2 \<le> length (rq_workstreams request)
     \<and> ap_minimum_parallel_context_tokens p \<le> context_tokens request
     \<and> overlapping_scope (rq_workstreams request) = None
     \<and> (\<forall>w\<in>set (rq_workstreams request). ws_harness_kind w \<noteq> BrokeredCloud)"
  by (auto simp: purpose_rejections_def not_less list_ex_iff reject_if_def split: option.splits)

lemma codes_reject_if: "rj_code ` set (reject_if c code detail) = (if c then {code} else {})"
  by (simp add: reject_if_def)

lemma codes_basic: "''overlapping_scopes'' \<notin> rj_code ` set (basic_rejections p request)"
  by (simp add: basic_rejections_def image_Un codes_reject_if del: image_iff)

lemma codes_cost: "''overlapping_scopes'' \<notin> rj_code ` set (cost_rejections p request)"
  by (simp add: cost_rejections_def image_Un codes_reject_if del: image_iff)

lemma codes_explore:
  assumes "rq_purpose request = Explore"
  shows "''overlapping_scopes'' \<in> rj_code ` set (purpose_rejections p request) \<longleftrightarrow>
     overlapping_scope (rq_workstreams request) \<noteq> None"
  by (cases "overlapping_scope (rq_workstreams request)")
    (simp_all add: purpose_rejections_def assms image_Un codes_reject_if del: image_iff)

lemma overlap_rejected:
  assumes "rq_purpose request = Explore"
  shows "''overlapping_scopes'' \<in> rj_code ` set (ad_rejections (evaluate p request)) \<longleftrightarrow>
     overlapping_scope (rq_workstreams request) \<noteq> None"
  using codes_basic [of p request] codes_cost [of p request] codes_explore [OF assms, of p]
  by (simp add: evaluate_def Let_def image_Un del: image_iff)

lemma context_tokens_sum:
  "unat (context_tokens request) =
     (\<Sum>w\<leftarrow>rq_workstreams request. unat (ws_estimated_context_tokens w)) mod 2 ^ 64"
proof -
  have "unat (foldl (\<lambda>total w. total + ws_estimated_context_tokens w) t ws) =
     (unat t + (\<Sum>w\<leftarrow>ws. unat (ws_estimated_context_tokens w))) mod 2 ^ 64"
    for t :: u64 and ws :: "workstream_estimate list"
  proof (induction ws arbitrary: t)
    case Nil
    have "unat t < 2 ^ 64" using unsigned_less [of t] by simp
    then show ?case by simp
  next
    case (Cons w ws)
    then show ?case by (simp add: unat_word_ariths mod_simps add.assoc)
  qed
  from this [of 0] show ?thesis by (simp add: context_tokens_def)
qed

section \<open>A concrete request\<close>

definition free_rate :: model_rate where
  "free_rate = \<lparr>input_per_million_usd = Fin 0, output_per_million_usd = Fin 0\<rparr>"

definition example_stream :: "rstr \<Rightarrow> rstr \<Rightarrow> u64 \<Rightarrow> workstream_estimate" where
  "example_stream task scope context =
     \<lparr>ws_task_id = task, ws_scopes = {scope}, ws_estimated_context_tokens = context,
      ws_estimated_output_tokens = 0, ws_harness_kind = Local, ws_model = ''m'',
      ws_model_rate = None\<rparr>"

definition example_request :: "workstream_estimate list \<Rightarrow> admission_request" where
  "example_request ws =
     \<lparr>rq_authorization = UserRequested, rq_purpose = Explore, rq_workstreams = ws,
      rq_root_model = ''m'', rq_root_model_rate = free_rate, rq_root_estimated_output_tokens = 0,
      rq_risk = \<lparr>changed_paths = 0, touches_public_api = False, touches_auth_or_security = False,
        touches_data_migration = False, touches_dependencies = False, touches_concurrency = False,
        verification_missing = False, user_requested_review = False,
        prior_attempt_failed = False\<rparr>,
      rq_external_research_required = False\<rparr>"

definition lean_policy :: admission_policy where
  "lean_policy = default_admission_policy\<lparr>ap_child_system_prompt_tokens := 0\<rparr>"

lemma example_scopes:
  "normalize_scope ''src/a'' = ''src/a''" "normalize_scope ''src/b/'' = ''src/b''"
  "normalize_scope ''/'' = []" "normalize_scope ''src'' = ''src''"
  by code_simp+

lemma example_request_admitted:
  assumes "\<not> scopes_clash (normalize_scope u) (normalize_scope v)"
  shows "ad_admitted (evaluate lean_policy
    (example_request [example_stream s u 1000000, example_stream t v 1000000]))"
proof -
  let ?ws = "[example_stream s u 1000000, example_stream t v 1000000]"
  have "sorted_wrt independent ?ws" using assms by (simp add: independent_def example_stream_def)
  then have "overlapping_scope ?ws = None"
    by (subst overlapping_scope_None) (simp_all add: example_stream_def)
  moreover have "context_tokens (example_request ?ws) = 2000000"
    by (simp add: context_tokens_def example_request_def example_stream_def)
  ultimately have "purpose_rejections lean_policy (example_request ?ws) = []"
    by (subst purpose_rejections_Explore)
      (auto simp: example_request_def lean_policy_def default_admission_policy_def
        example_stream_def)
  moreover have "basic_rejections lean_policy (example_request ?ws) = []"
    by (simp add: basic_rejections_def lean_policy_def default_admission_policy_def
        example_request_def example_stream_def rate_valid_def free_rate_def
        f_finite_def f_lt_def)
  moreover have "projected_ratio lean_policy (example_request ?ws) = Fin 1"
    by (simp add: projected_ratio_def projected_single_cost_def projected_multi_cost_def
        projected_cost_def f_sum_def multi_token_work_def single_token_work_def context_tokens_def
        lean_policy_def default_admission_policy_def example_request_def
        example_stream_def free_rate_def sat_add_def Let_def f_lt_def f_eq_def)
  then have "cost_rejections lean_policy (example_request ?ws) = []"
    by (simp add: cost_rejections_def lean_policy_def default_admission_policy_def f_lt_def)
  ultimately show ?thesis by (simp add: admitted_iff)
qed

section \<open>Properties\<close>

text \<open>
  What admission guarantees: an admitted request was authorised when the policy asks for
  it, has between one and \<open>max_agents\<close> workstreams with valid rates, and meets the rule of its
  purpose (at least two workstreams with enough context for exploration, a single triggered
  gate for review and verification, exactly one brokered cloud workstream for required
  external research and none otherwise); its projected weighted tokens do not exceed the
  configured budget and, unless it is external research, its projected cost ratio does not
  exceed the configured one.
\<close>

lemma admission_guarantees:
  assumes "ad_admitted (evaluate p request)" and "ws = rq_workstreams request"
  shows "(ap_require_explicit_authorization p \<longrightarrow> rq_authorization request \<noteq> NoAuthorization)
    \<and> 1 \<le> length ws \<and> length ws \<le> ap_max_agents p
    \<and> rate_valid (rq_root_model_rate request)
    \<and> (\<forall>w\<in>set ws. \<forall>rate. ws_model_rate w = Some rate \<longrightarrow> rate_valid rate)
    \<and> (case rq_purpose request of
         Explore \<Rightarrow> 2 \<le> length ws \<and> ap_minimum_parallel_context_tokens p \<le> context_tokens request
       | ExternalResearch \<Rightarrow> rq_external_research_required request
           \<and> map ws_harness_kind ws = [BrokeredCloud]
       | _ \<Rightarrow> length ws = 1 \<and> requires_independent_gate (rq_risk request))
    \<and> (rq_purpose request \<noteq> ExternalResearch \<longrightarrow>
         (\<forall>w\<in>set ws. ws_harness_kind w \<noteq> BrokeredCloud)
         \<and> \<not> f_lt (ap_max_projected_cost_ratio p) (projected_ratio p request))
    \<and> (\<forall>limit. ap_max_projected_weighted_tokens p = Some limit \<longrightarrow>
         \<not> f_lt limit (projected_weighted p request))"
proof -
  have basic: "basic_rejections p request = []" and purpose: "purpose_rejections p request = []"
    and cost: "cost_rejections p request = []"
    using assms(1) by (simp_all add: admitted_iff)
  have "(ap_require_explicit_authorization p \<longrightarrow> rq_authorization request \<noteq> NoAuthorization)
    \<and> 1 \<le> length ws \<and> length ws \<le> ap_max_agents p \<and> rate_valid (rq_root_model_rate request)"
    using basic unfolding assms(2) by (auto simp: basic_rejections_def Suc_le_eq)
  moreover have "\<forall>w\<in>set ws. \<forall>rate. ws_model_rate w = Some rate \<longrightarrow> rate_valid rate"
    using basic unfolding assms(2) by (fastforce simp: basic_rejections_def list_ex_iff)
  moreover have "case rq_purpose request of
         Explore \<Rightarrow> 2 \<le> length ws \<and> ap_minimum_parallel_context_tokens p \<le> context_tokens request
       | ExternalResearch \<Rightarrow> rq_external_research_required request
           \<and> map ws_harness_kind ws = [BrokeredCloud]
       | _ \<Rightarrow> length ws = 1 \<and> requires_independent_gate (rq_risk request)"
    using purpose unfolding assms(2) purpose_rejections_def
    by (auto simp: not_less not_le length_Suc_conv split: orchestration_purpose.splits)
  moreover have "rq_purpose request \<noteq> ExternalResearch \<longrightarrow>
         (\<forall>w\<in>set ws. ws_harness_kind w \<noteq> BrokeredCloud)
         \<and> \<not> f_lt (ap_max_projected_cost_ratio p) (projected_ratio p request)"
    using purpose cost unfolding assms(2)
    by (auto simp: purpose_rejections_def cost_rejections_def list_ex_iff)
  moreover have "\<forall>limit. ap_max_projected_weighted_tokens p = Some limit \<longrightarrow>
         \<not> f_lt limit (projected_weighted p request)"
    using cost by (auto simp: cost_rejections_def)
  ultimately show ?thesis by blast
qed

lemma example_streams_apart: "\<not> scopes_clash (normalize_scope ''src/a'') (normalize_scope ''src/b/'')"
  by (simp add: example_scopes scopes_clash_def starts_with_def)

lemma example_root_apart: "\<not> scopes_clash (normalize_scope ''/'') (normalize_scope ''src'')"
  by (simp add: example_scopes scopes_clash_def starts_with_def)

lemma admission_guarantees_witness:
  "context_tokens (example_request [example_stream ''a'' ''src/a'' 1000000,
     example_stream ''b'' ''src/b/'' 1000000]) \<ge> 40000"
  using admission_guarantees
    [OF example_request_admitted [OF example_streams_apart, of "''a''" "''b''"] refl]
  by (simp add: example_request_def lean_policy_def default_admission_policy_def)

text \<open>
  C12. The string test for overlapping scopes is the path test, with one exception. An exploration
  request is rejected for overlapping scopes exactly when a scope of one workstream and a scope of
  a later one are paths of which one is, component by component, equal to or above the other; the
  exception is the whole repository, which is taken to overlap only with itself. An exploration
  that is admitted has no such pair.
\<close>

theorem explore_scopes_independent:
  assumes "rq_purpose request = Explore"
    and "\<forall>w\<in>set (rq_workstreams request). finite (ws_scopes w)"
  shows "(''overlapping_scopes'' \<in> rj_code ` set (ad_rejections (evaluate p request)) \<longleftrightarrow>
      (\<exists>i j l r. i < j \<and> j < length (rq_workstreams request)
         \<and> l \<in> ws_scopes (rq_workstreams request ! i)
         \<and> r \<in> ws_scopes (rq_workstreams request ! j) \<and> scopes_overlap l r))
    \<and> (ad_admitted (evaluate p request) \<longrightarrow>
         ''overlapping_scopes'' \<notin> rj_code ` set (ad_rejections (evaluate p request)))"
proof -
  have "''overlapping_scopes'' \<in> rj_code ` set (ad_rejections (evaluate p request)) \<longleftrightarrow>
      overlapping_scope (rq_workstreams request) \<noteq> None"
    by (rule overlap_rejected [OF assms(1)])
  also have "\<dots> \<longleftrightarrow> \<not> sorted_wrt independent (rq_workstreams request)"
    using overlapping_scope_None [OF assms(2)] by simp
  also have "\<dots> \<longleftrightarrow> (\<exists>i j l r. i < j \<and> j < length (rq_workstreams request)
         \<and> l \<in> ws_scopes (rq_workstreams request ! i)
         \<and> r \<in> ws_scopes (rq_workstreams request ! j) \<and> scopes_overlap l r)"
    by (auto simp: sorted_wrt_iff_nth_less independent_def scopes_clash_iff)
  finally show ?thesis by (simp add: evaluate_def Let_def)
qed

theorem explore_scopes_independent_witness:
  "''overlapping_scopes'' \<in> rj_code ` set (ad_rejections (evaluate default_admission_policy
     (example_request [example_stream ''a'' ''src'' 1, example_stream ''b'' ''src/b/'' 1])))
   \<and> ''overlapping_scopes'' \<notin> rj_code ` set (ad_rejections (evaluate default_admission_policy
     (example_request [example_stream ''a'' ''src/a'' 1, example_stream ''b'' ''src/b/'' 1])))"
proof -
  have "scopes_overlap ''src'' ''src/b/''" and "\<not> scopes_overlap ''src/a'' ''src/b/''"
    by code_simp+
  moreover have r: "rq_purpose (example_request ws) = Explore" "rq_workstreams (example_request ws) = ws" for ws
    by (simp_all add: example_request_def)
  moreover have "\<forall>w\<in>set [example_stream s u 1, example_stream t v 1]. finite (ws_scopes w)" for s t u v
    by (simp add: example_stream_def)
  ultimately show ?thesis
    using explore_scopes_independent [of "example_request [example_stream ''a'' ''src'' 1, example_stream ''b'' ''src/b/'' 1]" default_admission_policy]
      explore_scopes_independent [of "example_request [example_stream ''a'' ''src/a'' 1, example_stream ''b'' ''src/b/'' 1]" default_admission_policy]
    unfolding r by (auto simp: example_stream_def less_Suc_eq)
qed

text \<open>
  The whole repository is not recognised as an overlapping scope: a workstream whose scope
  is \<open>/\<close> normalises to the empty string, which clashes with no non-empty relative scope, so
  an exploration of \<open>/\<close> beside \<open>src\<close> is admitted as independent.
\<close>

lemma root_scope_overlap_missed:
  "overlapping_scope [example_stream s ''/'' 1000000, example_stream t ''src'' 1000000] = None
    \<and> ad_admitted (evaluate lean_policy
        (example_request [example_stream s ''/'' 1000000, example_stream t ''src'' 1000000]))"
proof
  show "overlapping_scope [example_stream s ''/'' 1000000, example_stream t ''src'' 1000000] = None"
    using example_root_apart
    by (subst overlapping_scope_None) (simp_all add: independent_def example_stream_def)
qed (rule example_request_admitted [OF example_root_apart])

text \<open>
  The projected context is the sum of the workstreams' estimates only modulo 2 to the 64:
  an exploration whose real total is far above the minimum is turned away as too small when
  the sum wraps, while every other total of the decision saturates.
\<close>

lemma context_total_wraps:
  assumes "rq_purpose request = Explore"
    and "(\<Sum>w\<leftarrow>rq_workstreams request. unat (ws_estimated_context_tokens w)) = 2 ^ 64 + extra"
    and "extra < unat (ap_minimum_parallel_context_tokens p)"
  shows "unat (context_tokens request) = extra
    \<and> \<not> ad_admitted (evaluate p request)
    \<and> ''context_too_small'' \<in> rj_code ` set (ad_rejections (evaluate p request))"
proof -
  have "extra < 2 ^ 64"
    using assms(3) unsigned_less [of "ap_minimum_parallel_context_tokens p", where 'a = nat] by simp
  then have extra: "unat (context_tokens request) = extra"
    using assms(2) by (simp add: context_tokens_sum)
  then have small: "context_tokens request < ap_minimum_parallel_context_tokens p"
    using assms(3) by (simp add: word_less_nat_alt)
  then have "''context_too_small'' \<in> rj_code ` set (purpose_rejections p request)"
    using assms(1) by (simp add: purpose_rejections_def reject_if_def)
  moreover have "purpose_rejections p request \<noteq> []"
    using small assms(1) by (simp add: purpose_rejections_Explore not_le)
  ultimately show ?thesis
    using extra by (auto simp: admitted_iff) (simp add: evaluate_def Let_def)
qed

lemma context_total_wraps_witness:
  "\<not> ad_admitted (evaluate default_admission_policy
     (example_request [example_stream ''a'' ''src/a'' 9223372036854775808,
        example_stream ''b'' ''src/b'' 9223372036854775808]))"
  using context_total_wraps [of "example_request [example_stream ''a'' ''src/a'' 9223372036854775808,
        example_stream ''b'' ''src/b'' 9223372036854775808]" 0 default_admission_policy]
  by (simp add: example_request_def example_stream_def default_admission_policy_def)

end
