(* ===== verification/FanOut.thy ===== *)
theory FanOut
  imports Control Admission
begin

text \<open>
  The fan-out coordinator of \<open>agent-orchestration/src/runtime.rs\<close> over the harness interface of
  \<open>harness.rs\<close>. A harness is code behind a trait object: the model keeps its id and kind, and
  lets every attempt end with an arbitrary result. \<open>run_fanout\<close> and \<open>rework\<close> are split where
  they await: \<open>launch\<close> and \<open>rework_start\<close> run up to the creation of the attempts,
  \<open>begin_attempt\<close> is an attempt's code before the harness runs and \<open>end_attempt\<close> the code
  after it. \<open>fan_step\<close> interleaves them in any order. The source of fresh agent ids is the
  parameter \<open>uuid\<close>.

  Between two awaits the code runs on one thread without yielding, and each of these stretches
  is one step of the model. \<open>run_fanout\<close>, \<open>rework\<close> and \<open>interrupt\<close> take the locks of the
  control plane several times within such a stretch, so a caller on another thread could act
  between two of them; those interleavings are not modelled. The \<open>expect\<close>s are: \<open>CPanicked\<close>
  is the one of \<open>validate_contract\<close>, and \<open>launch\<close> gives \<open>None\<close> where the code panics.
\<close>

section \<open>Error texts\<close>

fun contract_error_text :: "contract_error \<Rightarrow> rstr" where
  "contract_error_text SegmentLength = ''task names must contain 1 to 64 characters''"
| "contract_error_text SegmentChars =
     ''task names may contain lowercase letters, digits, _ and -''"
| "contract_error_text PathNotRooted = ''agent path must start with /root''"
| "contract_error_text PathWithoutTask = ''agent path must include a task name''"
| "contract_error_text ReportTaskMismatch = ''report task id does not match the delegated task''"
| "contract_error_text ReportAttemptMismatch =
     ''report attempt does not match the active attempt''"
| "contract_error_text ReportNotReported = ''a completed attempt must report status=reported''"
| "contract_error_text ReportChangedPaths =
     ''read-only reports must have an empty changed_paths set''"
| "contract_error_text ReportSummaryEmpty = ''report summary must not be empty''"
| "contract_error_text ReportWithoutEvidence =
     ''report must include concrete evidence or an explicit unresolved item''"
| "contract_error_text ReportClaimIncomplete =
     ''report claims require a claim and evidence reference''"
| "contract_error_text ReportEvidenceEmpty = ''report evidence entries must not be empty''"

fun control_error_text :: "control_error \<Rightarrow> rstr" where
  "control_error_text MaxAgentsZero = ''max_agents must be greater than zero''"
| "control_error_text MaxDepthZero = ''max_depth must be greater than zero''"
| "control_error_text (BadContract e) = contract_error_text e"
| "control_error_text (DepthExceeded d m) =
     ''agent depth '' @ dec d @ '' exceeds configured maximum '' @ dec m"
| "control_error_text AgentLimitReached = ''agent thread limit reached''"
| "control_error_text (PathExists p) = ''agent path already exists: '' @ p"
| "control_error_text (PathNotReserved p) = ''agent path was not reserved: '' @ p"
| "control_error_text (UnknownAgent p) = ''unknown agent: '' @ p"
| "control_error_text DifferentReport =
     ''the active attempt already submitted a different report''"
| "control_error_text NotReported = ''only a reported result can be accepted or reworked''"
| "control_error_text MessageEmpty = ''message must not be empty''"
| "control_error_text (UnknownTarget p) = ''unknown target agent: '' @ p"
| "control_error_text TriggerWithoutRework =
     ''triggering a new turn requires an explicit rework decision''"

section \<open>The harness interface\<close>

record harness =
  hn_id :: rstr
  hn_kind :: harness_kind

datatype harness_event = HProgress rstr | HTool rstr rstr | HWarning rstr

datatype harness_error =
    NotConfigured rstr | HRejected rstr | HTimedOut rstr | HFailed rstr | HCancelled

fun harness_error_text :: "harness_error \<Rightarrow> rstr" where
  "harness_error_text (NotConfigured s) = ''harness is not configured: '' @ s"
| "harness_error_text (HRejected s) = ''harness rejected the task: '' @ s"
| "harness_error_text (HTimedOut s) = ''harness timed out: '' @ s"
| "harness_error_text (HFailed s) = ''harness failed: '' @ s"
| "harness_error_text HCancelled = ''harness was cancelled''"

record harness_attempt =
  ha_provider :: rstr
  ha_model :: rstr
  ha_final_message :: rstr
  ha_report :: "structured_report option"
  ha_usage :: usage_charge
  ha_observed_write :: bool

text \<open>
  The arguments of \<open>run_attempt\<close>, which become the \<open>AttemptContext\<close> the harness gets; the
  cancellation token is identified by the path it is registered under.
\<close>

record attempt_context =
  ac_orchestration_id :: orchestration_id
  ac_agent_path :: agent_path
  ac_task :: read_only_task
  ac_attempt :: u32
  ac_parent_context :: rstr
  ac_feedback :: "rstr option"

section \<open>The coordinator\<close>

record fan_out_request =
  fo_id :: orchestration_id
  fo_admission :: admission_request
  fo_tasks :: "read_only_task list"
  fo_parent_context :: rstr

datatype coordinator_event =
    EQueued agent_path rstr
  | ERunning agent_path u32
  | EHarness agent_path harness_event
  | EReported agent_path structured_report
  | EAccepted agent_path u32
  | EReworkRequested agent_path u32 rstr
  | EInterrupted agent_path
  | EFailed agent_path rstr

datatype coordinator_error =
    CAdmission rstr
  | CTasksMismatch
  | CTaskIncomplete task_id
  | CUnknownHarness rstr
  | CHarnessKind task_id
  | CFeedbackEmpty
  | CBudgetExhausted
  | CControl control_error
  | CHarnessIdEmpty
  | CHarnessDuplicate rstr
  | CPanicked

text \<open>\<open>CPanicked\<close> is not an error of the code: it stands for the panic of an \<open>expect\<close>.\<close>

record coordinator =
  co_policy :: admission_policy
  co_control :: control_plane
  co_harnesses :: "rstr \<rightharpoonup> harness"
  co_active :: "(agent_path, bool) omap"

text \<open>\<open>co_active\<close> maps the path of a running attempt to whether its token was cancelled.\<close>

definition coordinator_new :: "admission_policy \<Rightarrow> control_plane \<Rightarrow> coordinator" where
  "coordinator_new policy control =
     \<lparr>co_policy = policy, co_control = control, co_harnesses = Map.empty, co_active = []\<rparr>"

definition set_control :: "coordinator \<Rightarrow> control_plane \<Rightarrow> coordinator" where
  "set_control co c = co\<lparr>co_control := c\<rparr>"

definition register_harness ::
    "coordinator \<Rightarrow> harness \<Rightarrow> coordinator \<times> (coordinator_error + unit)" where
  "register_harness co h =
     (let i = trim (hn_id h)
      in if i = [] then (co, Inl CHarnessIdEmpty)
         else let co' = co\<lparr>co_harnesses := (co_harnesses co)(i \<mapsto> h)\<rparr>
           in if co_harnesses co i \<noteq> None then (co', Inl (CHarnessDuplicate i))
              else (co', Inr ()))"

definition admission_details :: "admission_decision \<Rightarrow> rstr" where
  "admission_details d =
     join_with ''; '' (map (\<lambda>r. rj_code r @ '': '' @ rj_detail r) (ad_rejections d))"

definition check_task ::
    "coordinator \<Rightarrow> fan_out_request \<Rightarrow> read_only_task \<Rightarrow> coordinator_error + unit" where
  "check_task co request task =
     (if blank (rt_objective task) \<or> rt_scopes task = {} \<or> rt_acceptance task = []
      then Inl (CTaskIncomplete (rt_id task))
      else bind_res (ok_or (co_harnesses co (rt_harness task)) (CUnknownHarness (rt_harness task)))
        (\<lambda>h. case List.find (\<lambda>w. ws_task_id w = rt_id task) (rq_workstreams (fo_admission request)) of
            Some estimate \<Rightarrow> ensure (hn_kind h = ws_harness_kind estimate) (CHarnessKind (rt_id task))
          | None \<Rightarrow> Inl CPanicked))"

definition validate_contract :: "coordinator \<Rightarrow> fan_out_request \<Rightarrow> coordinator_error + unit" where
  "validate_contract co request =
     (let estimated_ids = set (map ws_task_id (rq_workstreams (fo_admission request)));
          task_ids = set (map rt_id (fo_tasks request))
      in if estimated_ids \<noteq> task_ids \<or> card task_ids \<noteq> length (fo_tasks request)
         then Inl CTasksMismatch
         else check_all (check_task co request) (fo_tasks request))"

text \<open>
  The commit loop: the reservations left over after an error are dropped with the vector's
  iterator. \<open>None\<close> is the panic of a reservation without its task.
\<close>

fun commit_all ::
    "(nat \<Rightarrow> rstr) \<Rightarrow> control_plane \<Rightarrow> spawn_reservation list \<Rightarrow>
     (control_plane \<times> agent_record list \<times> control_error option) option" where
  "commit_all uuid c [] = Some (c, [], None)"
| "commit_all uuid c (r # rs) =
     (case commit c r (uuid 0) of
        None \<Rightarrow> None
      | Some (c', Inl e) \<Rightarrow> Some (foldl drop_spawn c' rs, [], Some e)
      | Some (c', Inr rec) \<Rightarrow>
          (case commit_all (\<lambda>n. uuid (Suc n)) c' rs of
             None \<Rightarrow> None
           | Some (c'', recs, e) \<Rightarrow> Some (c'', rec # recs, e)))"

definition reserve_all ::
    "control_plane \<Rightarrow> read_only_task list \<Rightarrow>
     (control_error option \<times> spawn_reservation list) \<times> control_plane" where
  "reserve_all c tasks =
     acquire_all (\<lambda>c (parent, task). reserve_spawn c parent task) c
       (map (Pair agent_path_root) tasks)"

definition queued_event :: "agent_record \<Rightarrow> coordinator_event" where
  "queued_event rec = EQueued (ar_path rec) (rt_objective (ar_task rec))"

definition attempt_of ::
    "fan_out_request \<Rightarrow> agent_record \<Rightarrow> attempt_context" where
  "attempt_of request rec =
     \<lparr>ac_orchestration_id = fo_id request, ac_agent_path = ar_path rec, ac_task = ar_task rec,
      ac_attempt = ar_attempt rec, ac_parent_context = fo_parent_context request,
      ac_feedback = None\<rparr>"

definition launch ::
    "(nat \<Rightarrow> rstr) \<Rightarrow> coordinator \<Rightarrow> fan_out_request \<Rightarrow>
     (coordinator \<times> coordinator_event list \<times> (coordinator_error + attempt_context list)) option"
where
  "launch uuid co request =
     (let admission = evaluate (co_policy co) (fo_admission request)
      in if \<not> ad_admitted admission then Some (co, [], Inl (CAdmission (admission_details admission)))
         else case validate_contract co request of
           Inl e \<Rightarrow> if e = CPanicked then None else Some (co, [], Inl e)
         | Inr u \<Rightarrow>
           (case reserve_all (co_control co) (fo_tasks request) of
              ((Some e, hs), c) \<Rightarrow>
                Some (set_control co (foldl drop_spawn c hs), [], Inl (CControl e))
            | ((None, hs), c) \<Rightarrow>
                (case commit_all uuid c hs of
                   None \<Rightarrow> None
                 | Some (c', recs, Some e) \<Rightarrow>
                     Some (set_control co c', map queued_event recs, Inl (CControl e))
                 | Some (c', recs, None) \<Rightarrow>
                     if list_ex (\<lambda>rec. co_harnesses co (rt_harness (ar_task rec)) = None) recs
                     then None
                     else Some (set_control co c', map queued_event recs,
                                Inr (map (attempt_of request) recs)))))"

section \<open>Attempts\<close>

text \<open>\<open>drop(result)\<close>: an error is ignored.\<close>

definition ignore_error :: "control_plane \<Rightarrow> control_error + (control_plane \<times> 'a) \<Rightarrow> control_plane"
where
  "ignore_error c r = (case r of Inl e \<Rightarrow> c | Inr (c', x) \<Rightarrow> c')"

definition begin_attempt ::
    "coordinator \<Rightarrow> attempt_context \<Rightarrow> coordinator \<times> coordinator_event list" where
  "begin_attempt co a =
     (co\<lparr>co_active := om_insert (ac_agent_path a) False (co_active co),
         co_control := ignore_error (co_control co)
           (set_status (co_control co) (ac_agent_path a) Running)\<rparr>,
      [ERunning (ac_agent_path a) (ac_attempt a)])"

definition fail_attempt ::
    "coordinator \<Rightarrow> agent_path \<Rightarrow> rstr \<Rightarrow> coordinator \<times> coordinator_event list" where
  "fail_attempt co path error =
     (set_control co (ignore_error (co_control co) (control_fail (co_control co) path error)),
      [EFailed path error])"

definition charge_budget :: "coordinator \<Rightarrow> usage_charge \<Rightarrow> coordinator" where
  "charge_budget co usage =
     set_control co ((co_control co)\<lparr>cp_budget := fst (record_usage (cp_budget (co_control co)) usage)\<rparr>)"

definition finish_attempt ::
    "coordinator \<Rightarrow> agent_path \<Rightarrow> read_only_task \<Rightarrow> u32 \<Rightarrow> harness_attempt \<Rightarrow>
     coordinator \<times> coordinator_event list" where
  "finish_attempt co0 path task attempt result =
     (let co = charge_budget co0 (ha_usage result)
      in if ha_observed_write result
         then fail_attempt co path ''read-only harness observed a workspace mutation''
         else case ha_report result of
           None \<Rightarrow> fail_attempt co path ''agent finished without a structured result report''
         | Some report \<Rightarrow>
             (case validate_read_only report task attempt of
                Inl e \<Rightarrow> fail_attempt co path (contract_error_text e)
              | Inr u \<Rightarrow>
                  (case control_report (co_control co) path report of
                     Inl e \<Rightarrow> fail_attempt co path (control_error_text e)
                   | Inr (c', fresh) \<Rightarrow> (set_control co c', [EReported path report]))))"

definition end_attempt ::
    "coordinator \<Rightarrow> attempt_context \<Rightarrow> harness_error + harness_attempt \<Rightarrow>
     coordinator \<times> coordinator_event list" where
  "end_attempt co0 a result =
     (let co = co0\<lparr>co_active := om_remove (ac_agent_path a) (co_active co0)\<rparr>
      in case result of
          Inr r \<Rightarrow> finish_attempt co (ac_agent_path a) (ac_task a) (ac_attempt a) r
        | Inl e \<Rightarrow> fail_attempt co (ac_agent_path a) (harness_error_text e))"

section \<open>Review\<close>

definition accept ::
    "coordinator \<Rightarrow> agent_path \<Rightarrow> coordinator_error + (coordinator \<times> coordinator_event list \<times> u32)"
where
  "accept co path =
     bind_res (map_error CControl (control_decide (co_control co) path Accept)) (\<lambda>(c, attempt).
       Inr (set_control co c, [EAccepted path attempt], attempt))"

text \<open>\<open>rework\<close> up to the attempt it awaits; an error leaves what happened before it.\<close>

definition rework_start ::
    "coordinator \<Rightarrow> orchestration_id \<Rightarrow> agent_path \<Rightarrow> rstr \<Rightarrow> rstr \<Rightarrow>
     coordinator \<times> coordinator_event list \<times> (coordinator_error + attempt_context)" where
  "rework_start co i path parent_context feedback =
     (if blank feedback then (co, [], Inl CFeedbackEmpty)
      else if exhausted (snap_budget (control_snapshot_of (co_control co)))
        then (co, [], Inl CBudgetExhausted)
      else case control_decide (co_control co) path Rework of
          Inl e \<Rightarrow> (co, [], Inl (CControl e))
        | Inr (c, attempt) \<Rightarrow>
          (case control_agent c path of
             None \<Rightarrow> (set_control co c, [], Inl (CControl (UnknownAgent path)))
           | Some rec \<Rightarrow>
             (case send_message c \<lparr>msg_sender = agent_path_root, msg_target = path,
                                   msg_body = feedback, msg_mode = TriggerTurn\<rparr> of
                Inl e \<Rightarrow> (set_control co c, [], Inl (CControl e))
              | Inr c' \<Rightarrow>
                (set_control co c', [EReworkRequested path attempt feedback],
                 (case co_harnesses co (rt_harness (ar_task rec)) of
                    None \<Rightarrow> Inl (CUnknownHarness (rt_harness (ar_task rec)))
                  | Some h \<Rightarrow>
                      Inr \<lparr>ac_orchestration_id = i, ac_agent_path = path, ac_task = ar_task rec,
                           ac_attempt = attempt, ac_parent_context = parent_context,
                           ac_feedback = Some feedback\<rparr>)))))"

definition interrupt ::
    "coordinator \<Rightarrow> agent_path \<Rightarrow>
     coordinator \<times> coordinator_event list \<times> (coordinator_error + agent_status)" where
  "interrupt co path =
     (case control_agent (co_control co) path of
        None \<Rightarrow> (co, [], Inl (CControl (UnknownAgent path)))
      | Some rec \<Rightarrow>
          let co' = (if om_contains (co_active co) path
                     then co\<lparr>co_active := om_insert path True (co_active co)\<rparr> else co)
          in case set_status (co_control co') path Interrupted of
              Inl e \<Rightarrow> (co', [], Inl (CControl e))
            | Inr (c, u) \<Rightarrow> (set_control co' c, [EInterrupted path], Inr (ar_status rec)))"

section \<open>All attempts in flight\<close>

record fan_system =
  fs_coordinator :: coordinator
  fs_queued :: "attempt_context list"
  fs_running :: "attempt_context list"
  fs_events :: "coordinator_event list"

definition emit :: "fan_system \<Rightarrow> coordinator \<Rightarrow> coordinator_event list \<Rightarrow> fan_system" where
  "emit s co es = s\<lparr>fs_coordinator := co, fs_events := fs_events s @ es\<rparr>"

inductive fan_step :: "fan_system \<Rightarrow> fan_system \<Rightarrow> bool" where
  fan_register: "register_harness (fs_coordinator s) h = (co, r) \<Longrightarrow> fan_step s (emit s co [])"
| fan_launch: "launch uuid (fs_coordinator s) request = Some (co, es, Inr attempts) \<Longrightarrow>
    fan_step s ((emit s co es)\<lparr>fs_queued := fs_queued s @ attempts\<rparr>)"
| fan_refused: "launch uuid (fs_coordinator s) request = Some (co, es, Inl e) \<Longrightarrow>
    fan_step s (emit s co es)"
| fan_begin: "fs_queued s = xs @ a # ys \<Longrightarrow> begin_attempt (fs_coordinator s) a = (co, es) \<Longrightarrow>
    fan_step s ((emit s co es)\<lparr>fs_queued := xs @ ys, fs_running := a # fs_running s\<rparr>)"
| fan_harness: "a \<in> set (fs_running s) \<Longrightarrow>
    fan_step s (emit s (fs_coordinator s) [EHarness (ac_agent_path a) detail])"
| fan_end: "fs_running s = xs @ a # ys \<Longrightarrow> end_attempt (fs_coordinator s) a result = (co, es) \<Longrightarrow>
    fan_step s ((emit s co es)\<lparr>fs_running := xs @ ys\<rparr>)"
| fan_accept: "accept (fs_coordinator s) path = Inr (co, es, n) \<Longrightarrow> fan_step s (emit s co es)"
| fan_rework: "rework_start (fs_coordinator s) i path parent feedback = (co, es, Inr a) \<Longrightarrow>
    fan_step s ((emit s co es)\<lparr>fs_queued := fs_queued s @ [a]\<rparr>)"
| fan_rework_refused: "rework_start (fs_coordinator s) i path parent feedback = (co, es, Inl e) \<Longrightarrow>
    fan_step s (emit s co es)"
| fan_interrupt: "interrupt (fs_coordinator s) path = (co, es, r) \<Longrightarrow> fan_step s (emit s co es)"

section \<open>The coordinator drives the control plane\<close>

abbreviation control_run :: "control_plane \<Rightarrow> control_plane \<Rightarrow> bool" where
  "control_run c d \<equiv> control_step\<^sup>*\<^sup>* (c, []) (d, [])"

lemma ct_status_ignore: "control_step\<^sup>*\<^sup>* (c, hs) (ignore_error c (set_status c p s), hs)"
  by (auto simp: ignore_error_def intro: ct_status split: sum.splits)

lemma ct_fail_ignore: "control_step\<^sup>*\<^sup>* (c, hs) (ignore_error c (control_fail c p e), hs)"
  by (auto simp: ignore_error_def intro: ct_fail split: sum.splits)

lemma drop_all_run: "control_step\<^sup>*\<^sup>* (c, rev hs) (foldl drop_spawn c hs, [])"
proof (induction hs arbitrary: c)
  case Nil
  then show ?case by simp
next
  case (Cons r hs)
  have "control_step (c, rev (r # hs)) (drop_spawn c r, rev hs)"
    using ct_drop [of c "rev hs" r "[]"] by simp
  with Cons [of "drop_spawn c r"] show ?case by (simp add: converse_rtranclp_into_rtranclp)
qed

lemma reserve_all_run:
  assumes "reserve_all c tasks = ((e, hs), d)"
  shows "control_step\<^sup>*\<^sup>* (c, gs) (d, rev hs @ gs)"
  using assms unfolding reserve_all_def
proof (induction tasks arbitrary: c e hs gs)
  case Nil
  then show ?case by simp
next
  case (Cons task tasks)
  show ?case
  proof (cases "reserve_spawn c agent_path_root task")
    case (Inl x)
    then show ?thesis using Cons.prems by simp
  next
    case (Inr q)
    obtain c' h where q: "q = (c', h)" by (cases q)
    obtain hs' where rest: "acquire_all (\<lambda>c (parent, task). reserve_spawn c parent task) c'
        (map (Pair agent_path_root) tasks) = ((e, hs'), d)" and hs: "hs = h # hs'"
      using Cons.prems Inr q by (auto split: prod.splits)
    have "control_step (c, gs) (c', h # gs)" using Inr q by (auto intro: ct_reserve)
    with Cons.IH [OF rest, of "h # gs"] show ?thesis
      by (simp add: hs converse_rtranclp_into_rtranclp)
  qed
qed



lemma commit_all_run:
  assumes "commit_all uuid c hs = Some (d, recs, e)"
  shows "control_step\<^sup>*\<^sup>* (c, rev hs) (d, [])"
  using assms
proof (induction uuid c hs arbitrary: recs rule: commit_all.induct)
  case (1 uuid c)
  then show ?case by simp
next
  case (2 uuid c r rs)
  obtain c' res where cr: "commit c r (uuid 0) = Some (c', res)"
    using "2.prems" by (auto split: option.splits)
  then have step: "control_step (c, rev (r # rs)) (c', rev rs)"
    using ct_commit [of c r "uuid 0" c' res "rev rs" "[]"] by simp
  show ?case
  proof (cases res)
    case (Inl x)
    then have "d = foldl drop_spawn c' rs" using "2.prems" cr by simp
    with drop_all_run [of c' rs] step show ?thesis by (simp add: converse_rtranclp_into_rtranclp)
  next
    case (Inr rec)
    then obtain recs' where "commit_all (\<lambda>n. uuid (Suc n)) c' rs = Some (d, recs', e)"
      using "2.prems" cr by (auto split: option.splits prod.splits)
    with "2.IH" [OF cr refl Inr] step show ?thesis by (simp add: converse_rtranclp_into_rtranclp)
  qed
qed

lemma run_intros:
  "control_decide c p d = Inr (c', n) \<Longrightarrow> control_step\<^sup>*\<^sup>* (c, hs) (c', hs)"
  "control_report c p rep = Inr (c', fresh) \<Longrightarrow> control_step\<^sup>*\<^sup>* (c, hs) (c', hs)"
  "set_status c p st = Inr (c', u) \<Longrightarrow> control_step\<^sup>*\<^sup>* (c, hs) (c', hs)"
  by (auto intro: ct_decide ct_report ct_status r_into_rtranclp [of control_step])

lemma launch_run:
  assumes "launch uuid co request = Some (co', es, r)"
  shows "control_run (co_control co) (co_control co')"
proof (cases "ad_admitted (evaluate (co_policy co) (fo_admission request))
    \<and> validate_contract co request = Inr ()")
  case False
  then show ?thesis using assms
    by (auto simp: launch_def Let_def split: sum.splits if_splits)
next
  case True
  obtain e hs c where reserved: "reserve_all (co_control co) (fo_tasks request) = ((e, hs), c)"
    by (metis surj_pair)
  have run: "control_step\<^sup>*\<^sup>* (co_control co, []) (c, rev hs)"
    using reserve_all_run [OF reserved, of "[]"] by simp
  show ?thesis
  proof (cases e)
    case (Some x)
    then have "co_control co' = foldl drop_spawn c hs"
      using assms True reserved by (auto simp: launch_def set_control_def Let_def)
    then show ?thesis using run drop_all_run [of c hs] by simp
  next
    case None
    then obtain c' recs x where c': "commit_all uuid c hs = Some (c', recs, x)"
      and co': "co_control co' = c'"
      using assms True reserved
      by (auto simp: launch_def set_control_def Let_def split: option.splits if_splits)
    from run commit_all_run [OF c'] show ?thesis unfolding co' by (rule rtranclp_trans)
  qed
qed

lemma fail_attempt_run:
  "fail_attempt co path error = (co', es) \<Longrightarrow> control_run (co_control co) (co_control co')"
  by (auto simp: fail_attempt_def set_control_def ct_fail_ignore)

lemma charge_budget_run: "control_step (co_control co, hs) (co_control (charge_budget co u), hs)"
  by (simp add: charge_budget_def set_control_def ct_budget)

lemma finish_attempt_run:
  assumes "finish_attempt co path task attempt result = (co', es)"
  shows "control_run (co_control co) (co_control co')"
proof -
  have "control_run (co_control (charge_budget co (ha_usage result))) (co_control co')"
    using assms
    by (auto simp: finish_attempt_def Let_def set_control_def fail_attempt_run
        intro: run_intros split: if_splits option.splits sum.splits)
  with charge_budget_run show ?thesis by (rule converse_rtranclp_into_rtranclp)
qed

lemma end_attempt_run:
  assumes "end_attempt co a result = (co', es)"
  shows "control_run (co_control co) (co_control co')"
proof (cases result)
  case (Inl e)
  then show ?thesis using assms fail_attempt_run [of "co\<lparr>co_active := om_remove
    (ac_agent_path a) (co_active co)\<rparr>"] by (simp add: end_attempt_def)
next
  case (Inr r)
  then show ?thesis using assms finish_attempt_run [of "co\<lparr>co_active := om_remove
    (ac_agent_path a) (co_active co)\<rparr>"] by (simp add: end_attempt_def)
qed

lemma accept_run:
  "accept co path = Inr (co', es, n) \<Longrightarrow> control_run (co_control co) (co_control co')"
  by (auto simp: accept_def result_simps set_control_def intro: run_intros)

lemma rework_run:
  assumes "rework_start co i path parent feedback = (co', es, r)"
  shows "control_run (co_control co) (co_control co')"
proof -
  have two: "control_decide c path d = Inr (c1, n) \<Longrightarrow> send_message c1 m = Inr c2 \<Longrightarrow>
      control_step\<^sup>*\<^sup>* (c, []) (c2, [])" for c c1 c2 n m d
    by (meson ct_decide ct_send converse_rtranclp_into_rtranclp r_into_rtranclp)
  show ?thesis using assms
    by (auto simp: rework_start_def set_control_def intro: run_intros two
        split: if_splits sum.splits prod.splits option.splits)
qed

lemma interrupt_run:
  assumes "interrupt co path = (co', es, r)"
  shows "control_run (co_control co) (co_control co')"
  using assms
  by (auto simp: interrupt_def set_control_def Let_def intro: run_intros
      split: if_splits sum.splits option.splits)

lemma register_run:
  "register_harness co h = (co', r) \<Longrightarrow> co_control co' = co_control co"
  by (auto simp: register_harness_def Let_def split: if_splits)

lemma fan_step_run:
  "fan_step s t \<Longrightarrow>
     control_run (co_control (fs_coordinator s)) (co_control (fs_coordinator t))"
proof (induction rule: fan_step.induct)
  case (fan_begin s xs a ys co es)
  then show ?case by (auto simp: begin_attempt_def emit_def ct_status_ignore)
qed (auto simp: emit_def register_run launch_run end_attempt_run accept_run rework_run interrupt_run)

section \<open>Which attempts are open\<close>

definition open_of :: "agent_record \<Rightarrow> (read_only_task \<times> u32) option" where
  "open_of rec =
     (if ar_report_status rec = RRunning \<or> ar_report_status rec = RRework
      then Some (ar_task rec, ar_attempt rec) else None)"

definition open_attempts :: "control_plane \<Rightarrow> agent_path \<Rightarrow> (read_only_task \<times> u32) option" where
  "open_attempts c p = Option.bind (om_get (agents c) p) open_of"

definition agent_task :: "control_plane \<Rightarrow> agent_path \<Rightarrow> read_only_task option" where
  "agent_task c p = map_option ar_task (om_get (agents c) p)"

definition attempt_key :: "attempt_context \<Rightarrow> agent_path \<times> (read_only_task \<times> u32)" where
  "attempt_key a = (ac_agent_path a, (ac_task a, ac_attempt a))"

lemma open_insert:
  "agents d = om_insert p rec (agents c) \<Longrightarrow>
     open_attempts d = (open_attempts c)(p := open_of rec)
     \<and> agent_task d = (agent_task c)(p \<mapsto> ar_task rec)"
  by (auto simp: open_attempts_def agent_task_def fun_eq_iff)

lemma open_cong:
  "agents d = agents c \<Longrightarrow> open_attempts d = open_attempts c \<and> agent_task d = agent_task c"
  by (auto simp: open_attempts_def agent_task_def fun_eq_iff)

lemma open_update:
  assumes "update_agent c p f = Inr (c', out)" and "\<forall>rec rec' out. f rec = Inr (rec', out) \<longrightarrow>
    ar_task rec' = ar_task rec"
  shows "\<exists>rec rec'. om_get (agents c) p = Some rec \<and> f rec = Inr (rec', out)
    \<and> open_attempts c' = (open_attempts c)(p := open_of rec') \<and> agent_task c' = agent_task c"
proof -
  obtain rec rec' where rec: "om_get (agents c) p = Some rec" "f rec = Inr (rec', out)"
    and c': "c' = set_agents c (om_insert p rec' (agents c))"
    using assms(1) by (auto simp: update_agent_Inr)
  have "agents c' = om_insert p rec' (agents c)" by (simp add: c')
  from open_insert [OF this] have "open_attempts c' = (open_attempts c)(p := open_of rec')"
    and "agent_task c' = (agent_task c)(p \<mapsto> ar_task rec')" by blast+
  moreover have "agent_task c p = Some (ar_task rec')"
    using rec assms(2) unfolding agent_task_def by (metis option.simps(9))
  ultimately show ?thesis using rec by (auto simp: fun_upd_idem)
qed

lemma open_status:
  assumes "set_status c p st = Inr (c', u)"
  shows "open_attempts c' = open_attempts c \<and> agent_task c' = agent_task c"
proof -
  from open_update [OF assms [unfolded set_status_def]]
  obtain rec where "om_get (agents c) p = Some rec"
    and "open_attempts c' = (open_attempts c)(p := open_of (rec\<lparr>ar_status := st\<rparr>))"
    and "agent_task c' = agent_task c" by auto
  then show ?thesis by (auto simp: open_attempts_def open_of_def fun_eq_iff)
qed

lemma open_status_ignore:
  "open_attempts (ignore_error c (set_status c p st)) = open_attempts c
   \<and> agent_task (ignore_error c (set_status c p st)) = agent_task c"
  by (auto simp: ignore_error_def open_status split: sum.splits)

lemma open_fail:
  assumes "om_get (agents c) p = Some rec"
  shows "open_attempts (ignore_error c (control_fail c p e)) = (open_attempts c)(p := None)
    \<and> agent_task (ignore_error c (control_fail c p e)) = agent_task c"
proof -
  obtain c' u where c': "control_fail c p e = Inr (c', u)"
    using assms by (auto simp: control_fail_def update_agent_def ok_or_def)
  from open_update [OF c' [unfolded control_fail_def]] show ?thesis
    by (auto simp: c' ignore_error_def open_of_def)
qed

lemma open_report:
  assumes "control_report c p report = Inr (c', fresh)"
    and "om_get (agents c) p = Some rec" and "ar_report rec = None"
  shows "open_attempts c' = (open_attempts c)(p := None) \<and> agent_task c' = agent_task c"
proof -
  have "\<forall>r r' out. report_record report r = Inr (r', out) \<longrightarrow> ar_task r' = ar_task r"
    by (auto simp: report_record_Inr split: if_splits)
  from open_update [OF assms(1) [unfolded control_report_def] this] obtain rec'
    where "report_record report rec = Inr (rec', fresh)"
    and "open_attempts c' = (open_attempts c)(p := open_of rec')" "agent_task c' = agent_task c"
    using assms(2) by auto
  then show ?thesis using assms(3) by (auto simp: report_record_Inr open_of_def)
qed

lemma open_accept:
  assumes "control_decide c p Accept = Inr (c', n)"
  shows "open_attempts c' = open_attempts c \<and> agent_task c' = agent_task c"
proof -
  have "\<forall>r r' out. decide_record Accept r = Inr (r', out) \<longrightarrow> ar_task r' = ar_task r"
    by (auto simp: decide_record_Inr)
  from open_update [OF assms [unfolded control_decide_def] this] obtain rec rec'
    where "om_get (agents c) p = Some rec" "decide_record Accept rec = Inr (rec', n)"
    and "open_attempts c' = (open_attempts c)(p := open_of rec')" "agent_task c' = agent_task c"
    by auto
  then show ?thesis
    by (auto simp: decide_record_Inr open_of_def open_attempts_def fun_eq_iff)
qed

lemma open_rework:
  assumes "control_decide c p Rework = Inr (c', n)"
  shows "\<exists>task. agent_task c p = Some task
    \<and> open_attempts c' = (open_attempts c)(p \<mapsto> (task, n)) \<and> agent_task c' = agent_task c
    \<and> open_attempts c p = None"
proof -
  have "\<forall>r r' out. decide_record Rework r = Inr (r', out) \<longrightarrow> ar_task r' = ar_task r"
    by (auto simp: decide_record_Inr)
  from open_update [OF assms [unfolded control_decide_def] this] obtain rec rec'
    where "om_get (agents c) p = Some rec" "decide_record Rework rec = Inr (rec', n)"
    and "open_attempts c' = (open_attempts c)(p := open_of rec')" "agent_task c' = agent_task c"
    by auto
  then show ?thesis
    by (auto simp: decide_record_Inr open_of_def open_attempts_def agent_task_def)
qed

lemma agents_send: "send_message c m = Inr c' \<Longrightarrow> agents c' = agents c"
  by (auto simp: send_message_def Let_def split: if_splits option.splits)

section \<open>Launching is all or nothing\<close>

definition reservation_key :: "spawn_reservation \<Rightarrow> agent_path \<times> (read_only_task \<times> u32)" where
  "reservation_key r = (sp_path r, (the (sp_task r), 1))"

definition record_key :: "agent_record \<Rightarrow> agent_path \<times> (read_only_task \<times> u32)" where
  "record_key rec = (ar_path rec, (ar_task rec, ar_attempt rec))"

definition key_task :: "agent_path \<times> (read_only_task \<times> u32) \<Rightarrow> agent_path \<times> read_only_task" where
  "key_task k = (fst k, fst (snd k))"

lemma map_add_cons_fresh:
  "k \<notin> fst ` set ps \<Longrightarrow> f(k \<mapsto> v) ++ map_of ps = f ++ map_of ((k, v) # ps)"
  by (auto simp: fun_eq_iff map_add_def dest: map_of_SomeD split: option.splits)
    (metis image_eqI fst_conv map_of_SomeD)

lemma commit_all_ok:
  assumes "control_ok (c, rev hs)"
  shows "\<exists>d recs. commit_all uuid c hs = Some (d, recs, None)
    \<and> map record_key recs = map reservation_key hs
    \<and> open_attempts d = open_attempts c ++ map_of (map reservation_key hs)
    \<and> agent_task d = agent_task c ++ map_of (map (key_task \<circ> reservation_key) hs)
    \<and> reserved_paths d = {}"
  using assms
proof (induction hs arbitrary: uuid c)
  case Nil
  then show ?case by (simp add: control_ok_def)
next
  case (Cons r hs)
  have R: "sp_path r \<in> reserved_paths c" and fresh: "sp_path r \<notin> sp_path ` set hs"
    using Cons.prems by (auto simp: control_ok_def)
  obtain task where task: "sp_task r = Some task"
    using Cons.prems by (auto simp: control_ok_def)
  obtain c' rec where c': "commit c r (uuid 0) = Some (c', Inr rec)"
    and rec: "record_key rec = reservation_key r" "ar_report_status rec = RRunning"
    and ag: "agents c' = om_insert (sp_path r) rec (agents c)"
    using commit_live [OF R task, of "uuid 0"]
    by (auto simp: record_key_def reservation_key_def task)
  have "control_ok (c', rev hs)"
    using control_ok_commit [of c "rev hs" r "[]"] Cons.prems c' by simp
  from Cons.IH [OF this, of "\<lambda>n. uuid (Suc n)"] obtain d recs
    where d: "commit_all (\<lambda>n. uuid (Suc n)) c' hs = Some (d, recs, None)"
    "map record_key recs = map reservation_key hs"
    "open_attempts d = open_attempts c' ++ map_of (map reservation_key hs)"
    "agent_task d = agent_task c' ++ map_of (map (key_task \<circ> reservation_key) hs)"
    "reserved_paths d = {}" by blast
  have keys: "sp_path r \<notin> fst ` set (map reservation_key hs)"
    "sp_path r \<notin> fst ` set (map (key_task \<circ> reservation_key) hs)"
    using fresh by (auto simp: reservation_key_def key_task_def)
  have opened: "open_attempts c' = (open_attempts c)(sp_path r \<mapsto> (task, 1))"
    "agent_task c' = (agent_task c)(sp_path r \<mapsto> task)"
    using open_insert [OF ag] rec
    by (simp_all add: open_of_def record_key_def reservation_key_def task)
  have r: "reservation_key r = (sp_path r, (task, 1))"
    "(key_task \<circ> reservation_key) r = (sp_path r, task)"
    by (simp_all add: reservation_key_def key_task_def task)
  have opens: "open_attempts d = open_attempts c ++ map_of (map reservation_key (r # hs))"
    "agent_task d = agent_task c ++ map_of (map (key_task \<circ> reservation_key) (r # hs))"
    unfolding d(3,4) opened list.map r
    by (rule map_add_cons_fresh [OF keys(1)], rule map_add_cons_fresh [OF keys(2)])
  have "commit_all uuid c (r # hs) = Some (d, rec # recs, None)"
    and "map record_key (rec # recs) = map reservation_key (r # hs)"
    using d(1,2) c' rec(1) by simp_all
  with opens d(5) show ?case by blast
qed

lemma reserve_all_keys:
  assumes "reserve_all c tasks = ((None, hs), d)"
  shows "map (the \<circ> sp_task) hs = tasks \<and> agents d = agents c
    \<and> (\<forall>r\<in>set hs. agent_path_child agent_path_root (rt_id (the (sp_task r))) = Inr (sp_path r))"
  using assms unfolding reserve_all_def
proof (induction tasks arbitrary: c hs)
  case Nil
  then show ?case by simp
next
  case (Cons task tasks)
  obtain c' h where h: "reserve_spawn c agent_path_root task = Inr (c', h)"
    using Cons.prems by (cases "reserve_spawn c agent_path_root task") auto
  obtain hs' where rest: "acquire_all (\<lambda>c (parent, task). reserve_spawn c parent task) c'
        (map (Pair agent_path_root) tasks) = ((None, hs'), d)" and hs: "hs = h # hs'"
    using Cons.prems h by (auto split: prod.splits)
  from Cons.IH [OF rest] h show ?case by (auto simp: hs reserve_spawn_Inr)
qed

lemma validate_contract_harness:
  assumes "validate_contract co request = Inr ()" and "task \<in> set (fo_tasks request)"
  shows "co_harnesses co (rt_harness task) \<noteq> None"
  using assms
  by (auto simp: validate_contract_def check_task_def result_simps Let_def split: if_splits)

text \<open>The \<open>expect\<close> on the estimate of a task: the two sets of ids are equal by then.\<close>

lemma validate_contract_no_panic: "validate_contract co request \<noteq> Inl CPanicked"
proof
  assume panic: "validate_contract co request = Inl CPanicked"
  then have ids: "set (map ws_task_id (rq_workstreams (fo_admission request)))
      = set (map rt_id (fo_tasks request))"
    by (auto simp: validate_contract_def Let_def split: if_splits)
  have "check_all (check_task co request) (fo_tasks request) = Inl CPanicked"
    using panic by (auto simp: validate_contract_def Let_def split: if_splits)
  then obtain ys task zs where "fo_tasks request = ys @ task # zs"
      and panicked: "check_task co request task = Inl CPanicked"
    unfolding check_all_Inl_iff by blast
  then have task: "task \<in> set (fo_tasks request)" "check_task co request task = Inl CPanicked"
    by simp_all
  have "List.find (\<lambda>w. ws_task_id w = rt_id task) (rq_workstreams (fo_admission request)) \<noteq> None"
    using ids task(1) by (auto simp: find_None_iff) (metis image_eqI image_iff)
  with task(2) show False
    by (auto simp: check_task_def bind_res_Inl_iff ok_or_def ensure_def split: if_splits option.splits)
qed

lemma set_control_simps [simp]:
  "co_control (set_control co c) = c" "co_active (set_control co c) = co_active co"
  "co_harnesses (set_control co c) = co_harnesses co" "co_policy (set_control co c) = co_policy co"
  "set_control co (co_control co) = co"
  by (simp_all add: set_control_def)

lemma launch_cases:
  assumes "control_ok (co_control co, [])"
  obtains (refused) e where "launch uuid co request = Some (co, [], Inl e)"
  | (launched) d recs where
      "launch uuid co request = Some (set_control co d, map queued_event recs,
         Inr (map (attempt_of request) recs))"
      "ad_admitted (evaluate (co_policy co) (fo_admission request))"
      "validate_contract co request = Inr ()"
      "map ar_task recs = fo_tasks request"
      "\<forall>rec\<in>set recs. ar_attempt rec = 1
        \<and> agent_path_child agent_path_root (rt_id (ar_task rec)) = Inr (ar_path rec)"
      "distinct (map ar_path recs)"
      "\<forall>rec\<in>set recs. om_get (agents (co_control co)) (ar_path rec) = None"
      "open_attempts d = open_attempts (co_control co) ++ map_of (map record_key recs)"
      "agent_task d = agent_task (co_control co) ++ map_of (map (key_task \<circ> record_key) recs)"
      "reserved_paths d = {}"
proof (cases "ad_admitted (evaluate (co_policy co) (fo_admission request))
    \<and> validate_contract co request = Inr ()")
  case False
  then have "\<exists>e. launch uuid co request = Some (co, [], Inl e)"
    using validate_contract_no_panic [of co request]
    by (auto simp: launch_def Let_def split: sum.splits)
  then show ?thesis using refused by blast
next
  case True
  let ?c = "co_control co"
  obtain e hs d where reserved: "reserve_all ?c (fo_tasks request) = ((e, hs), d)"
    by (metis surj_pair)
  have rollback: "foldl drop_spawn d hs = ?c"
    using reserved unfolding reserve_all_def by (rule spawns.acquire_all_rollback)
  show ?thesis
  proof (cases e)
    case (Some x)
    then have "launch uuid co request = Some (co, [], Inl (CControl x))"
      using True reserved rollback by (simp add: launch_def Let_def)
    then show ?thesis by (rule refused)
  next
    case None
    have ok: "control_ok (d, rev hs)"
      using control.inv_reachable [OF reserve_all_run [OF reserved, of "[]"]] assms by simp
    have keys: "map (the \<circ> sp_task) hs = fo_tasks request" "agents d = agents ?c"
      "\<forall>r\<in>set hs. agent_path_child agent_path_root (rt_id (the (sp_task r))) = Inr (sp_path r)"
      using reserve_all_keys reserved None by blast+
    obtain d' recs where d': "commit_all uuid d hs = Some (d', recs, None)"
      "map record_key recs = map reservation_key hs"
      "open_attempts d' = open_attempts d ++ map_of (map reservation_key hs)"
      "agent_task d' = agent_task d ++ map_of (map (key_task \<circ> reservation_key) hs)"
      "reserved_paths d' = {}"
      using commit_all_ok [OF ok, of uuid] by blast
    have proj: "map (f \<circ> record_key) recs = map (f \<circ> reservation_key) hs" for f :: "_ \<Rightarrow> 'z"
      using arg_cong [OF d'(2), of "map f"] by simp
    have tasks: "map ar_task recs = fo_tasks request"
      using arg_cong [OF d'(2), of "map (fst \<circ> snd)"] keys(1)
      by (simp add: record_key_def reservation_key_def comp_def)
    have paths: "map ar_path recs = map sp_path hs"
      using arg_cong [OF d'(2), of "map fst"]
      by (simp add: record_key_def reservation_key_def comp_def)
    have key_task_eq: "map (key_task \<circ> record_key) recs = map (key_task \<circ> reservation_key) hs"
      using arg_cong [OF d'(2), of "map key_task"] by simp
    have each: "\<exists>r\<in>set hs. record_key rec = reservation_key r" if "rec \<in> set recs" for rec
    proof -
      have "record_key rec \<in> set (map record_key recs)" using that by simp
      then show ?thesis unfolding d'(2) by auto
    qed
    have known: "\<not> list_ex (\<lambda>rec. co_harnesses co (rt_harness (ar_task rec)) = None) recs"
      using tasks validate_contract_harness [of co request] True
      by (auto simp: list_ex_iff) (metis image_eqI list.set_map)
    show ?thesis
    proof (rule launched)
      show "launch uuid co request = Some (set_control co d', map queued_event recs,
         Inr (map (attempt_of request) recs))"
        using True reserved None d'(1) known by (simp add: launch_def Let_def)
      show "\<forall>rec\<in>set recs. ar_attempt rec = 1
        \<and> agent_path_child agent_path_root (rt_id (ar_task rec)) = Inr (ar_path rec)"
        using each keys(3) by (fastforce simp: record_key_def reservation_key_def)
      show "distinct (map ar_path recs)"
        using ok unfolding paths by (simp add: control_ok_def rev_map [symmetric])
      have "\<forall>r\<in>set hs. om_get (agents d) (sp_path r) = None"
        using ok by (simp add: control_ok_def)
      then show "\<forall>rec\<in>set recs. om_get (agents ?c) (ar_path rec) = None"
        using each unfolding keys(2) by (fastforce simp: record_key_def reservation_key_def)
      show "open_attempts d' = open_attempts ?c ++ map_of (map record_key recs)"
        using d'(2,3) open_cong [OF keys(2)] by simp
      show "agent_task d' = agent_task ?c ++ map_of (map (key_task \<circ> record_key) recs)"
        using d'(4) key_task_eq open_cong [OF keys(2)] by simp
    qed (use True tasks d'(5) in simp_all)
  qed
qed

section \<open>Invariant\<close>

definition pending :: "fan_system \<Rightarrow> attempt_context list" where
  "pending s = fs_queued s @ fs_running s"

definition fan_control :: "fan_system \<Rightarrow> control_plane" where
  "fan_control s = co_control (fs_coordinator s)"

definition fan_ok :: "fan_system \<Rightarrow> bool" where
  "fan_ok s \<longleftrightarrow>
     control_ok (fan_control s, [])
     \<and> om_wf (co_active (fs_coordinator s))
     \<and> dom (om_get (co_active (fs_coordinator s))) = ac_agent_path ` set (fs_running s)
     \<and> distinct (map ac_agent_path (pending s))
     \<and> open_attempts (fan_control s) = map_of (map attempt_key (pending s))
     \<and> (\<forall>p task. agent_task (fan_control s) p = Some task \<longrightarrow>
          co_harnesses (fs_coordinator s) (rt_harness task) \<noteq> None)"

lemma attempt_key_fst: "map fst (map attempt_key as) = map ac_agent_path as"
  by (simp add: attempt_key_def)

lemma map_of_attempts_cong:
  assumes "distinct (map ac_agent_path as)" and "distinct (map ac_agent_path bs)"
    and "set as = set bs"
  shows "map_of (map attempt_key as) = map_of (map attempt_key bs)"
  by (subst map_of_inject_set) (use assms in \<open>simp_all only: attempt_key_fst set_map\<close>)

lemma map_of_attempts_without:
  assumes "distinct (map ac_agent_path (xs @ a # ys))"
  shows "map_of (map attempt_key (xs @ ys))
    = (map_of (map attempt_key (xs @ a # ys)))(ac_agent_path a := None)"
proof -
  have "ac_agent_path a \<notin> fst ` set (map attempt_key (xs @ ys))"
    using assms by (auto simp: attempt_key_def)
  then have "map_of (map attempt_key (xs @ ys)) (ac_agent_path a) = None"
    by (simp only: map_of_eq_None_iff not_False_eq_True)
  then show ?thesis
    by (auto simp: fun_eq_iff map_add_def attempt_key_def split: option.splits)
qed

lemma map_of_attempts_member:
  assumes "distinct (map ac_agent_path as)" and "a \<in> set as"
  shows "map_of (map attempt_key as) (ac_agent_path a) = Some (ac_task a, ac_attempt a)"
proof (rule map_of_is_SomeI)
  show "distinct (map fst (map attempt_key as))" using assms(1) by (simp only: attempt_key_fst)
  show "(ac_agent_path a, (ac_task a, ac_attempt a)) \<in> set (map attempt_key as)"
    using assms(2) by (force simp: attempt_key_def)
qed

lemma fan_ok_pending:
  assumes "fan_ok s" and "a \<in> set (pending s)"
  shows "\<exists>rec. om_get (agents (fan_control s)) (ac_agent_path a) = Some rec
    \<and> ar_task rec = ac_task a \<and> ar_attempt rec = ac_attempt a \<and> ar_report rec = None
    \<and> (ar_report_status rec = RRunning \<or> ar_report_status rec = RRework)"
proof -
  have "open_attempts (fan_control s) (ac_agent_path a) = Some (ac_task a, ac_attempt a)"
    using assms by (simp add: fan_ok_def map_of_attempts_member)
  then obtain rec where rec: "om_get (agents (fan_control s)) (ac_agent_path a) = Some rec"
    and "open_of rec = Some (ac_task a, ac_attempt a)"
    by (auto simp: open_attempts_def bind_eq_Some_conv)
  moreover have "record_ok (ac_agent_path a) rec"
    using assms(1) rec by (simp add: fan_ok_def control_ok_def)
  ultimately show ?thesis by (auto simp: open_of_def record_ok_def split: if_splits)
qed

text \<open>Steps that leave the attempts alone.\<close>

lemma fan_ok_keep:
  assumes "fan_ok s" and "control_ok (fan_control t, [])"
    and "om_wf (co_active (fs_coordinator t))"
    and "dom (om_get (co_active (fs_coordinator t))) = dom (om_get (co_active (fs_coordinator s)))"
    and "fs_queued t = fs_queued s" and "fs_running t = fs_running s"
    and "open_attempts (fan_control t) = open_attempts (fan_control s)
      \<and> agent_task (fan_control t) = agent_task (fan_control s)"
    and "\<forall>h. co_harnesses (fs_coordinator s) h \<noteq> None \<longrightarrow>
      co_harnesses (fs_coordinator t) h \<noteq> None"
  shows "fan_ok t"
  using assms unfolding fan_ok_def pending_def by metis

text \<open>What ending an attempt does to the control plane and to the registered tokens.\<close>

lemma end_attempt_effect:
  assumes ok: "fan_ok s" and a: "a \<in> set (pending s)"
    and e: "end_attempt (fs_coordinator s) a result = (co, es)"
  shows "open_attempts (co_control co) = (open_attempts (fan_control s))(ac_agent_path a := None)
    \<and> agent_task (co_control co) = agent_task (fan_control s)
    \<and> co_active co = om_remove (ac_agent_path a) (co_active (fs_coordinator s))
    \<and> co_harnesses co = co_harnesses (fs_coordinator s)"
proof -
  let ?c = "co_control (fs_coordinator s)"
  obtain rec where rec: "om_get (agents ?c) (ac_agent_path a) = Some rec" "ar_report rec = None"
    using fan_ok_pending [OF ok a] by (auto simp: fan_control_def)
  have failed: "open_attempts (ignore_error c (control_fail c (ac_agent_path a) x))
        = (open_attempts c)(ac_agent_path a := None)
      \<and> agent_task (ignore_error c (control_fail c (ac_agent_path a) x)) = agent_task c"
    if "agents c = agents ?c" for c x
    using open_fail [of c "ac_agent_path a" rec x] rec that by simp
  have reported: "open_attempts c' = (open_attempts c)(ac_agent_path a := None)
      \<and> agent_task c' = agent_task c"
    if "control_report c (ac_agent_path a) r = Inr (c', f)" "agents c = agents ?c" for c c' f r
    using open_report [OF that(1), of rec] rec that(2) by simp
  have charged: "open_attempts (?c\<lparr>cp_budget := b\<rparr>) = open_attempts ?c"
    "agent_task (?c\<lparr>cp_budget := b\<rparr>) = agent_task ?c" for b
    using open_cong [of "?c\<lparr>cp_budget := b\<rparr>" ?c] by simp_all
  show ?thesis
    using e failed reported charged
    by (auto simp: end_attempt_def finish_attempt_def fail_attempt_def charge_budget_def
        fan_control_def Let_def set_control_def split: sum.splits if_splits option.splits)
qed

lemma fan_ok_control: "fan_ok s \<Longrightarrow> control_ok (co_control (fs_coordinator s), [])"
  by (simp add: fan_ok_def fan_control_def)

lemma control_ok_fan_step:
  assumes "fan_ok s" and "fan_step s t"
  shows "control_ok (fan_control t, [])"
  using control.inv_reachable [OF fan_step_run [OF assms(2)] fan_ok_control [OF assms(1)]]
  by (simp add: fan_control_def)

lemma attempt_of_key: "attempt_key (attempt_of request rec) = record_key rec"
  by (simp add: attempt_key_def attempt_of_def record_key_def)

lemma fan_ok_launch:
  assumes ok: "fan_ok s"
    and l: "launch uuid (fs_coordinator s) request = Some (co, es, Inr attempts)"
  shows "fan_ok ((emit s co es)\<lparr>fs_queued := fs_queued s @ attempts\<rparr>)" (is "fan_ok ?t")
proof (cases rule: launch_cases
    [OF fan_ok_control [OF ok], where uuid = uuid and request = request, case_names refused launched])
  case (refused e)
  with l show ?thesis by simp
next
  case (launched d recs)
  have co: "co = set_control (fs_coordinator s) d" and attempts: "attempts = map (attempt_of request) recs"
    using l launched(1) by simp_all
  have keys: "map attempt_key attempts = map record_key recs"
    by (simp add: attempts attempt_of_key comp_def)
  have paths: "map ac_agent_path attempts = map ar_path recs"
    by (simp add: attempts attempt_of_def comp_def)
  have apart: "ac_agent_path ` set (pending s) \<inter> ar_path ` set recs = {}"
    using fan_ok_pending [OF ok] launched(7) by (fastforce simp: fan_control_def)
  have distinct: "distinct (map ac_agent_path (attempts @ pending s))"
    using ok launched(6) apart
    by (simp only: map_append distinct_append paths set_map fan_ok_def) blast
  have "set (pending ?t) = set (attempts @ pending s)" by (auto simp: pending_def emit_def)
  moreover have distinct': "distinct (map ac_agent_path (pending ?t))"
    using distinct by (auto simp: pending_def emit_def)
  ultimately have "map_of (map attempt_key (pending ?t))
      = map_of (map attempt_key (attempts @ pending s))"
    using map_of_attempts_cong distinct by blast
  also have "\<dots> = map_of (map attempt_key (pending s)) ++ map_of (map record_key recs)"
    by (simp only: map_append map_of_append keys)
  also have "\<dots> = open_attempts d"
    using ok launched(8) by (simp add: fan_ok_def fan_control_def)
  finally have opens: "open_attempts d = map_of (map attempt_key (pending ?t))" by simp
  have "co_harnesses (fs_coordinator s) (rt_harness task) \<noteq> None"
    if "agent_task d p = Some task" for p task
  proof (cases "map_of (map (key_task \<circ> record_key) recs) p")
    case None
    then have "agent_task (co_control (fs_coordinator s)) p = Some task"
      using that launched(9) by (simp add: map_add_def)
    then show ?thesis using ok unfolding fan_ok_def fan_control_def by blast
  next
    case (Some task')
    then have "task = task'" using that launched(9) by (simp add: map_add_def)
    moreover have "task' \<in> set (map ar_task recs)"
      using map_of_SomeD [OF Some] by (auto simp: key_task_def record_key_def)
    ultimately show ?thesis
      using validate_contract_harness [OF launched(3)] launched(4) by metis
  qed
  moreover have "control_ok (d, [])"
    using control_ok_fan_step [OF ok fan_launch [OF l]] by (simp add: fan_control_def emit_def co)
  ultimately show ?thesis
    using ok opens distinct' by (auto simp: fan_ok_def fan_control_def emit_def co)
qed

lemma fan_ok_begin:
  assumes ok: "fan_ok s" and q: "fs_queued s = xs @ a # ys"
    and b: "begin_attempt (fs_coordinator s) a = (co, es)"
  shows "fan_ok ((emit s co es)\<lparr>fs_queued := xs @ ys, fs_running := a # fs_running s\<rparr>)"
    (is "fan_ok ?t")
proof -
  have set_eq: "set (pending ?t) = set (pending s)" by (auto simp: pending_def emit_def q)
  have distinct: "distinct (map ac_agent_path (pending ?t))"
    using ok by (auto simp: fan_ok_def pending_def emit_def q)
  have control: "control_ok (fan_control ?t, [])"
    by (rule control_ok_fan_step [OF ok fan_begin [OF q b]])
  have active: "co_active co = om_insert (ac_agent_path a) False (co_active (fs_coordinator s))"
    and harnesses: "co_harnesses co = co_harnesses (fs_coordinator s)"
    and opens: "open_attempts (co_control co) = open_attempts (fan_control s)"
      "agent_task (co_control co) = agent_task (fan_control s)"
    using b open_status_ignore by (auto simp: begin_attempt_def fan_control_def)
  have "map_of (map attempt_key (pending ?t)) = map_of (map attempt_key (pending s))"
    using map_of_attempts_cong [OF distinct _ set_eq] ok by (simp add: fan_ok_def)
  moreover have "dom (om_get (co_active co))
      = insert (ac_agent_path a) (dom (om_get (co_active (fs_coordinator s))))"
    by (simp only: active dom_om_insert)
  then have "dom (om_get (co_active co)) = ac_agent_path ` set (a # fs_running s)"
    using ok by (simp add: fan_ok_def)
  moreover have "om_wf (co_active co)" using ok by (simp add: active fan_ok_def)
  ultimately show ?thesis
    using ok control distinct harnesses opens
    by (simp add: fan_ok_def fan_control_def emit_def)
qed

lemma fan_ok_end:
  assumes ok: "fan_ok s" and r: "fs_running s = xs @ a # ys"
    and e: "end_attempt (fs_coordinator s) a result = (co, es)"
  shows "fan_ok ((emit s co es)\<lparr>fs_running := xs @ ys\<rparr>)" (is "fan_ok ?t")
proof -
  have a: "a \<in> set (pending s)" by (simp add: pending_def r)
  have control: "control_ok (fan_control ?t, [])"
    by (rule control_ok_fan_step [OF ok fan_end [OF r e]])
  have old: "distinct (map ac_agent_path ((fs_queued s @ xs) @ a # ys))"
    using ok by (simp add: fan_ok_def pending_def r)
  have pend: "pending s = (fs_queued s @ xs) @ a # ys" "pending ?t = (fs_queued s @ xs) @ ys"
    by (simp_all add: pending_def r emit_def)
  note effect = end_attempt_effect [OF ok a e]
  have opens: "open_attempts (co_control co) = map_of (map attempt_key (pending ?t))"
    unfolding pend(2) map_of_attempts_without [OF old]
    using effect ok pend(1) by (simp add: fan_ok_def)
  have "ac_agent_path ` set (xs @ ys) = ac_agent_path ` set (fs_running s) - {ac_agent_path a}"
    unfolding r using old by (auto simp: image_iff)
  moreover have "om_wf (co_active (fs_coordinator s))" using ok by (simp add: fan_ok_def)
  ultimately have "dom (om_get (co_active co)) = ac_agent_path ` set (xs @ ys)"
    using effect ok by (simp only: fan_ok_def dom_om_remove)
  moreover have "om_wf (co_active co)" using effect ok by (simp add: fan_ok_def)
  moreover have "distinct (map ac_agent_path (pending ?t))" unfolding pend(2) using old by auto
  ultimately show ?thesis
    using control opens effect ok
    by (simp add: fan_ok_def fan_control_def emit_def)
qed

text \<open>
  In a consistent system \<open>rework\<close> either stops before it changes anything or starts the next
  attempt of the agent.
\<close>

lemma rework_cases:
  assumes ok: "fan_ok s"
  obtains (refused) e where
      "rework_start (fs_coordinator s) i path parent feedback = (fs_coordinator s, [], Inl e)"
  | (started) d task n where
      "rework_start (fs_coordinator s) i path parent feedback =
         (set_control (fs_coordinator s) d, [EReworkRequested path n feedback],
          Inr \<lparr>ac_orchestration_id = i, ac_agent_path = path, ac_task = task, ac_attempt = n,
               ac_parent_context = parent, ac_feedback = Some feedback\<rparr>)"
      "open_attempts (fan_control s) path = None"
      "open_attempts d = (open_attempts (fan_control s))(path \<mapsto> (task, n))"
      "agent_task d = agent_task (fan_control s)"
proof -
  let ?co = "fs_coordinator s"
  let ?c = "co_control ?co"
  consider (blank) "blank feedback" | (exhausted) "exhausted (snap_budget (control_snapshot_of ?c))"
    | (undecided) e where "\<not> blank feedback" "control_decide ?c path Rework = Inl e"
    | (decided) c' n where "\<not> blank feedback"
        "\<not> exhausted (snap_budget (control_snapshot_of ?c))"
        "control_decide ?c path Rework = Inr (c', n)"
    by (metis old.sum.exhaust surj_pair)
  then show ?thesis
  proof cases
    case blank
    then show ?thesis by (intro refused) (simp add: rework_start_def)
  next
    case exhausted
    then show ?thesis
      by (cases "blank feedback") (auto intro: refused simp: rework_start_def)
  next
    case (undecided e)
    then show ?thesis
      by (cases "exhausted (snap_budget (control_snapshot_of ?c))")
        (auto intro: refused simp: rework_start_def)
  next
    case (decided c' n)
    obtain task where task: "agent_task ?c path = Some task"
      and opens: "open_attempts c' = (open_attempts ?c)(path \<mapsto> (task, n))"
        "agent_task c' = agent_task ?c" "open_attempts ?c path = None"
      using open_rework [OF decided(3)] by blast
    obtain rec where rec: "om_get (agents c') path = Some rec" "ar_task rec = task"
      "ar_report_status rec = RRework"
      using decided(3)
      by (auto simp: control_decide_def update_agent_Inr decide_record_Inr)
        (use task in \<open>auto simp: agent_task_def\<close>)
    define m where "m = \<lparr>msg_sender = agent_path_root, msg_target = path, msg_body = feedback,
      msg_mode = TriggerTurn\<rparr>"
    obtain d where d: "send_message c' m = Inr d"
      using rec decided(1) by (simp add: send_message_def m_def Let_def)
    obtain h where h: "co_harnesses ?co (rt_harness task) = Some h"
      using ok task unfolding fan_ok_def fan_control_def by blast
    show ?thesis
    proof (rule started)
      show "rework_start ?co i path parent feedback =
         (set_control ?co d, [EReworkRequested path n feedback],
          Inr \<lparr>ac_orchestration_id = i, ac_agent_path = path, ac_task = task, ac_attempt = n,
               ac_parent_context = parent, ac_feedback = Some feedback\<rparr>)"
        using decided rec h d [unfolded m_def]
        by (simp add: rework_start_def control_agent_def)
    qed (use opens open_cong [OF agents_send [OF d]] in \<open>simp_all add: fan_control_def\<close>)
  qed
qed

lemma fan_ok_rework:
  assumes ok: "fan_ok s"
    and r: "rework_start (fs_coordinator s) i path parent feedback = (co, es, Inr a)"
  shows "fan_ok ((emit s co es)\<lparr>fs_queued := fs_queued s @ [a]\<rparr>)" (is "fan_ok ?t")
proof (cases rule: rework_cases [OF ok, where i = i and path = path and parent = parent
      and feedback = feedback, case_names refused started])
  case (refused e)
  with r show ?thesis by simp
next
  case (started d task n)
  have co: "co = set_control (fs_coordinator s) d" and key: "attempt_key a = (path, (task, n))"
    and path: "ac_agent_path a = path"
    using r started(1) by (auto simp: attempt_key_def)
  have "path \<notin> fst ` set (map attempt_key (pending s))"
    using started(2) ok by (simp only: map_of_eq_None_iff [symmetric] fan_ok_def)
  then have fresh: "path \<notin> ac_agent_path ` set (pending s)" by (simp add: attempt_key_def image_image)
  then have distinct: "distinct (map ac_agent_path (a # pending s))"
    using ok path by (simp add: fan_ok_def)
  have distinct': "distinct (map ac_agent_path (pending ?t))"
    using distinct by (auto simp: pending_def emit_def)
  have "set (pending ?t) = set (a # pending s)" by (auto simp: pending_def emit_def)
  then have "map_of (map attempt_key (pending ?t)) = map_of (map attempt_key (a # pending s))"
    using map_of_attempts_cong [OF distinct' distinct] by blast
  also have "\<dots> = open_attempts d"
    using ok started(3) by (simp add: key fan_ok_def)
  finally have opens: "open_attempts d = map_of (map attempt_key (pending ?t))" by simp
  have "control_ok (fan_control ?t, [])"
    by (rule control_ok_fan_step [OF ok fan_rework [OF r]])
  then show ?thesis
    using ok opens distinct' started(4) by (auto simp: fan_ok_def fan_control_def emit_def co)
qed

lemma interrupt_effect:
  assumes "interrupt co path = (co', es, r)"
  shows "open_attempts (co_control co') = open_attempts (co_control co)
    \<and> agent_task (co_control co') = agent_task (co_control co)
    \<and> co_harnesses co' = co_harnesses co
    \<and> dom (om_get (co_active co')) = dom (om_get (co_active co))
    \<and> (om_wf (co_active co) \<longrightarrow> om_wf (co_active co'))"
proof (cases "control_agent (co_control co) path")
  case None
  with assms show ?thesis by (simp add: interrupt_def)
next
  case (Some rec)
  define co1 where "co1 = (if om_contains (co_active co) path
    then co\<lparr>co_active := om_insert path True (co_active co)\<rparr> else co)"
  have co1: "co_control co1 = co_control co" "co_harnesses co1 = co_harnesses co"
    "om_wf (co_active co) \<longrightarrow> om_wf (co_active co1)" by (auto simp: co1_def)
  have "path \<in> dom (om_get (co_active co))" if "om_contains (co_active co) path"
    using that by (auto simp: om_contains_def)
  then have "dom (om_get (co_active co1)) = dom (om_get (co_active co))"
    unfolding co1_def by (simp only: dom_om_insert insert_absorb split: if_splits)
      (simp add: dom_om_insert insert_absorb del: map_of_om_insert)
  moreover have "(co' = co1) \<or> (\<exists>c u. set_status (co_control co1) path Interrupted = Inr (c, u)
      \<and> co' = set_control co1 c)"
    using assms Some
    by (auto simp: interrupt_def co1_def [symmetric] Let_def split: sum.splits prod.splits)
  ultimately show ?thesis using co1 open_status by fastforce
qed

lemma fan_ok_same:
  assumes "fan_ok s"
  shows "fan_ok (emit s (fs_coordinator s) es)"
  using assms by (simp add: fan_ok_def fan_control_def emit_def pending_def)

lemma fan_ok_step: "fan_step s t \<Longrightarrow> fan_ok s \<Longrightarrow> fan_ok t"
proof (induction rule: fan_step.induct)
  case (fan_register s h co r)
  then have "fan_control (emit s co []) = fan_control s" "co_active co = co_active (fs_coordinator s)"
    "\<forall>i. co_harnesses (fs_coordinator s) i \<noteq> None \<longrightarrow> co_harnesses co i \<noteq> None"
    by (auto simp: register_harness_def fan_control_def emit_def Let_def split: if_splits)
  then show ?case
    using fan_register(2) by (auto simp: fan_ok_def emit_def pending_def)
next
  case (fan_launch uuid s request co es attempts)
  then show ?case by (simp add: fan_ok_launch)
next
  case (fan_refused uuid s request co es e)
  show ?case
  proof (cases rule: launch_cases [OF fan_ok_control [OF fan_refused(2)],
      where uuid = uuid and request = request, case_names refused launched])
    case (refused x)
    then have "co = fs_coordinator s" using fan_refused(1) by simp
    then show ?thesis using fan_refused(2) by (simp add: fan_ok_same)
  qed (use fan_refused(1) in simp)
next
  case (fan_begin s xs a ys co es)
  then show ?case by (simp add: fan_ok_begin)
next
  case (fan_harness a s detail)
  then show ?case by (simp add: fan_ok_same)
next
  case (fan_end s xs a ys result co es)
  then show ?case by (simp add: fan_ok_end)
next
  case (fan_accept s path co es n)
  obtain c where c: "control_decide (fan_control s) path Accept = Inr (c, n)"
    and co: "co = set_control (fs_coordinator s) c"
    using fan_accept(1) by (auto simp: accept_def result_simps fan_control_def)
  have "control_ok (fan_control (emit s co es), [])"
    by (rule control_ok_fan_step [OF fan_accept(2) fan_step.fan_accept [OF fan_accept(1)]])
  then show ?case
    using fan_accept(2) open_accept [OF c]
    by (auto simp: fan_ok_def fan_control_def emit_def pending_def co)
next
  case (fan_rework s i path parent feedback co es a)
  then show ?case by (simp add: fan_ok_rework)
next
  case (fan_rework_refused s i path parent feedback co es e)
  show ?case
  proof (cases rule: rework_cases [OF fan_rework_refused(2), where i = i and path = path
      and parent = parent and feedback = feedback, case_names refused started])
    case (refused x)
    then have "co = fs_coordinator s" using fan_rework_refused(1) by simp
    then show ?thesis using fan_rework_refused(2) by (simp add: fan_ok_same)
  qed (use fan_rework_refused(1) in simp)
next
  case (fan_interrupt s path co es r)
  have "control_ok (fan_control (emit s co es), [])"
    by (rule control_ok_fan_step [OF fan_interrupt(2) fan_step.fan_interrupt [OF fan_interrupt(1)]])
  then show ?case
    using fan_interrupt(2) interrupt_effect [OF fan_interrupt(1)]
    by (auto simp: fan_ok_def fan_control_def emit_def pending_def)
qed

interpretation fan: state_machine fan_step fan_ok
  by unfold_locales (rule fan_ok_step)

definition fan_start :: "coordinator \<Rightarrow> fan_system" where
  "fan_start co = \<lparr>fs_coordinator = co, fs_queued = [], fs_running = [], fs_events = []\<rparr>"

lemma fan_ok_start:
  assumes "control_new max_agents max_depth budget = Inr c"
  shows "fan_ok (fan_start (coordinator_new policy c))"
proof -
  have "agents c = []" using assms by (auto simp: control_new_def split: if_splits)
  then have "open_attempts c = Map.empty" "agent_task c = Map.empty"
    by (auto simp: open_attempts_def agent_task_def fun_eq_iff)
  then show ?thesis
    using control_ok_new [OF assms]
    by (simp add: fan_ok_def fan_start_def fan_control_def coordinator_new_def pending_def)
qed

section \<open>A concrete fan-out\<close>

definition local_harness :: harness where
  "local_harness = \<lparr>hn_id = ''local'', hn_kind = Local\<rparr>"

definition example_plane :: "shared_budget \<Rightarrow> control_plane" where
  "example_plane b = \<lparr>cp_max_agents = 2, cp_max_depth = 1, cp_budget = b,
     cp_state = \<lparr>cs_agents = [], cs_reserved_paths = {}, cs_mailboxes = []\<rparr>\<rparr>"

definition example_coordinator :: "shared_budget \<Rightarrow> coordinator" where
  "example_coordinator b =
     (coordinator_new lean_policy (example_plane b))\<lparr>co_harnesses := [''local'' \<mapsto> local_harness]\<rparr>"

definition task_a :: read_only_task where "task_a = example_task\<lparr>rt_id := ''a''\<rparr>"
definition task_b :: read_only_task where "task_b = example_task\<lparr>rt_id := ''b''\<rparr>"

definition example_fan :: fan_out_request where
  "example_fan = \<lparr>fo_id = ''o1'',
     fo_admission = example_request [example_stream ''a'' ''src/a'' 1000000,
                                     example_stream ''b'' ''src/b/'' 1000000],
     fo_tasks = [task_a, task_b], fo_parent_context = ''ctx''\<rparr>"

definition attempt_a :: attempt_context where
  "attempt_a = \<lparr>ac_orchestration_id = ''o1'', ac_agent_path = ''/root/a'', ac_task = task_a,
     ac_attempt = 1, ac_parent_context = ''ctx'', ac_feedback = None\<rparr>"

definition attempt_b :: attempt_context where
  "attempt_b = \<lparr>ac_orchestration_id = ''o1'', ac_agent_path = ''/root/b'', ac_task = task_b,
     ac_attempt = 1, ac_parent_context = ''ctx'', ac_feedback = None\<rparr>"

definition report_a :: structured_report where
  "report_a = example_report\<lparr>sr_task_id := ''a''\<rparr>"

definition result_a :: harness_attempt where
  "result_a = \<lparr>ha_provider = ''p'', ha_model = ''m'', ha_final_message = ''done'',
     ha_report = Some report_a, ha_usage = default_usage_charge, ha_observed_write = False\<rparr>"

lemma example_fan_paths:
  "agent_path_child agent_path_root ''a'' = Inr ''/root/a''" "agent_path_depth ''/root/a'' = 1"
  "agent_path_child agent_path_root ''b'' = Inr ''/root/b''" "agent_path_depth ''/root/b'' = 1"
  "\<not> blank ''find callers''" "trim ''local'' = ''local''"
  "validate_read_only report_a task_a 1 = Inr ()"
  by code_simp+

lemma example_plane_new: "control_new 2 1 b = Inr (example_plane b)"
  by (simp add: control_new_def example_plane_def)

lemma example_registered:
  "fan_step (fan_start (coordinator_new lean_policy (example_plane b)))
     (fan_start (example_coordinator b))"
proof -
  have "register_harness (coordinator_new lean_policy (example_plane b)) local_harness
      = (example_coordinator b, Inr ())"
    by (simp add: register_harness_def local_harness_def example_fan_paths coordinator_new_def
        example_coordinator_def Let_def)
  from fan_register [of "fan_start (coordinator_new lean_policy (example_plane b))",
      simplified fan_start_def, simplified, OF this]
  show ?thesis by (simp add: fan_start_def emit_def)
qed

lemma example_validated: "validate_contract (example_coordinator b) example_fan = Inr ()"
  by (simp add: validate_contract_def example_fan_def example_request_def example_stream_def
      task_a_def task_b_def example_task_def check_task_def example_fan_paths
      example_coordinator_def local_harness_def ok_or_def ensure_def Let_def)

lemma example_admitted: "ad_admitted (evaluate lean_policy (fo_admission example_fan))"
  by (simp add: example_fan_def example_request_admitted [OF example_streams_apart])

lemma example_reserved_all:
  "\<exists>d. reserve_all (example_plane b) [task_a, task_b] =
     ((None, [\<lparr>sp_path = ''/root/a'', sp_task = Some task_a, sp_active = True\<rparr>,
              \<lparr>sp_path = ''/root/b'', sp_task = Some task_b, sp_active = True\<rparr>]), d)
   \<and> reserved_paths d = {''/root/a'', ''/root/b''}"
  by (auto simp: reserve_all_def reserve_spawn_def task_a_def task_b_def example_task_def
      example_fan_paths example_plane_def om_contains_def set_reserved_def)

lemma example_launch:
  "\<exists>co es. launch uuid (example_coordinator b) example_fan = Some (co, es, Inr [attempt_a, attempt_b])"
proof -
  obtain d where d: "reserve_all (example_plane b) [task_a, task_b] =
     ((None, [\<lparr>sp_path = ''/root/a'', sp_task = Some task_a, sp_active = True\<rparr>,
              \<lparr>sp_path = ''/root/b'', sp_task = Some task_b, sp_active = True\<rparr>]), d)"
    "reserved_paths d = {''/root/a'', ''/root/b''}"
    using example_reserved_all by blast
  have co: "co_control (example_coordinator b) = example_plane b"
    "co_policy (example_coordinator b) = lean_policy"
    "co_harnesses (example_coordinator b) ''local'' = Some local_harness"
    "fo_tasks example_fan = [task_a, task_b]" "rt_harness task_a = ''local''"
    "rt_harness task_b = ''local''" "fo_id example_fan = ''o1''"
    "fo_parent_context example_fan = ''ctx''"
    by (simp_all add: example_coordinator_def coordinator_new_def example_fan_def task_a_def
        task_b_def example_task_def)
  show ?thesis
    using d
    by (simp add: launch_def co example_validated example_admitted commit_live Let_def
        attempt_of_def attempt_a_def attempt_b_def)
qed

lemma example_running:
  "\<exists>s. fan_step\<^sup>*\<^sup>* (fan_start (coordinator_new lean_policy (example_plane b))) s
     \<and> fs_queued s = [attempt_b] \<and> fs_running s = [attempt_a]"
proof -
  obtain co es where l: "launch (\<lambda>n. dec n) (example_coordinator b) example_fan
      = Some (co, es, Inr [attempt_a, attempt_b])"
    using example_launch by blast
  let ?s = "fan_start (example_coordinator b)"
  let ?t = "(emit ?s co es)\<lparr>fs_queued := fs_queued ?s @ [attempt_a, attempt_b]\<rparr>"
  have step: "fan_step ?s ?t"
    by (rule fan_launch [of "\<lambda>n. dec n" ?s example_fan]) (simp add: fan_start_def l)
  obtain co' es' where b: "begin_attempt (fs_coordinator ?t) attempt_a = (co', es')"
    by (cases "begin_attempt (fs_coordinator ?t) attempt_a")
  have "fan_step ?t ((emit ?t co' es')\<lparr>fs_queued := [] @ [attempt_b],
      fs_running := attempt_a # fs_running ?t\<rparr>)"
    by (rule fan_begin [OF _ b]) (simp add: fan_start_def emit_def)
  then have "fan_step\<^sup>*\<^sup>* (fan_start (coordinator_new lean_policy (example_plane b)))
    ((emit ?t co' es')\<lparr>fs_queued := [] @ [attempt_b], fs_running := attempt_a # fs_running ?t\<rparr>)"
    using example_registered [of b] step
    by (meson rtranclp.rtrancl_into_rtrancl rtranclp.rtrancl_refl)
  then show ?thesis
    by (rule exI [of _ "(emit ?t co' es')\<lparr>fs_queued := [] @ [attempt_b],
      fs_running := attempt_a # fs_running ?t\<rparr>", OF conjI])
      (simp add: fan_start_def emit_def)
qed

section \<open>Properties\<close>

lemma fan_reachable_ok:
  assumes "control_new max_agents max_depth budget = Inr c"
    and "fan_step\<^sup>*\<^sup>* (fan_start (coordinator_new policy c)) s"
  shows "fan_ok s"
  by (rule fan.inv_reachable [OF assms(2) fan_ok_start [OF assms(1)]])

text \<open>
  C10. Launching a fan-out is all or nothing and cannot panic: in every reachable state it is
  either refused, with the coordinator, its control plane and the event stream exactly as they
  were, or it starts one first attempt for every task of the request, in order, each at a new
  path below the root, with no spawn reservation left.
\<close>

theorem launch_all_or_nothing:
  assumes "control_new max_agents max_depth budget = Inr c"
    and "fan_step\<^sup>*\<^sup>* (fan_start (coordinator_new policy c)) s"
  shows "(\<exists>e. launch uuid (fs_coordinator s) request = Some (fs_coordinator s, [], Inl e))
    \<or> (\<exists>co recs. launch uuid (fs_coordinator s) request
            = Some (co, map queued_event recs, Inr (map (attempt_of request) recs))
        \<and> map ar_task recs = fo_tasks request \<and> distinct (map ar_path recs)
        \<and> (\<forall>rec\<in>set recs. ar_attempt rec = 1
             \<and> agent_path_child agent_path_root (rt_id (ar_task rec)) = Inr (ar_path rec)
             \<and> control_agent (fan_control s) (ar_path rec) = None
             \<and> open_attempts (co_control co) (ar_path rec) = Some (ar_task rec, 1))
        \<and> reserved_paths (co_control co) = {})"
proof (cases rule: launch_cases [OF fan_ok_control [OF fan_reachable_ok [OF assms]],
      where uuid = uuid and request = request, case_names refused launched])
  case (refused e)
  then show ?thesis by blast
next
  case (launched d recs)
  have "map fst (map record_key recs) = map ar_path recs" by (simp add: record_key_def comp_def)
  then have "map_of (map record_key recs) (ar_path rec) = Some (ar_task rec, ar_attempt rec)"
    if "rec \<in> set recs" for rec
    using that launched(6)
    by (intro map_of_is_SomeI) (simp only:, force simp: record_key_def)
  then have "open_attempts d (ar_path rec) = Some (ar_task rec, 1)" if "rec \<in> set recs" for rec
    using that launched(5) unfolding launched(8) by (simp add: map_add_def)
  then show ?thesis
    using launched
    by (intro disjI2 exI [of _ "set_control (fs_coordinator s) d"] exI [of _ recs])
      (simp add: control_agent_def fan_control_def)
qed

theorem launch_all_or_nothing_witness:
  "\<forall>b. launch dec (example_coordinator b) example_fan \<noteq> None"
proof
  fix b
  have "fan_step\<^sup>*\<^sup>* (fan_start (coordinator_new lean_policy (example_plane b)))
      (fan_start (example_coordinator b))"
    using example_registered by blast
  from launch_all_or_nothing [OF example_plane_new this, of dec example_fan]
  show "launch dec (example_coordinator b) example_fan \<noteq> None" by (auto simp: fan_start_def)
qed

text \<open>
  C11. No agent is left behind: an agent is running or waiting for its rework exactly while one
  attempt for its task and attempt number is queued or in flight, and cancellation tokens are
  registered exactly for the attempts in flight; once no attempt is pending, every agent has
  reported, been accepted or failed.
\<close>

theorem open_agents_are_pending:
  assumes "control_new max_agents max_depth budget = Inr c"
    and "fan_step\<^sup>*\<^sup>* (fan_start (coordinator_new policy c)) s"
  shows "open_attempts (fan_control s) = map_of (map attempt_key (fs_queued s @ fs_running s))
    \<and> distinct (map ac_agent_path (fs_queued s @ fs_running s))
    \<and> dom (om_get (co_active (fs_coordinator s))) = ac_agent_path ` set (fs_running s)
    \<and> (fs_queued s = [] \<and> fs_running s = [] \<and> control_agent (fan_control s) p = Some rec \<longrightarrow>
        ar_report_status rec \<in> {RReported, RAccepted, RFailed})"
proof -
  have ok: "fan_ok s" by (rule fan_reachable_ok [OF assms])
  have "ar_report_status rec \<in> {RReported, RAccepted, RFailed}"
    if "fs_queued s = []" "fs_running s = []" "control_agent (fan_control s) p = Some rec"
  proof -
    have "open_attempts (fan_control s) p = None"
      using ok that(1,2) by (simp add: fan_ok_def pending_def)
    then have "open_of rec = None"
      using that(3) by (simp add: open_attempts_def control_agent_def)
    then show ?thesis by (cases "ar_report_status rec") (auto simp: open_of_def)
  qed
  with ok show ?thesis by (simp add: fan_ok_def pending_def)
qed

theorem open_agents_are_pending_witness:
  "\<forall>b. \<exists>s. om_get (co_active (fs_coordinator s)) ''/root/a'' \<noteq> None
     \<and> open_attempts (fan_control s) ''/root/b'' = Some (task_b, 1)
     \<and> fan_step\<^sup>*\<^sup>* (fan_start (coordinator_new lean_policy (example_plane b))) s"
proof
  fix b
  obtain s where s: "fan_step\<^sup>*\<^sup>* (fan_start (coordinator_new lean_policy (example_plane b))) s"
    "fs_queued s = [attempt_b]" "fs_running s = [attempt_a]"
    using example_running by blast
  have "dom (om_get (co_active (fs_coordinator s))) = {''/root/a''}"
    and "open_attempts (fan_control s) = map_of (map attempt_key [attempt_b, attempt_a])"
    using open_agents_are_pending [OF example_plane_new s(1)] s(2,3)
    by (simp_all add: attempt_a_def)
  then have "om_get (co_active (fs_coordinator s)) ''/root/a'' \<noteq> None"
    and "open_attempts (fan_control s) ''/root/b'' = Some (task_b, 1)"
    by (auto simp: attempt_key_def attempt_b_def)
  with s(1) show "\<exists>s. om_get (co_active (fs_coordinator s)) ''/root/a'' \<noteq> None
     \<and> open_attempts (fan_control s) ''/root/b'' = Some (task_b, 1)
     \<and> fan_step\<^sup>*\<^sup>* (fan_start (coordinator_new lean_policy (example_plane b))) s"
    by blast
qed

lemma failed_agent:
  assumes "om_get (agents c) p = Some rec"
  shows "\<exists>rec'. om_get (agents (ignore_error c (control_fail c p e))) p = Some rec'
    \<and> ar_report_status rec' = RFailed \<and> ar_error rec' = Some e"
  using assms by (simp add: control_fail_def update_agent_def ok_or_def ignore_error_def)

text \<open>A result that is good for an attempt: no observed write, and a report that validates.\<close>

definition good_result ::
    "attempt_context \<Rightarrow> harness_error + harness_attempt \<Rightarrow> structured_report \<Rightarrow> bool" where
  "good_result a result rep \<longleftrightarrow>
     (\<exists>r. result = Inr r \<and> \<not> ha_observed_write r \<and> ha_report r = Some rep)
     \<and> validate_read_only rep (ac_task a) (ac_attempt a) = Inr ()"

lemma end_attempt_good:
  assumes "om_get (agents (co_control co)) (ac_agent_path a) = Some rec"
    and "ar_task rec = ac_task a" "ar_attempt rec = ac_attempt a" "ar_report rec = None"
    and "good_result a result rep" and "end_attempt co a result = (co', es)"
  shows "es = [EReported (ac_agent_path a) rep]
    \<and> control_agent (co_control co') (ac_agent_path a) = Some (rec\<lparr>ar_status := Completed,
        ar_report_status := RReported, ar_report := Some rep\<rparr>)"
proof -
  obtain r where r: "result = Inr r" "\<not> ha_observed_write r" "ha_report r = Some rep"
      "validate_read_only rep (ac_task a) (ac_attempt a) = Inr ()"
    using assms(5) by (auto simp: good_result_def)
  define co1 where "co1 = charge_budget
    (co\<lparr>co_active := om_remove (ac_agent_path a) (co_active co)\<rparr>) (ha_usage r)"
  let ?rec = "rec\<lparr>ar_status := Completed, ar_report_status := RReported, ar_report := Some rep\<rparr>"
  let ?c = "set_agents (co_control co1) (om_insert (ac_agent_path a) ?rec (agents (co_control co1)))"
  have "agents (co_control co1) = agents (co_control co)" by (simp add: co1_def charge_budget_def)
  then have "control_report (co_control co1) (ac_agent_path a) rep = Inr (?c, True)"
    using assms(1-4) r(4) by (simp add: control_report_def update_agent_Inr report_record_Inr)
  then have "es = [EReported (ac_agent_path a) rep]" and "co' = set_control co1 ?c"
    using assms(6) r by (simp_all add: end_attempt_def finish_attempt_def co1_def Let_def)
  then show ?thesis by (simp add: control_agent_def)
qed

lemma end_attempt_bad:
  assumes "om_get (agents (co_control co)) (ac_agent_path a) = Some rec"
    and "ar_task rec = ac_task a" "ar_attempt rec = ac_attempt a" "ar_report rec = None"
    and "\<forall>rep. \<not> good_result a result rep" and "end_attempt co a result = (co', es)"
  shows "\<exists>error rec'. es = [EFailed (ac_agent_path a) error]
    \<and> control_agent (co_control co') (ac_agent_path a) = Some rec'
    \<and> ar_report_status rec' = RFailed \<and> ar_error rec' = Some error"
proof -
  define co1 where "co1 = co\<lparr>co_active := om_remove (ac_agent_path a) (co_active co)\<rparr>"
  have agents1: "agents (co_control co1) = agents (co_control co)"
    "agents (co_control (charge_budget co1 u)) = agents (co_control co)" for u
    by (simp_all add: co1_def charge_budget_def)
  have failI: "fail_attempt co2 (ac_agent_path a) error = (co', es) \<Longrightarrow>
      agents (co_control co2) = agents (co_control co) \<Longrightarrow>
      \<exists>co2 error. fail_attempt co2 (ac_agent_path a) error = (co', es)
        \<and> agents (co_control co2) = agents (co_control co)" for co2 error
    by blast
  have "\<exists>co2 error. fail_attempt co2 (ac_agent_path a) error = (co', es)
      \<and> agents (co_control co2) = agents (co_control co)"
    using assms(5,6) agents1
    by (auto simp: end_attempt_def finish_attempt_def co1_def [symmetric] good_result_def Let_def
        split: sum.splits if_splits option.splits intro: failI)
  then obtain co2 error where f: "fail_attempt co2 (ac_agent_path a) error = (co', es)"
    "agents (co_control co2) = agents (co_control co)" by blast
  then have "om_get (agents (co_control co2)) (ac_agent_path a) = Some rec" using assms(1) by simp
  from failed_agent [OF this, of error] f(1) show ?thesis
    by (auto simp: fail_attempt_def control_agent_def)
qed

text \<open>
  What an attempt's result becomes: when an attempt in flight ends, its agent reports if
  and only if the harness returned a result without an observed write whose report validates
  for the attempt's task and number; that report is then recorded and announced, and every
  other result marks the agent as failed, with an error, and is announced as a failure.
\<close>

lemma attempt_result_recorded:
  assumes "control_new max_agents max_depth budget = Inr c"
    and "fan_step\<^sup>*\<^sup>* (fan_start (coordinator_new policy c)) s"
    and "a \<in> set (fs_running s)"
    and "end_attempt (fs_coordinator s) a result = (co, es)"
  shows "(\<exists>rep rec. es = [EReported (ac_agent_path a) rep] \<and> good_result a result rep
          \<and> control_agent (co_control co) (ac_agent_path a) = Some rec
          \<and> ar_report_status rec = RReported \<and> ar_report rec = Some rep)
    \<or> (\<exists>error rec. es = [EFailed (ac_agent_path a) error] \<and> (\<nexists>rep. good_result a result rep)
          \<and> control_agent (co_control co) (ac_agent_path a) = Some rec
          \<and> ar_report_status rec = RFailed \<and> ar_error rec = Some error)"
proof -
  obtain rec where rec: "om_get (agents (co_control (fs_coordinator s))) (ac_agent_path a) = Some rec"
    "ar_task rec = ac_task a" "ar_attempt rec = ac_attempt a" "ar_report rec = None"
    using fan_ok_pending [OF fan_reachable_ok [OF assms(1,2)], of a] assms(3)
    by (auto simp: pending_def fan_control_def)
  show ?thesis
  proof (cases "\<exists>rep. good_result a result rep")
    case True
    then show ?thesis using end_attempt_good [OF rec _ assms(4)] by fastforce
  next
    case False
    then show ?thesis using end_attempt_bad [OF rec _ assms(4)] by blast
  qed
qed

lemma attempt_result_recorded_witness:
  "\<forall>b. \<exists>s co rec. fan_step\<^sup>*\<^sup>* (fan_start (coordinator_new lean_policy (example_plane b))) s
     \<and> end_attempt (fs_coordinator s) attempt_a (Inr result_a) = (co, [EReported ''/root/a'' report_a])
     \<and> control_agent (co_control co) ''/root/a'' = Some rec \<and> ar_report_status rec = RReported"
proof
  fix b
  obtain s where s: "fan_step\<^sup>*\<^sup>* (fan_start (coordinator_new lean_policy (example_plane b))) s"
    "fs_running s = [attempt_a]"
    using example_running by blast
  obtain co es where e: "end_attempt (fs_coordinator s) attempt_a (Inr result_a) = (co, es)"
    by (cases "end_attempt (fs_coordinator s) attempt_a (Inr result_a)")
  have "attempt_a \<in> set (fs_running s)" by (simp add: s(2))
  from attempt_result_recorded [OF example_plane_new s(1) this e]
  have "\<exists>rec. es = [EReported ''/root/a'' report_a]
     \<and> control_agent (co_control co) ''/root/a'' = Some rec \<and> ar_report_status rec = RReported"
    using example_fan_paths by (auto simp: result_a_def attempt_a_def good_result_def)
  with s(1) e show "\<exists>s co rec. fan_step\<^sup>*\<^sup>* (fan_start (coordinator_new lean_policy (example_plane b))) s
     \<and> end_attempt (fs_coordinator s) attempt_a (Inr result_a) = (co, [EReported ''/root/a'' report_a])
     \<and> control_agent (co_control co) ''/root/a'' = Some rec \<and> ar_report_status rec = RReported"
    by blast
qed

text \<open>
  Asking for rework is all or nothing: in a reachable state it is either refused without
  any effect, or the agent had a reported result and exactly one new attempt is queued for it,
  with its own task, the next attempt number and the feedback, so the agent is open again.
\<close>

lemma rework_starts_next_attempt:
  assumes "control_new max_agents max_depth budget = Inr c"
    and "fan_step\<^sup>*\<^sup>* (fan_start (coordinator_new policy c)) s"
    and "rework_start (fs_coordinator s) i path parent feedback = (co, es, r)"
  shows "(co = fs_coordinator s \<and> es = [] \<and> (\<exists>e. r = Inl e))
    \<or> (\<exists>rec a. control_agent (fan_control s) path = Some rec
        \<and> ar_report_status rec = RReported
        \<and> r = Inr a \<and> ac_agent_path a = path \<and> ac_task a = ar_task rec
        \<and> ac_attempt a = ar_attempt rec + 1 \<and> ac_feedback a = Some feedback
        \<and> es = [EReworkRequested path (ar_attempt rec + 1) feedback]
        \<and> open_attempts (co_control co) path = Some (ac_task a, ac_attempt a))"
proof (cases rule: rework_cases [OF fan_reachable_ok [OF assms(1,2)], where i = i and path = path
      and parent = parent and feedback = feedback, case_names refused started])
  case (refused e)
  then show ?thesis using assms(3) by simp
next
  case (started d task n)
  have "\<exists>c'. control_decide (fan_control s) path Rework = Inr (c', n)"
    using started(1)
    by (auto simp: rework_start_def fan_control_def split: if_splits sum.splits option.splits)
  then obtain rec where rec: "om_get (agents (fan_control s)) path = Some rec"
    "ar_report_status rec = RReported" "n = ar_attempt rec + 1"
    by (auto simp: control_decide_def update_agent_Inr decide_record_Inr)
  have "agent_task d path = agent_task (fan_control s) path" using started(4) by simp
  moreover have "task = ar_task rec"
  proof -
    obtain c' where c': "control_decide (fan_control s) path Rework = Inr (c', n)"
      using \<open>\<exists>c'. control_decide (fan_control s) path Rework = Inr (c', n)\<close> by blast
    from open_rework [OF c'] rec(1) started show ?thesis
      by (auto simp: rework_start_def fan_control_def agent_task_def control_agent_def
          control_decide_def update_agent_Inr decide_record_Inr
          split: if_splits sum.splits option.splits prod.splits)
  qed
  ultimately show ?thesis
    using assms(3) rec started by (auto simp: control_agent_def)
qed

lemma rework_starts_next_attempt_witness:
  "\<forall>b. \<exists>s e. fan_step\<^sup>*\<^sup>* (fan_start (coordinator_new lean_policy (example_plane b))) s
     \<and> rework_start (fs_coordinator s) ''o1'' ''/root/a'' ''ctx'' ''again''
        = (fs_coordinator s, [], Inl e)"
proof
  fix b
  obtain s where s: "fan_step\<^sup>*\<^sup>* (fan_start (coordinator_new lean_policy (example_plane b))) s"
    "fs_running s = [attempt_a]"
    using example_running by blast
  obtain co es r where r: "rework_start (fs_coordinator s) ''o1'' ''/root/a'' ''ctx'' ''again''
      = (co, es, r)"
    by (metis surj_pair)
  have "\<exists>rec. control_agent (fan_control s) ''/root/a'' = Some rec \<and> ar_report_status rec \<noteq> RReported"
    using fan_ok_pending [OF fan_reachable_ok [OF example_plane_new s(1)], of attempt_a] s(2)
    by (auto simp: pending_def attempt_a_def control_agent_def)
  with rework_starts_next_attempt [OF example_plane_new s(1) r]
  have "co = fs_coordinator s \<and> es = [] \<and> (\<exists>e. r = Inl e)" by auto
  with r s(1) show "\<exists>s e. fan_step\<^sup>*\<^sup>* (fan_start (coordinator_new lean_policy (example_plane b))) s
     \<and> rework_start (fs_coordinator s) ''o1'' ''/root/a'' ''ctx'' ''again''
        = (fs_coordinator s, [], Inl e)"
    by blast
qed

text \<open>
  Registering a harness under an id that is taken is refused, but has already replaced
  the registered harness by the new one.
\<close>

lemma refused_harness_replaces:
  assumes "trim (hn_id h) \<noteq> []" and "co_harnesses co (trim (hn_id h)) = Some old"
    and "register_harness co h = (co', r)"
  shows "r = Inl (CHarnessDuplicate (trim (hn_id h)))
    \<and> co_harnesses co' (trim (hn_id h)) = Some h"
  using assms by (auto simp: register_harness_def Let_def)

lemma refused_harness_replaces_witness:
  "\<forall>b. co_harnesses (fst (register_harness (example_coordinator b)
     (local_harness\<lparr>hn_kind := BrokeredCloud\<rparr>))) ''local''
   = Some (local_harness\<lparr>hn_kind := BrokeredCloud\<rparr>)"
proof
  fix b
  let ?h = "local_harness\<lparr>hn_kind := BrokeredCloud\<rparr>"
  obtain co r where r: "register_harness (example_coordinator b) ?h = (co, r)"
    by (cases "register_harness (example_coordinator b) ?h")
  have "trim (hn_id ?h) = ''local''" by (simp add: local_harness_def example_fan_paths)
  moreover have "co_harnesses (example_coordinator b) ''local'' = Some local_harness"
    by (simp add: example_coordinator_def)
  ultimately show "co_harnesses (fst (register_harness (example_coordinator b) ?h)) ''local'' = Some ?h"
    using refused_harness_replaces [OF _ _ r, of local_harness] by (simp add: r)
qed

text \<open>
  Tasks and admitted estimates are compared as sets of ids: several estimates for one and
  the same task satisfy the contract that asks them to match one-to-one, so an exploration that
  was admitted as two parallel workstreams runs a single agent.
\<close>

lemma estimates_not_one_to_one:
  assumes "co_harnesses co (rt_harness task) = Some h" and "hn_kind h = Local"
    and "\<not> blank (rt_objective task)" and "rt_scopes task \<noteq> {}" and "rt_acceptance task \<noteq> []"
    and "co_policy co = lean_policy" and "\<not> scopes_clash (normalize_scope u) (normalize_scope v)"
    and "request = \<lparr>fo_id = i, fo_admission = example_request
          [example_stream (rt_id task) u 1000000, example_stream (rt_id task) v 1000000],
        fo_tasks = [task], fo_parent_context = parent\<rparr>"
  shows "ad_admitted (evaluate (co_policy co) (fo_admission request))
    \<and> validate_contract co request = Inr ()
    \<and> length (rq_workstreams (fo_admission request)) \<noteq> length (fo_tasks request)"
proof -
  have "ad_admitted (evaluate (co_policy co) (fo_admission request))"
    using example_request_admitted [OF assms(7)] assms(6,8) by simp
  moreover have "validate_contract co request = Inr ()"
    using assms(1-5,8)
    by (simp add: validate_contract_def check_task_def example_request_def example_stream_def
        ok_or_def ensure_def Let_def)
  ultimately show ?thesis using assms(8) by (simp add: example_request_def)
qed

lemma estimates_not_one_to_one_witness:
  "\<forall>b. validate_contract (example_coordinator b)
     \<lparr>fo_id = ''o'', fo_admission = example_request [example_stream ''a'' ''src/a'' 1000000,
        example_stream ''a'' ''src/b/'' 1000000], fo_tasks = [task_a], fo_parent_context = ''''\<rparr>
     = Inr ()"
proof
  fix b
  have task: "co_harnesses (example_coordinator b) (rt_harness task_a) = Some local_harness"
    "hn_kind local_harness = Local" "\<not> blank (rt_objective task_a)" "rt_scopes task_a \<noteq> {}"
    "rt_acceptance task_a \<noteq> []" "co_policy (example_coordinator b) = lean_policy" "rt_id task_a = ''a''"
    using example_fan_paths
    by (simp_all add: task_a_def example_task_def example_coordinator_def coordinator_new_def
        local_harness_def)
  from estimates_not_one_to_one [OF task(1-6) example_streams_apart refl, of "''o''" "''''"]
  show "validate_contract (example_coordinator b)
     \<lparr>fo_id = ''o'', fo_admission = example_request [example_stream ''a'' ''src/a'' 1000000,
        example_stream ''a'' ''src/b/'' 1000000], fo_tasks = [task_a], fo_parent_context = ''''\<rparr>
     = Inr ()"
    by (simp add: task(7))
qed

end
