(* ===== verification/RepoPlan.thy ===== *)
theory RepoPlan
  imports Budget Contract OrdMap "HOL-Library.Multiset"
begin

text \<open>
  Multi-repository plans: \<open>agent-orchestration/src/multi_repo.rs\<close> and the data of
  \<open>multi_repo/contract.rs\<close>. A plan selects repositories, assigns tasks to roles, gives every
  writer a lease on paths of one repository, and is validated before anything runs;
  \<open>topological_layers\<close> orders the tasks and \<open>decomposition_decision\<close> turns the writers into
  parallel batches. A \<open>BTreeMap\<close> is an \<open>omap\<close>, a \<open>BTreeSet\<close> a set. Paths follow
  \<open>std::path\<close> on Unix. SHA-256 is the parameter \<open>sha256\<close> (bytes to lower-case hex).
\<close>

section \<open>Paths\<close>

datatype component = RootDir | CurDir | ParentDir | Normal rstr

fun component_of :: "rstr \<Rightarrow> component" where
  "component_of s = (if s = ''..'' then ParentDir else Normal s)"

definition kept_segment :: "rstr \<Rightarrow> bool" where
  "kept_segment s \<longleftrightarrow> s \<noteq> [] \<and> s \<noteq> ''.''"

text \<open>\<open>Path::components()\<close>: empty and inner \<open>.\<close> segments are skipped.\<close>

definition path_components :: "rstr \<Rightarrow> component list" where
  "path_components p =
     (let segs = split_char CHR ''/'' p
      in if starts_with p ''/'' then RootDir # map component_of (filter kept_segment segs)
         else if segs \<noteq> [] \<and> hd segs = ''.''
         then CurDir # map component_of (filter kept_segment (tl segs))
         else map component_of (filter kept_segment segs))"

definition is_absolute :: "rstr \<Rightarrow> bool" where
  "is_absolute p \<longleftrightarrow> starts_with p ''/''"

text \<open>\<open>Path::starts_with\<close> compares components.\<close>

definition path_starts_with :: "rstr \<Rightarrow> rstr \<Rightarrow> bool" where
  "path_starts_with p base \<longleftrightarrow>
     take (length (path_components base)) (path_components p) = path_components base"

section \<open>Data\<close>

type_synonym repository_id = rstr

datatype checkout_kind = Main | LinkedWorktree | DetachedCheckout

record repository_baseline =
  rb_repository_id :: repository_id
  rb_repository_fingerprint :: rstr
  rb_checkout_root :: rstr
  rb_checkout_kind :: checkout_kind
  rb_head_oid :: rstr
  rb_current_branch :: "rstr option"
  rb_dirty_tree_sha256 :: rstr
  rb_allowed_changed_paths :: "rstr set"
  rb_cloud_eligible :: bool

record repository_contract_edge =
  ce_id :: rstr
  ce_producer :: repository_id
  ce_consumers :: "repository_id set"
  ce_artifact :: rstr
  ce_compatibility_rule :: rstr

record contract_decision =
  cd_edge_id :: rstr
  cd_decided_by :: task_id
  cd_artifact_sha256 :: rstr
  cd_compatibility_rule :: rstr

datatype multi_repo_task_role = Planner | RReader | RWriter | RReviewer | Integrator

datatype model_tier = Cheap | Strong | ReviewerTier

record multi_repo_task =
  mt_id :: task_id
  mt_role :: multi_repo_task_role
  mt_repository_id :: "repository_id option"
  mt_dependencies :: "task_id set"
  mt_objective :: rstr
  mt_harness :: rstr
  mt_harness_kind :: harness_kind
  mt_model :: rstr
  mt_model_tier :: model_tier
  mt_budget_reservation :: u64
  mt_allowed_changed_paths :: "rstr set"

record integration_check =
  ic_id :: rstr
  ic_repository_id :: repository_id
  ic_argv :: "rstr list"
  ic_timeout_ms :: u64

record multi_repo_plan =
  mp_repositories :: "(repository_id, repository_baseline) omap"
  mp_contracts :: "repository_contract_edge list"
  mp_contract_decisions :: "contract_decision list"
  mp_tasks :: "multi_repo_task list"
  mp_integration_checks :: "integration_check list"
  mp_max_parallel_writers :: nat
  mp_requires_independent_review :: bool

record decomposition_decision =
  dd_delegated :: bool
  dd_parallel_writer_batches :: "task_id list list"
  dd_reasons :: "rstr list"

datatype isolation_kind = LocalEphemeralClone | DetachedWorktree | CloudEphemeralClone

record change_package =
  cp_task_id :: task_id
  cp_repository_id :: repository_id
  cp_base_head_oid :: rstr
  cp_changed_paths :: "rstr set"
  cp_patch_sha256 :: rstr
  cp_result_tree_sha256 :: rstr
  cp_artifact_path :: rstr
  cp_isolation :: isolation_kind
  cp_checks_run :: "rstr list"

datatype plan_error =
    RepositoryIdLength | RepositoryIdChars
  | NoRepositories | ParallelWriters | RepositoryKey | FingerprintNotUnique | BaselineOid
  | DirtyDigest | RootNotAbsolute | RootsNotDisjoint | UnsafePath rstr
  | DuplicateTask task_id | IncompleteTask task_id | SelfDependency task_id
  | WriterWithoutRepository | WriterUnknownRepository task_id | WriterTier | WriterLease
  | WriterCloudConsent | ReaderLease | ReaderTier | ReviewerNotIndependent | GlobalTaskInvalid
  | UnknownDependency task_id task_id | DependencyCycle
  | EdgeIds | EdgeInvalid rstr | EdgeDecision rstr | DecisionsMismatch
  | PlannerIntegratorCount | ReviewCount | WritableWithoutWriter
  | LeasesOverlap repository_id | LeasesIncomplete repository_id | ReviewerDependencies
  | IntegratorDependencies | CheckInvalid rstr
  | PackageUnknownRepository | PackageNotWriter | PackageRepositoryDiffers | PackageBaseline
  | PackagePaths | PackageDigest rstr | PackageArtifact | PackageIsolation
  | PlanPanicked

definition repository_id_new :: "rstr \<Rightarrow> plan_error + repository_id" where
  "repository_id_new value =
     (if value = [] \<or> 64 < length value then Inl RepositoryIdLength
      else if \<not> list_all segment_char value then Inl RepositoryIdChars
      else Inr value)"

section \<open>Validation\<close>

definition is_git_oid :: "rstr \<Rightarrow> bool" where
  "is_git_oid v \<longleftrightarrow> (length v = 40 \<or> length v = 64) \<and> list_all is_ascii_hexdigit v"

definition is_sha256 :: "rstr \<Rightarrow> bool" where
  "is_sha256 v \<longleftrightarrow> length v = 64 \<and> list_all is_ascii_hexdigit v"

definition validate_relative_path :: "rstr \<Rightarrow> plan_error + unit" where
  "validate_relative_path value =
     (if blank value \<or> is_absolute value
         \<or> list_ex (\<lambda>c. c = ParentDir \<or> c = RootDir) (path_components value)
         \<or> list_ex (\<lambda>c. c = Normal ''.git'') (path_components value)
      then Inl (UnsafePath value) else Inr ())"

text \<open>One round of the loop over the repositories, with the fingerprints and roots seen.\<close>

definition check_repository ::
    "rstr set \<times> rstr list \<Rightarrow> repository_id \<times> repository_baseline \<Rightarrow>
     plan_error + rstr set \<times> rstr list" where
  "check_repository = (\<lambda>(fingerprints, roots) (i, r).
     if i \<noteq> rb_repository_id r then Inl RepositoryKey
     else if blank (rb_repository_fingerprint r) \<or> rb_repository_fingerprint r \<in> fingerprints
     then Inl FingerprintNotUnique
     else if \<not> is_git_oid (rb_head_oid r) then Inl BaselineOid
     else if \<not> is_sha256 (rb_dirty_tree_sha256 r) then Inl DirtyDigest
     else if \<not> is_absolute (rb_checkout_root r) then Inl RootNotAbsolute
     else if list_ex (\<lambda>e. path_starts_with (rb_checkout_root r) e
                        \<or> path_starts_with e (rb_checkout_root r)) roots
     then Inl RootsNotDisjoint
     else bind_res
       (check_all validate_relative_path (sorted_list_of_set (rb_allowed_changed_paths r)))
       (\<lambda>_. Inr (insert (rb_repository_fingerprint r) fingerprints,
                 roots @ [rb_checkout_root r])))"

definition validate_repositories :: "multi_repo_plan \<Rightarrow> plan_error + unit" where
  "validate_repositories p =
     (if mp_repositories p = [] then Inl NoRepositories
      else if mp_max_parallel_writers p = 0 \<or> 8 < mp_max_parallel_writers p
      then Inl ParallelWriters
      else bind_res (fold_res check_repository ({}, []) (mp_repositories p)) (\<lambda>_. Inr ()))"

definition check_task_role :: "multi_repo_plan \<Rightarrow> multi_repo_task \<Rightarrow> plan_error + unit" where
  "check_task_role p task =
     (case mt_role task of
        RWriter \<Rightarrow>
          bind_res (ok_or (mt_repository_id task) WriterWithoutRepository) (\<lambda>i.
          bind_res (ok_or (om_get (mp_repositories p) i) (WriterUnknownRepository (mt_id task)))
            (\<lambda>repository.
              if mt_model_tier task \<noteq> Strong then Inl WriterTier
              else if mt_allowed_changed_paths task = {}
                \<or> \<not> mt_allowed_changed_paths task \<subseteq> rb_allowed_changed_paths repository
              then Inl WriterLease
              else if mt_harness_kind task = BrokeredCloud \<and> \<not> rb_cloud_eligible repository
              then Inl WriterCloudConsent
              else Inr ()))
      | RReader \<Rightarrow>
          if mt_repository_id task = None \<or> mt_allowed_changed_paths task \<noteq> {}
          then Inl ReaderLease
          else if mt_model_tier task = ReviewerTier then Inl ReaderTier
          else Inr ()
      | RReviewer \<Rightarrow>
          if mt_model_tier task \<noteq> ReviewerTier \<or> mt_repository_id task \<noteq> None
            \<or> mt_allowed_changed_paths task \<noteq> {}
          then Inl ReviewerNotIndependent else Inr ()
      | _ \<Rightarrow>
          if mt_model_tier task \<noteq> Strong \<or> mt_repository_id task \<noteq> None
            \<or> mt_allowed_changed_paths task \<noteq> {}
          then Inl GlobalTaskInvalid else Inr ())"

type_synonym task_map = "(task_id, multi_repo_task) omap"

definition add_task ::
    "multi_repo_plan \<Rightarrow> task_map \<Rightarrow> multi_repo_task \<Rightarrow> plan_error + task_map" where
  "add_task p tasks task =
     (if om_contains tasks (mt_id task) then Inl (DuplicateTask (mt_id task))
      else if blank (mt_objective task) \<or> blank (mt_harness task) \<or> blank (mt_model task)
        \<or> mt_budget_reservation task = 0
      then Inl (IncompleteTask (mt_id task))
      else if mt_id task \<in> mt_dependencies task then Inl (SelfDependency (mt_id task))
      else bind_res (check_task_role p task) (\<lambda>_. Inr (om_insert (mt_id task) task tasks)))"

text \<open>
  The loop of \<open>topological_layers\<close>: \<open>remaining\<close> holds the entries of the map that are not in a
  layer yet, in key order.
\<close>

function layers_from ::
    "task_map \<Rightarrow> task_id set \<Rightarrow> plan_error + task_id list list" where
  "layers_from remaining completed =
     (if remaining = [] then Inr []
      else let ready = (\<lambda>(i, task). mt_dependencies task \<subseteq> completed);
               layer = map fst (filter ready remaining)
        in if layer = [] then Inl DependencyCycle
           else bind_res
             (layers_from (filter (\<lambda>e. \<not> ready e) remaining) (completed \<union> set layer))
             (\<lambda>layers. Inr (layer # layers)))"
  by pat_completeness auto
termination
proof (relation "measure (\<lambda>(remaining, completed). length remaining)", goal_cases)
  case 1
  then show ?case by simp
next
  case (2 remaining completed ready layer)
  then have "filter ready remaining \<noteq> []" by simp
  then have "0 < length (filter ready remaining)" by simp
  then have "length (filter (\<lambda>e. \<not> ready e) remaining) < length remaining"
    using sum_length_filter_compl [of ready remaining] by linarith
  then show ?case by simp
qed

declare layers_from.simps [simp del]

definition topological_layers :: "task_map \<Rightarrow> plan_error + task_id list list" where
  "topological_layers tasks = layers_from tasks {}"

definition validate_tasks :: "multi_repo_plan \<Rightarrow> plan_error + task_map" where
  "validate_tasks p =
     bind_res (fold_res (add_task p) [] (mp_tasks p)) (\<lambda>tasks.
     bind_res (check_all (\<lambda>task. check_all
         (\<lambda>d. ensure (om_contains tasks d) (UnknownDependency (mt_id task) d))
         (sorted_list_of_set (mt_dependencies task))) (mp_tasks p)) (\<lambda>_.
     bind_res (topological_layers tasks) (\<lambda>_. Inr tasks)))"

definition check_edge ::
    "multi_repo_plan \<Rightarrow> task_map \<Rightarrow> rstr set \<Rightarrow> repository_contract_edge \<Rightarrow> plan_error + rstr set"
where
  "check_edge p tasks edge_ids edge =
     (if blank (ce_id edge) \<or> ce_id edge \<in> edge_ids then Inl EdgeIds
      else if \<not> om_contains (mp_repositories p) (ce_producer edge) \<or> ce_consumers edge = {}
        \<or> (\<exists>c\<in>ce_consumers edge. c = ce_producer edge \<or> \<not> om_contains (mp_repositories p) c)
        \<or> blank (ce_artifact edge) \<or> blank (ce_compatibility_rule edge)
      then Inl (EdgeInvalid (ce_id edge))
      else
        (case filter (\<lambda>d. cd_edge_id d = ce_id edge) (mp_contract_decisions p) of
           [d] \<Rightarrow>
             if cd_compatibility_rule d \<noteq> ce_compatibility_rule edge
               \<or> \<not> is_sha256 (cd_artifact_sha256 d)
               \<or> (case om_get tasks (cd_decided_by d) of None \<Rightarrow> True
                  | Some task \<Rightarrow> mt_role task \<noteq> Planner)
             then Inl (EdgeDecision (ce_id edge))
             else Inr (insert (ce_id edge) edge_ids)
         | _ \<Rightarrow> Inl (EdgeDecision (ce_id edge))))"

definition validate_contracts :: "multi_repo_plan \<Rightarrow> task_map \<Rightarrow> plan_error + unit" where
  "validate_contracts p tasks =
     bind_res (fold_res (check_edge p tasks) {} (mp_contracts p)) (\<lambda>_.
       if length (mp_contract_decisions p) \<noteq> length (mp_contracts p)
       then Inl DecisionsMismatch else Inr ())"

definition with_role :: "task_map \<Rightarrow> multi_repo_task_role \<Rightarrow> multi_repo_task list" where
  "with_role tasks role = filter (\<lambda>t. mt_role t = role) (om_values tasks)"

text \<open>
  \<open>writers_by_repo\<close>: the writers of each repository, in task order. \<open>PlanPanicked\<close> is no
  error of the code but a panic: here of \<open>expect\<close> on the repository of a writer.
\<close>

definition add_writer ::
    "(repository_id, multi_repo_task list) omap \<Rightarrow> multi_repo_task \<Rightarrow>
     plan_error + (repository_id, multi_repo_task list) omap" where
  "add_writer m t =
     bind_res (ok_or (mt_repository_id t) PlanPanicked) (\<lambda>i.
       Inr (om_insert i ((case om_get m i of None \<Rightarrow> [] | Some ts \<Rightarrow> ts) @ [t]) m))"

definition group_writers ::
    "multi_repo_task list \<Rightarrow> plan_error + (repository_id, multi_repo_task list) omap" where
  "group_writers writers = fold_res add_writer [] writers"

definition add_lease ::
    "repository_id \<Rightarrow> rstr set \<Rightarrow> multi_repo_task \<Rightarrow> plan_error + rstr set" where
  "add_lease i leased writer =
     (if leased \<inter> mt_allowed_changed_paths writer \<noteq> {} then Inl (LeasesOverlap i)
      else Inr (leased \<union> mt_allowed_changed_paths writer))"

text \<open>Indexing the repositories panics for an unknown one.\<close>

definition check_leases ::
    "multi_repo_plan \<Rightarrow> repository_id \<times> multi_repo_task list \<Rightarrow> plan_error + unit" where
  "check_leases p = (\<lambda>(i, writers).
     bind_res (ok_or (om_get (mp_repositories p) i) PlanPanicked) (\<lambda>repository.
     bind_res (fold_res (add_lease i) {} writers) (\<lambda>leased.
       ensure (leased = rb_allowed_changed_paths repository) (LeasesIncomplete i))))"

definition check_gates ::
    "multi_repo_task list \<Rightarrow> multi_repo_task \<Rightarrow> task_id set \<Rightarrow> plan_error + unit" where
  "check_gates reviewers integrator writer_ids =
     (case reviewers of
        reviewer # rest \<Rightarrow>
          if \<not> writer_ids \<subseteq> mt_dependencies reviewer then Inl ReviewerDependencies
          else ensure (mt_id reviewer \<in> mt_dependencies integrator) IntegratorDependencies
      | [] \<Rightarrow> ensure (writer_ids \<subseteq> mt_dependencies integrator) IntegratorDependencies)"

definition validate_completion_graph :: "multi_repo_plan \<Rightarrow> task_map \<Rightarrow> plan_error + unit" where
  "validate_completion_graph p tasks =
     (let planners = with_role tasks Planner; integrators = with_role tasks Integrator;
          reviewers = with_role tasks RReviewer
      in if length planners \<noteq> 1 \<or> length integrators \<noteq> 1 then Inl PlannerIntegratorCount
         else if length reviewers \<noteq> (if mp_requires_independent_review p then 1 else 0)
         then Inl ReviewCount
         else
           bind_res (group_writers (with_role tasks RWriter)) (\<lambda>writers_by_repo.
             let expected = rb_repository_id ` set (filter (\<lambda>r. rb_allowed_changed_paths r \<noteq> {})
                   (om_values (mp_repositories p)))
             in if set (om_keys writers_by_repo) \<noteq> expected then Inl WritableWithoutWriter
                else bind_res (check_all (check_leases p) writers_by_repo) (\<lambda>_.
                  check_gates reviewers (hd integrators)
                    (mt_id ` set (concat (om_values writers_by_repo))))))"

definition check_check ::
    "multi_repo_plan \<Rightarrow> rstr set \<Rightarrow> integration_check \<Rightarrow> plan_error + rstr set" where
  "check_check p ids check =
     (if blank (ic_id check) \<or> ic_id check \<in> ids
        \<or> \<not> om_contains (mp_repositories p) (ic_repository_id check)
        \<or> ic_argv check = [] \<or> 256 < length (ic_argv check)
        \<or> list_ex (\<lambda>a. a = [] \<or> CHR 0x00 \<in> set a) (ic_argv check)
        \<or> ic_timeout_ms check < 1 \<or> 600000 < ic_timeout_ms check
      then Inl (CheckInvalid (ic_id check))
      else Inr (insert (ic_id check) ids))"

definition validate_integration_checks :: "multi_repo_plan \<Rightarrow> plan_error + unit" where
  "validate_integration_checks p =
     bind_res (fold_res (check_check p) {} (mp_integration_checks p)) (\<lambda>_. Inr ())"

definition plan_validate :: "multi_repo_plan \<Rightarrow> plan_error + unit" where
  "plan_validate p =
     bind_res (validate_repositories p) (\<lambda>_.
     bind_res (validate_tasks p) (\<lambda>tasks.
     bind_res (validate_contracts p tasks) (\<lambda>_.
     bind_res (validate_completion_graph p tasks) (\<lambda>_.
     validate_integration_checks p))))"

section \<open>Decomposition and packages\<close>

text \<open>\<open>slice::chunks(n)\<close> for a positive \<open>n\<close>; it panics for \<open>n = 0\<close>.\<close>

function chunks :: "nat \<Rightarrow> 'a list \<Rightarrow> 'a list list" where
  "chunks n xs = (if n = 0 \<or> xs = [] then [] else take n xs # chunks n (drop n xs))"
  by pat_completeness auto
termination by (relation "measure (\<lambda>(n, xs). length xs)") auto

declare chunks.simps [simp del]

definition is_writer :: "task_map \<Rightarrow> task_id \<Rightarrow> bool" where
  "is_writer tasks i = (case om_get tasks i of None \<Rightarrow> False | Some t \<Rightarrow> mt_role t = RWriter)"

text \<open>\<open>task_map[id]\<close> panics for an unknown id.\<close>

definition writers_in :: "task_map \<Rightarrow> task_id list \<Rightarrow> plan_error + task_id list" where
  "writers_in tasks layer =
     (if list_all (om_contains tasks) layer then Inr (filter (is_writer tasks) layer)
      else Inl PlanPanicked)"

definition layer_batches ::
    "multi_repo_plan \<Rightarrow> task_map \<Rightarrow> task_id list list \<Rightarrow> task_id list \<Rightarrow> plan_error + task_id list list"
where
  "layer_batches p tasks batches layer =
     bind_res (writers_in tasks layer) (\<lambda>writers.
       if mp_max_parallel_writers p = 0 then Inl PlanPanicked
       else Inr (batches @ filter (\<lambda>c. c \<noteq> []) (chunks (mp_max_parallel_writers p) writers)))"

definition writer_batches ::
    "multi_repo_plan \<Rightarrow> task_map \<Rightarrow> task_id list list \<Rightarrow> plan_error + task_id list list" where
  "writer_batches p tasks layers = fold_res (layer_batches p tasks) [] layers"

definition decomposition_decision_of :: "multi_repo_plan \<Rightarrow> plan_error + decomposition_decision"
where
  "decomposition_decision_of p =
     bind_res (plan_validate p) (\<lambda>_.
       let tasks = om_collect (map (\<lambda>t. (mt_id t, t)) (mp_tasks p))
       in bind_res (topological_layers tasks) (\<lambda>layers.
         bind_res (writer_batches p tasks layers) (\<lambda>batches.
         let widest = foldr (\<lambda>b m. max (length b) m) batches 0
         in Inr \<lparr>dd_delegated = (2 \<le> widest), dd_parallel_writer_batches = batches,
                 dd_reasons =
                   (if 2 \<le> widest
                    then [dec widest @ '' repository-scoped writers are dependency-independent'']
                    else [''writer dependencies form a sequential chain; parallel delegation adds no value''])\<rparr>)))"

definition expected_isolation :: "harness_kind \<Rightarrow> isolation_kind" where
  "expected_isolation k = (case k of BrokeredCloud \<Rightarrow> CloudEphemeralClone | _ \<Rightarrow> LocalEphemeralClone)"

definition validate_change_package :: "multi_repo_plan \<Rightarrow> change_package \<Rightarrow> plan_error + unit" where
  "validate_change_package p package =
     bind_res (ok_or (om_get (mp_repositories p) (cp_repository_id package)) PackageUnknownRepository)
       (\<lambda>repository.
     bind_res (ok_or (List.find (\<lambda>t. mt_id t = cp_task_id package \<and> mt_role t = RWriter) (mp_tasks p))
         PackageNotWriter) (\<lambda>writer.
       if mt_repository_id writer \<noteq> Some (cp_repository_id package)
       then Inl PackageRepositoryDiffers
       else if cp_base_head_oid package \<noteq> rb_head_oid repository then Inl PackageBaseline
       else if cp_changed_paths package = {}
         \<or> \<not> cp_changed_paths package \<subseteq> mt_allowed_changed_paths writer
       then Inl PackagePaths
       else
         bind_res (check_all validate_relative_path (sorted_list_of_set (cp_changed_paths package)))
           (\<lambda>_.
         bind_res (check_all (\<lambda>(name, value). ensure (is_sha256 value) (PackageDigest name))
             [(''patch'', cp_patch_sha256 package),
              (''result tree'', cp_result_tree_sha256 package)]) (\<lambda>_.
           if blank (cp_artifact_path package) then Inl PackageArtifact
           else if cp_isolation package \<noteq> expected_isolation (mt_harness_kind writer)
             \<and> cp_isolation package \<noteq> DetachedWorktree
           then Inl PackageIsolation
           else Inr ()))))"

text \<open>The bytes fed to the hasher for several packages, after the stable sort by task id.\<close>

definition result_tree_bytes :: "change_package list \<Rightarrow> rstr" where
  "result_tree_bytes packages =
     ''agent-repository-result-tree-v1''
     @ concat (map (\<lambda>c. [CHR 0x00] @ cp_task_id c @ [CHR 0x00] @ cp_patch_sha256 c
                     @ [CHR 0x00] @ cp_result_tree_sha256 c) packages)"

definition repository_result_tree_sha256 ::
    "(rstr \<Rightarrow> rstr) \<Rightarrow> change_package list \<Rightarrow> rstr option" where
  "repository_result_tree_sha256 sha256 packages =
     (case sort_key cp_task_id packages of
        [] \<Rightarrow> None
      | [c] \<Rightarrow> Some (cp_result_tree_sha256 c)
      | several \<Rightarrow> Some (sha256 (result_tree_bytes several)))"

section \<open>Layers\<close>

definition deps_of :: "task_map \<Rightarrow> task_id \<Rightarrow> task_id set" where
  "deps_of tasks i = (case om_get tasks i of None \<Rightarrow> {} | Some t \<Rightarrow> mt_dependencies t)"

text \<open>Every element's dependencies are done before its layer.\<close>

fun layered :: "(task_id \<Rightarrow> task_id set) \<Rightarrow> task_id set \<Rightarrow> task_id list list \<Rightarrow> bool" where
  "layered deps finished [] = True"
| "layered deps finished (l # ls) =
     ((\<forall>i\<in>set l. deps i \<subseteq> finished) \<and> layered deps (finished \<union> set l) ls)"

lemma layered_append:
  "layered deps finished (xs @ ys) \<longleftrightarrow>
     layered deps finished xs \<and> layered deps (finished \<union> set (concat xs)) ys"
  by (induction xs arbitrary: finished) (auto simp: Un_assoc)

lemma layered_mono:
  "layered deps finished ls \<Longrightarrow> finished \<subseteq> finished' \<Longrightarrow> (\<And>i. deps' i \<subseteq> deps i) \<Longrightarrow>
     layered deps' finished' ls"
proof (induction ls arbitrary: finished finished')
  case Nil
  then show ?case by simp
next
  case (Cons l ls)
  have "layered deps' (finished' \<union> set l) ls"
    by (rule Cons.IH) (use Cons.prems in auto)
  moreover have "\<forall>i\<in>set l. deps' i \<subseteq> finished'"
    using Cons.prems by (meson layered.simps(2) subset_trans)
  ultimately show ?case by simp
qed

lemma layered_nth:
  assumes "layered deps finished ls" and "k < length ls" and "i \<in> set (ls ! k)"
  shows "deps i \<subseteq> finished \<union> set (concat (take k ls))"
  using assms
proof (induction ls arbitrary: k finished)
  case Nil
  then show ?case by simp
next
  case (Cons l ls)
  show ?case
  proof (cases k)
    case 0
    then show ?thesis using Cons.prems by simp
  next
    case (Suc j)
    then show ?thesis using Cons.IH [of "finished \<union> set l" j] Cons.prems by auto
  qed
qed

lemma layers_from_sound:
  assumes "layers_from remaining completed = Inr layers" and "set remaining \<subseteq> set tasks"
    and "distinct (map fst tasks)"
  shows "mset (concat layers) = mset (map fst remaining)
    \<and> layered (deps_of tasks) completed layers \<and> (\<forall>l\<in>set layers. l \<noteq> [])"
  using assms
proof (induction remaining completed arbitrary: layers rule: layers_from.induct)
  case (1 remaining completed)
  show ?case
  proof (cases "remaining = []")
    case True
    then show ?thesis using "1.prems"(1) by (simp add: layers_from.simps)
  next
    case False
    define ready where "ready = (\<lambda>(i :: task_id, task :: multi_repo_task). mt_dependencies task \<subseteq> completed)"
    define layer where "layer = map fst (filter ready remaining)"
    define later where "later = filter (\<lambda>e. \<not> ready e) remaining"
    have ne: "layer \<noteq> []" and rest: "\<exists>ls. layers_from later (completed \<union> set layer) = Inr ls
        \<and> layers = layer # ls"
      using "1.prems"(1) False
      by (subst (asm) layers_from.simps;
          auto simp: ready_def layer_def later_def Let_def result_simps split: if_splits)+
    then obtain ls where ls: "layers_from later (completed \<union> set layer) = Inr ls"
      and layers: "layers = layer # ls" by blast
    have IH: "mset (concat ls) = mset (map fst later)
        \<and> layered (deps_of tasks) (completed \<union> set layer) ls \<and> (\<forall>l\<in>set ls. l \<noteq> [])"
      using "1.IH" [OF False, of ready layer ls] ne ls "1.prems"(2,3)
      by (auto simp: ready_def layer_def later_def)
    have "mset (map fst remaining) = mset layer + mset (map fst later)"
      unfolding layer_def later_def
      by (metis (no_types) image_mset_union mset_map multiset_partition mset_filter)
    moreover have "\<forall>i\<in>set layer. deps_of tasks i \<subseteq> completed"
    proof
      fix i assume "i \<in> set layer"
      then obtain t where t: "(i, t) \<in> set remaining" "mt_dependencies t \<subseteq> completed"
        by (auto simp: layer_def ready_def)
      then have "om_get tasks i = Some t" using "1.prems"(2,3) by auto
      with t(2) show "deps_of tasks i \<subseteq> completed" by (simp add: deps_of_def)
    qed
    ultimately show ?thesis using IH ne by (simp add: layers)
  qed
qed

definition dependency_relation :: "task_map \<Rightarrow> (task_id \<times> task_id) set" where
  "dependency_relation tasks = {(d, i). i \<in> set (om_keys tasks) \<and> d \<in> deps_of tasks i}"

lemma layers_from_complete:
  assumes "acyclic (dependency_relation tasks)" and "distinct (map fst tasks)"
    and "set remaining \<subseteq> set tasks"
    and "\<forall>i\<in>set (om_keys tasks). deps_of tasks i \<subseteq> completed \<union> set (map fst remaining)"
  shows "\<exists>layers. layers_from remaining completed = Inr layers"
  using assms(3,4)
proof (induction remaining completed rule: layers_from.induct)
  case (1 remaining completed)
  show ?case
  proof (cases "remaining = []")
    case True
    then show ?thesis by (simp add: layers_from.simps)
  next
    case False
    define ready where "ready = (\<lambda>(i :: task_id, task :: multi_repo_task). mt_dependencies task \<subseteq> completed)"
    define layer where "layer = map fst (filter ready remaining)"
    define later where "later = filter (\<lambda>e. \<not> ready e) remaining"
    have "finite (dependency_relation tasks \<inter> set (om_keys tasks) \<times> set (om_keys tasks))"
      by simp
    then have "wf (dependency_relation tasks \<inter> set (om_keys tasks) \<times> set (om_keys tasks))"
      by (rule finite_acyclic_wf) (rule acyclic_subset [OF assms(1)], simp)
    then obtain i where i: "i \<in> fst ` set remaining"
      and min: "\<And>d. (d, i) \<in> dependency_relation tasks \<inter> set (om_keys tasks) \<times> set (om_keys tasks)
        \<Longrightarrow> d \<notin> fst ` set remaining"
      using False wfE_min' [of _ "fst ` set remaining"] by (metis image_is_empty set_empty)
    then obtain t where t: "(i, t) \<in> set remaining" by auto
    then have get: "om_get tasks i = Some t" using "1.prems"(1) assms(2) by auto
    have key: "i \<in> set (om_keys tasks)" using t "1.prems"(1) by force
    have "mt_dependencies t \<subseteq> completed"
    proof
      fix d assume d: "d \<in> mt_dependencies t"
      then have "(d, i) \<in> dependency_relation tasks"
        using get key by (simp add: dependency_relation_def deps_of_def)
      moreover have "deps_of tasks i = mt_dependencies t" using get by (simp add: deps_of_def)
      then have "mt_dependencies t \<subseteq> completed \<union> set (map fst remaining)"
        using bspec [OF "1.prems"(2) key] by simp
      then have "d \<in> completed \<union> fst ` set remaining" using d by auto
      moreover have "d \<notin> fst ` set remaining" if "d \<in> set (om_keys tasks)"
        using min [of d] calculation(1) that key by blast
      moreover have "fst ` set remaining \<subseteq> set (om_keys tasks)" using "1.prems"(1) by auto
      ultimately show "d \<in> completed" by blast
    qed
    then have ne: "layer \<noteq> []" using t by (auto simp: layer_def ready_def filter_empty_conv)
    have "\<forall>i\<in>set (om_keys tasks). deps_of tasks i
        \<subseteq> (completed \<union> set layer) \<union> set (map fst later)"
    proof
      fix j assume "j \<in> set (om_keys tasks)"
      moreover have "fst ` set remaining = set layer \<union> set (map fst later)"
        by (auto simp: layer_def later_def)
      ultimately show "deps_of tasks j \<subseteq> (completed \<union> set layer) \<union> set (map fst later)"
        using "1.prems"(2) by auto
    qed
    moreover have "set later \<subseteq> set tasks" using "1.prems"(1) by (auto simp: later_def)
    ultimately obtain ls where "layers_from later (completed \<union> set layer) = Inr ls"
      using "1.IH" [OF False ready_def layer_def ne, folded later_def] by blast
    then show ?thesis
      using False ne
      by (subst layers_from.simps) (simp add: ready_def layer_def later_def Let_def)
  qed
qed

lemma layered_acyclic:
  assumes "layered deps {} layers"
  shows "acyclic {(d, i). i \<in> set (concat layers) \<and> d \<in> deps i}"
proof -
  define rank where "rank i = (LEAST k. k < length layers \<and> i \<in> set (layers ! k))" for i
  have "(d, i) \<in> measure rank" if i: "i \<in> set (concat layers)" and d: "d \<in> deps i" for d i
  proof -
    have "\<exists>k. k < length layers \<and> i \<in> set (layers ! k)"
      using i by (metis UN_E in_set_conv_nth set_concat)
    then have "rank i < length layers \<and> i \<in> set (layers ! rank i)"
      unfolding rank_def by (rule LeastI_ex)
    then have "d \<in> set (concat (take (rank i) layers))"
      using layered_nth [OF assms, of "rank i" i] d by auto
    then obtain j where j: "j < rank i" "j < length layers" "d \<in> set (layers ! j)"
      by (auto simp: set_concat set_conv_nth [of "take (rank i) layers"])
    then have "rank d \<le> j" unfolding rank_def by (intro Least_le) simp
    with j(1) show ?thesis by simp
  qed
  then have "{(d, i). i \<in> set (concat layers) \<and> d \<in> deps i} \<subseteq> measure rank" by blast
  then show ?thesis by (metis acyclic_subset wf_acyclic wf_measure)
qed

lemma layers_from_error: "layers_from remaining completed = Inl e \<Longrightarrow> e = DependencyCycle"
proof (induction remaining completed rule: layers_from.induct)
  case (1 remaining completed)
  then show ?case
    by (subst (asm) (2) layers_from.simps)
      (auto simp: Let_def result_simps split: if_splits)
qed

text \<open>
  C39. Topological layering is a decision procedure. For a task map whose dependencies are
  all known, \<open>topological_layers\<close> always returns. It reports a cycle exactly when the
  dependency relation is cyclic; otherwise the layers contain every task exactly once, no layer is
  empty, and the dependencies of a task all lie in earlier layers.
\<close>

theorem topological_layers_correct:
  assumes "om_wf tasks" and "\<forall>i\<in>set (om_keys tasks). deps_of tasks i \<subseteq> set (om_keys tasks)"
  shows "case topological_layers tasks of
      Inl e \<Rightarrow> e = DependencyCycle \<and> \<not> acyclic (dependency_relation tasks)
    | Inr layers \<Rightarrow> acyclic (dependency_relation tasks)
        \<and> mset (concat layers) = mset (om_keys tasks) \<and> [] \<notin> set layers
        \<and> layered (deps_of tasks) {} layers"
proof (cases "topological_layers tasks")
  case (Inl e)
  then have "\<not> acyclic (dependency_relation tasks)"
    using layers_from_complete [of tasks tasks "{}"] assms om_wf_distinct [OF assms(1)]
    by (auto simp: topological_layers_def)
  with Inl show ?thesis by (auto simp: topological_layers_def dest: layers_from_error)
next
  case (Inr layers)
  then have s: "mset (concat layers) = mset (map fst tasks)
      \<and> layered (deps_of tasks) {} layers \<and> (\<forall>l\<in>set layers. l \<noteq> [])"
    by (intro layers_from_sound)
      (auto simp: topological_layers_def om_wf_distinct [OF assms(1)])
  then have "set (concat layers) = set (om_keys tasks)" by (metis set_mset_mset)
  then have "dependency_relation tasks
      = {(d, i). i \<in> set (concat layers) \<and> d \<in> deps_of tasks i}"
    by (auto simp: dependency_relation_def)
  moreover have "layered (deps_of tasks) {} layers" using s by blast
  ultimately have "acyclic (dependency_relation tasks)" by (simp only: layered_acyclic)
  moreover have "[] \<notin> set layers" using s by metis
  ultimately show ?thesis unfolding Inr sum.case using s by (intro conjI) simp_all
qed

section \<open>Tasks of a validated plan\<close>

abbreviation plan_tasks :: "multi_repo_plan \<Rightarrow> task_map" where
  "plan_tasks p \<equiv> om_collect (map (\<lambda>t. (mt_id t, t)) (mp_tasks p))"

abbreviation plan_writers :: "multi_repo_plan \<Rightarrow> multi_repo_task list" where
  "plan_writers p \<equiv> filter (\<lambda>t. mt_role t = RWriter) (mp_tasks p)"

lemma add_tasks:
  assumes "fold_res (add_task p) m ts = Inr tasks"
  shows "tasks = foldl (\<lambda>m (k, v). om_insert k v m) m (map (\<lambda>t. (mt_id t, t)) ts)
    \<and> distinct (map mt_id ts) \<and> (\<forall>t\<in>set ts. mt_id t \<notin> dom (om_get m)
      \<and> check_task_role p t = Inr () \<and> mt_id t \<notin> mt_dependencies t)"
  using assms
proof (induction ts arbitrary: m)
  case Nil
  then show ?case by simp
next
  case (Cons t ts)
  from Cons.prems have t: "mt_id t \<notin> dom (om_get m)" "mt_id t \<notin> mt_dependencies t"
      "check_task_role p t = Inr ()"
    and rest: "fold_res (add_task p) (om_insert (mt_id t) t m) ts = Inr tasks"
    by (auto simp: add_task_def [of p m t] om_contains_def result_simps split: if_splits)
  from Cons.IH [OF rest] t show ?case by (auto simp: dom_om_insert simp del: fun_upd_apply)
qed

lemma validate_tasks_ok:
  assumes "validate_tasks p = Inr tasks"
  shows "tasks = plan_tasks p" and "distinct (map mt_id (mp_tasks p))"
    and "\<forall>t\<in>set (mp_tasks p). check_task_role p t = Inr ()"
    and "\<exists>layers. topological_layers tasks = Inr layers"
  using assms add_tasks [of p "[]" "mp_tasks p" tasks]
  by (auto simp: validate_tasks_def result_simps om_collect_def)

lemma plan_validate_ok:
  assumes "plan_validate p = Inr u"
  shows "validate_repositories p = Inr ()" and "validate_tasks p = Inr (plan_tasks p)"
    and "validate_contracts p (plan_tasks p) = Inr ()"
    and "validate_completion_graph p (plan_tasks p) = Inr ()"
    and "validate_integration_checks p = Inr ()"
  using assms validate_tasks_ok(1)
  by (auto simp: plan_validate_def result_simps)

lemma plan_tasks_lookup:
  assumes "distinct (map mt_id (mp_tasks p))"
  shows "om_get (plan_tasks p) i = Some t \<longleftrightarrow> t \<in> set (mp_tasks p) \<and> mt_id t = i"
proof -
  have d: "distinct (map fst (map (\<lambda>t. (mt_id t, t)) (mp_tasks p)))"
    using assms by (simp add: comp_def)
  have "om_get (plan_tasks p) i = om_get (map (\<lambda>t. (mt_id t, t)) (mp_tasks p)) i"
    by (simp only: map_of_om_collect [OF d])
  also have "\<dots> = Some t \<longleftrightarrow> (i, t) \<in> set (map (\<lambda>t. (mt_id t, t)) (mp_tasks p))"
    using map_of_eq_Some_iff [OF d] .
  finally show ?thesis by auto
qed

lemma plan_tasks_entries:
  assumes "distinct (map mt_id (mp_tasks p))"
  shows "set (om_values (plan_tasks p)) = set (mp_tasks p)"
    and "(i, t) \<in> set (plan_tasks p) \<Longrightarrow> mt_id t = i"
    and "set (om_keys (plan_tasks p)) = mt_id ` set (mp_tasks p)"
proof -
  have e: "(i, t) \<in> set (plan_tasks p) \<longleftrightarrow> t \<in> set (mp_tasks p) \<and> mt_id t = i" for i t
    unfolding plan_tasks_lookup [OF assms, symmetric]
    by (rule map_of_eq_Some_iff [symmetric]) (rule om_wf_distinct [OF om_wf_collect])
  show "set (om_values (plan_tasks p)) = set (mp_tasks p)"
  proof (intro set_eqI iffI)
    fix t assume "t \<in> set (om_values (plan_tasks p))"
    then obtain i where "(i, t) \<in> set (plan_tasks p)" by auto
    then show "t \<in> set (mp_tasks p)" unfolding e by blast
  next
    fix t assume "t \<in> set (mp_tasks p)"
    then have "(mt_id t, t) \<in> set (plan_tasks p)" unfolding e by blast
    then show "t \<in> set (om_values (plan_tasks p))" by (metis list.set_map snd_conv image_eqI)
  qed
  show "(i, t) \<in> set (plan_tasks p) \<Longrightarrow> mt_id t = i" using e by blast
  show "set (om_keys (plan_tasks p)) = mt_id ` set (mp_tasks p)"
    by (simp add: keys_om_collect image_image)
qed

lemma plan_tasks_writer:
  assumes "distinct (map mt_id (mp_tasks p))"
  shows "is_writer (plan_tasks p) i
    \<longleftrightarrow> i \<in> mt_id ` set (plan_writers p)" (is "?L \<longleftrightarrow> ?R")
proof
  assume ?L
  then show ?R using plan_tasks_lookup [OF assms, of i]
    by (force simp: is_writer_def split: option.splits)
next
  assume ?R
  then obtain t where "t \<in> set (mp_tasks p)" "mt_id t = i" "mt_role t = RWriter" by auto
  then have "om_get (plan_tasks p) i = Some t" "mt_role t = RWriter"
    using plan_tasks_lookup [OF assms, of i t] by auto
  then show ?L by (simp add: is_writer_def)
qed

lemma mset_plan_tasks:
  assumes "distinct (map mt_id (mp_tasks p))"
  shows "mset (om_keys (plan_tasks p)) = mset (map mt_id (mp_tasks p))"
proof -
  have "distinct (om_keys (plan_tasks p))" by (rule om_wf_distinct) (rule om_wf_collect)
  moreover have "set (om_keys (plan_tasks p)) = set (map mt_id (mp_tasks p))"
    unfolding plan_tasks_entries(3) [OF assms] by simp
  ultimately show ?thesis using assms by (simp only: set_eq_iff_mset_eq_distinct [symmetric])
qed

lemma filter_writer_ids:
  assumes "distinct (map mt_id (mp_tasks p))"
  shows "filter (\<lambda>i. i \<in> mt_id ` set (plan_writers p)) (map mt_id (mp_tasks p))
    = map mt_id (plan_writers p)"
proof -
  have "inj_on mt_id (set (mp_tasks p))" using assms by (simp add: distinct_map)
  then have "filter (\<lambda>t. mt_id t \<in> mt_id ` set (plan_writers p)) (mp_tasks p) = plan_writers p"
    by (intro filter_cong) (auto dest: inj_onD)
  then show ?thesis by (simp add: filter_map comp_def)
qed

section \<open>Decomposition\<close>

lemma chunks_parts:
  assumes "0 < n"
  shows "concat (chunks n xs) = xs \<and> (\<forall>c\<in>set (chunks n xs). c \<noteq> [] \<and> length c \<le> n)"
  using assms
proof (induction n xs rule: chunks.induct)
  case (1 n xs)
  then show ?case by (subst (1 2) chunks.simps) auto
qed

lemma filter_chunks: "0 < n \<Longrightarrow> filter (\<lambda>c. c \<noteq> []) (chunks n xs) = chunks n xs"
  by (rule filter_True) (use chunks_parts [of n xs] in blast)

text \<open>The batches when no lookup fails.\<close>

definition batches_of :: "multi_repo_plan \<Rightarrow> task_map \<Rightarrow> task_id list list \<Rightarrow> task_id list list" where
  "batches_of p tasks layers =
     concat (map (\<lambda>layer. chunks (mp_max_parallel_writers p) (filter (is_writer tasks) layer)) layers)"

lemma layer_batches_eq:
  assumes "0 < mp_max_parallel_writers p"
  shows "layer_batches p tasks batches layer =
    (if list_all (om_contains tasks) layer then Inr (batches @ batches_of p tasks [layer])
     else Inl PlanPanicked)"
  using assms by (simp add: layer_batches_def writers_in_def batches_of_def filter_chunks)

lemma fold_layer_batches:
  assumes "0 < mp_max_parallel_writers p"
  shows "fold_res (layer_batches p tasks) batches layers =
    (if list_all (list_all (om_contains tasks)) layers then Inr (batches @ batches_of p tasks layers)
     else Inl PlanPanicked)"
  by (induction layers arbitrary: batches)
    (simp_all add: layer_batches_eq [OF assms], simp_all add: batches_of_def)

lemma writer_batches_eq:
  assumes "0 < mp_max_parallel_writers p"
  shows "writer_batches p tasks layers =
    (if list_all (list_all (om_contains tasks)) layers then Inr (batches_of p tasks layers)
     else Inl PlanPanicked)"
  by (simp add: writer_batches_def fold_layer_batches [OF assms])

lemma layered_one_layer:
  assumes "\<forall>i\<in>set (concat ls). deps i \<subseteq> finished"
  shows "layered deps finished ls"
  using assms
proof (induction ls arbitrary: finished)
  case (Cons l ls)
  have "layered deps (finished \<union> set l) ls" by (rule Cons.IH) (use Cons.prems in auto)
  with Cons.prems show ?case by simp
qed simp

text \<open>Everything that must precede a task, directly or through other tasks.\<close>

definition all_deps :: "task_map \<Rightarrow> task_id \<Rightarrow> task_id set" where
  "all_deps tasks i = {d. (d, i) \<in> (dependency_relation tasks)\<^sup>+}"

lemma layered_all_deps:
  assumes "layered (deps_of tasks) finished layers"
    and "\<forall>i\<in>finished. all_deps tasks i \<subseteq> finished"
  shows "layered (all_deps tasks) finished layers"
  using assms
proof (induction layers arbitrary: finished)
  case Nil
  then show ?case by simp
next
  case (Cons l ls)
  have l: "all_deps tasks i \<subseteq> finished" if "i \<in> set l" for i
  proof
    fix d assume "d \<in> all_deps tasks i"
    then obtain d' where d': "(d', i) \<in> dependency_relation tasks"
      and "d = d' \<or> (d, d') \<in> (dependency_relation tasks)\<^sup>+"
      by (auto simp: all_deps_def elim: tranclE)
    moreover have "d' \<in> finished"
      using d' that Cons.prems(1) by (auto simp: dependency_relation_def)
    ultimately show "d \<in> finished" using Cons.prems(2) by (auto simp: all_deps_def)
  qed
  moreover have "layered (all_deps tasks) (finished \<union> set l) ls"
    by (rule Cons.IH) (use Cons.prems l in auto)
  ultimately show ?case by simp
qed

lemma layered_batches_of:
  assumes "layered deps finished layers" and "0 < mp_max_parallel_writers p"
    and W: "\<And>i. is_writer tasks i \<longleftrightarrow> i \<in> W"
  shows "layered (\<lambda>i. deps i \<inter> W) (finished \<inter> W) (batches_of p tasks layers)"
  using assms(1)
proof (induction layers arbitrary: finished)
  case Nil
  then show ?case by (simp add: batches_of_def)
next
  case (Cons l ls)
  let ?b = "chunks (mp_max_parallel_writers p) (filter (is_writer tasks) l)"
  have w: "set (concat ?b) = set l \<inter> W"
    using chunks_parts [OF assms(2), of "filter (is_writer tasks) l"]
    by (auto simp: W)
  have "layered (\<lambda>i. deps i \<inter> W) (finished \<inter> W) ?b"
    by (rule layered_one_layer) (use Cons.prems w in auto)
  moreover have "layered (\<lambda>i. deps i \<inter> W) ((finished \<union> set l) \<inter> W) (batches_of p tasks ls)"
    by (rule Cons.IH) (use Cons.prems in simp)
  moreover have "(finished \<union> set l) \<inter> W = finished \<inter> W \<union> set (concat ?b)"
    unfolding w by blast
  ultimately show ?case
    by (simp add: batches_of_def layered_append)
qed

lemma concat_batches_of:
  assumes "0 < mp_max_parallel_writers p"
  shows "concat (batches_of p tasks layers) = filter (is_writer tasks) (concat layers)"
  by (induction layers)
    (simp_all add: batches_of_def chunks_parts [OF assms])

lemma widest_ge: "n \<le> foldr (\<lambda>b m. max (length b) m) bs 0 \<longleftrightarrow> n = 0 \<or> (\<exists>b\<in>set bs. n \<le> length b)"
  by (induction bs) auto

lemma validate_repositories_ok:
  assumes "validate_repositories p = Inr u"
  shows "1 \<le> mp_max_parallel_writers p" and "mp_max_parallel_writers p \<le> 8"
    and "\<exists>s. fold_res check_repository ({}, []) (mp_repositories p) = Inr s"
  using assms by (auto simp: validate_repositories_def result_simps split: if_splits)

lemma decomposed:
  assumes "decomposition_decision_of p = Inr d"
  shows "plan_validate p = Inr ()"
    and "dd_delegated d \<longleftrightarrow> 2 \<le> foldr (\<lambda>b m. max (length b) m) (dd_parallel_writer_batches d) 0"
    and "\<exists>layers. topological_layers (plan_tasks p) = Inr layers
      \<and> dd_parallel_writer_batches d = batches_of p (plan_tasks p) layers"
proof -
  obtain layers batches where valid: "plan_validate p = Inr ()"
    and layers: "topological_layers (plan_tasks p) = Inr layers"
    and some: "writer_batches p (plan_tasks p) layers = Inr batches"
    and d: "dd_parallel_writer_batches d = batches"
      "dd_delegated d \<longleftrightarrow> 2 \<le> foldr (\<lambda>b m. max (length b) m) batches 0"
    using assms by (auto simp: decomposition_decision_of_def result_simps Let_def)
  have "0 < mp_max_parallel_writers p"
    using validate_repositories_ok(1) [OF plan_validate_ok(1) [OF valid]] by simp
  from some have "batches = batches_of p (plan_tasks p) layers"
    unfolding writer_batches_eq [OF \<open>0 < _\<close>] by (simp split: if_splits)
  then show "plan_validate p = Inr ()"
    and "dd_delegated d \<longleftrightarrow> 2 \<le> foldr (\<lambda>b m. max (length b) m) (dd_parallel_writer_batches d) 0"
    and "\<exists>layers. topological_layers (plan_tasks p) = Inr layers
      \<and> dd_parallel_writer_batches d = batches_of p (plan_tasks p) layers"
    using valid layers d by simp_all
qed

text \<open>
  C38. Decomposition. When a plan decomposes, its batches contain every writer of the plan exactly
  once; no batch is empty or larger than \<open>max_parallel_writers\<close> (at most 8); every writer that a
  writer depends on, directly or through any chain of tasks, is in an earlier batch, so writers of
  one batch may run together; and the plan is delegated exactly when some batch has two writers.
\<close>

theorem decomposition_schedules_writers:
  assumes "decomposition_decision_of p = Inr d"
  shows "mset (concat (dd_parallel_writer_batches d)) = mset (map mt_id (plan_writers p))
    \<and> (\<forall>b\<in>set (dd_parallel_writer_batches d).
         b \<noteq> [] \<and> length b \<le> mp_max_parallel_writers p \<and> length b \<le> 8)
    \<and> layered (\<lambda>i. all_deps (plan_tasks p) i \<inter> mt_id ` set (plan_writers p)) {}
        (dd_parallel_writer_batches d)
    \<and> (dd_delegated d \<longleftrightarrow> (\<exists>b\<in>set (dd_parallel_writer_batches d). 2 \<le> length b))"
proof -
  note dec = decomposed [OF assms]
  note repos = validate_repositories_ok [OF plan_validate_ok(1) [OF dec(1)]]
  note tasks = validate_tasks_ok [OF plan_validate_ok(2) [OF dec(1)]]
  obtain layers where layers: "topological_layers (plan_tasks p) = Inr layers"
    and batches: "dd_parallel_writer_batches d = batches_of p (plan_tasks p) layers"
    using dec(3) by blast
  have sound: "mset (concat layers) = mset (om_keys (plan_tasks p))"
      "layered (deps_of (plan_tasks p)) {} layers"
    using layers_from_sound [of "plan_tasks p" "{}" layers "plan_tasks p"] layers
    by (simp_all add: topological_layers_def om_wf_distinct)
  note role = plan_tasks_writer [OF tasks(2)]
  have "mset (concat (batches_of p (plan_tasks p) layers))
      = filter_mset (\<lambda>i. i \<in> mt_id ` set (plan_writers p)) (mset (concat layers))"
    using repos(1) by (simp add: concat_batches_of role)
  also have "mset (concat layers) = mset (map mt_id (mp_tasks p))"
    unfolding sound(1) by (rule mset_plan_tasks [OF tasks(2)])
  also have "filter_mset (\<lambda>i. i \<in> mt_id ` set (plan_writers p)) \<dots>
      = mset (map mt_id (plan_writers p))"
    unfolding mset_filter [symmetric] filter_writer_ids [OF tasks(2)] ..
  finally have part: "mset (concat (dd_parallel_writer_batches d))
      = mset (map mt_id (plan_writers p))" unfolding batches .
  have "layered (all_deps (plan_tasks p)) {} layers"
    by (rule layered_all_deps [OF sound(2)]) simp
  then have order: "layered (\<lambda>i. all_deps (plan_tasks p) i \<inter> mt_id ` set (plan_writers p)) ({} \<inter> mt_id ` set (plan_writers p))
      (dd_parallel_writer_batches d)"
    unfolding batches using repos(1) by (intro layered_batches_of role) simp_all
  have size: "\<forall>b\<in>set (dd_parallel_writer_batches d).
      b \<noteq> [] \<and> length b \<le> mp_max_parallel_writers p"
    using repos(1) chunks_parts [of "mp_max_parallel_writers p"]
    by (auto simp: batches batches_of_def)
  show ?thesis
    using part order size repos(2) dec(2) widest_ge [of 2 "dd_parallel_writer_batches d"]
    by (auto simp: batches intro: order_trans)
qed

section \<open>Leases\<close>

lemma add_leases:
  assumes "fold_res (add_lease i) leased ws = Inr final"
  shows "final = leased \<union> (\<Union>w\<in>set ws. mt_allowed_changed_paths w)
    \<and> (\<forall>w\<in>set ws. leased \<inter> mt_allowed_changed_paths w = {})
    \<and> sorted_wrt (\<lambda>v w. mt_allowed_changed_paths v \<inter> mt_allowed_changed_paths w = {}) ws"
  using assms
proof (induction ws arbitrary: leased)
  case Nil
  then show ?case by simp
next
  case (Cons w ws)
  from Cons.prems have w: "leased \<inter> mt_allowed_changed_paths w = {}"
    and rest: "fold_res (add_lease i) (leased \<union> mt_allowed_changed_paths w) ws = Inr final"
    by (auto simp: add_lease_def [of i leased w] result_simps split: if_splits)
  from Cons.IH [OF rest] w show ?case by (auto simp: Un_assoc)
qed

lemma sorted_wrt_symmetric:
  assumes "sorted_wrt R xs" and "\<And>x y. R x y \<Longrightarrow> R y x" and "x \<in> set xs" "y \<in> set xs" "x \<noteq> y"
  shows "R x y"
  using assms(1,3,4,5)
proof (induction xs)
  case (Cons z zs)
  then show ?case using assms(2) by auto
qed simp

text \<open>The groups when every writer has a repository.\<close>

definition grouped :: "multi_repo_task list \<Rightarrow> (repository_id, multi_repo_task list) omap" where
  "grouped writers =
     foldl (\<lambda>m t.
       let i = the (mt_repository_id t)
       in om_insert i ((case om_get m i of None \<Rightarrow> [] | Some ts \<Rightarrow> ts) @ [t]) m) [] writers"

lemma fold_add_writer:
  "fold_res add_writer m ws =
     (if \<forall>t\<in>set ws. mt_repository_id t \<noteq> None
      then Inr (foldl (\<lambda>m t.
        let i = the (mt_repository_id t)
        in om_insert i ((case om_get m i of None \<Rightarrow> [] | Some ts \<Rightarrow> ts) @ [t]) m) m ws)
      else Inl PlanPanicked)"
proof (induction ws arbitrary: m)
  case (Cons t ws)
  then show ?case by (cases "mt_repository_id t") (simp_all add: add_writer_def ok_or_def Let_def)
qed simp

lemma group_writers_eq:
  "group_writers ws =
     (if \<forall>t\<in>set ws. mt_repository_id t \<noteq> None then Inr (grouped ws) else Inl PlanPanicked)"
  by (simp add: group_writers_def grouped_def fold_add_writer)

lemma grouped_lookup:
  "om_get (grouped ws) i =
     (case filter (\<lambda>t. the (mt_repository_id t) = i) ws of [] \<Rightarrow> None | ts \<Rightarrow> Some ts)"
proof (induction ws rule: rev_induct)
  case Nil
  then show ?case by (simp add: grouped_def)
next
  case (snoc t ws)
  let ?m = "grouped ws" and ?i = "the (mt_repository_id t)"
  have step: "grouped (ws @ [t])
      = om_insert ?i ((case om_get ?m ?i of None \<Rightarrow> [] | Some ts \<Rightarrow> ts) @ [t]) ?m"
    by (simp add: grouped_def Let_def)
  show ?case
  proof (cases "?i = i")
    case True
    then show ?thesis using snoc by (auto simp: step split: list.splits option.splits)
  next
    case False
    then show ?thesis using snoc by (auto simp: step)
  qed
qed

lemma valid_writer:
  assumes "plan_validate p = Inr u" and "t \<in> set (plan_writers p)"
  shows "\<exists>i r. mt_repository_id t = Some i \<and> om_get (mp_repositories p) i = Some r
    \<and> mt_allowed_changed_paths t \<noteq> {}
    \<and> mt_allowed_changed_paths t \<subseteq> rb_allowed_changed_paths r"
proof -
  have "check_task_role p t = Inr ()"
    using assms(2) validate_tasks_ok(3) [OF plan_validate_ok(2) [OF assms(1)]] by simp
  then show ?thesis using assms(2)
    by (auto simp: check_task_role_def result_simps split: if_splits)
qed

text \<open>Two writers of a repository hold disjoint leases.\<close>

lemma leases_disjoint:
  assumes "plan_validate p = Inr u" and "v \<in> set (plan_writers p)" "w \<in> set (plan_writers p)"
    and "v \<noteq> w" and "mt_repository_id v = mt_repository_id w"
  shows "mt_allowed_changed_paths v \<inter> mt_allowed_changed_paths w = {}"
proof -
  note tasks = validate_tasks_ok [OF plan_validate_ok(2) [OF assms(1)]]
  define ws where "ws = with_role (plan_tasks p) RWriter"
  have ws: "set ws = set (plan_writers p)"
    using plan_tasks_entries(1) [OF tasks(2)] unfolding ws_def with_role_def
    by (simp only: set_filter)
  define i where "i = the (mt_repository_id v)"
  define group where "group = filter (\<lambda>t. the (mt_repository_id t) = i) ws"
  have mem: "v \<in> set group" "w \<in> set group"
    using assms(2,3,5) ws by (simp_all add: group_def i_def)
  then have "group \<noteq> []" by auto
  then have "om_get (grouped ws) i = Some group"
    by (simp add: grouped_lookup flip: group_def split: list.split)
  then have "(i, group) \<in> set (grouped ws)" by (rule map_of_SomeD)
  moreover have "check_all (check_leases p) (grouped ws) = Inr ()"
    using plan_validate_ok(4) [OF assms(1)]
    by (auto simp: validate_completion_graph_def Let_def result_simps ws_def group_writers_eq
      split: if_splits)
  ultimately have "check_leases p (i, group) = Inr ()" by (auto simp: result_simps)
  then obtain leased where "fold_res (add_lease i) {} group = Inr leased"
    by (auto simp: check_leases_def result_simps)
  from add_leases [OF this]
  have "sorted_wrt (\<lambda>v w. mt_allowed_changed_paths v \<inter> mt_allowed_changed_paths w = {}) group"
    by blast
  from sorted_wrt_symmetric [OF this _ mem assms(4)] show ?thesis by blast
qed

section \<open>Validation does not panic\<close>

lemma fold_res_InlD: "fold_res f s xs = Inl e \<Longrightarrow> \<exists>s x. x \<in> set xs \<and> f s x = Inl e"
proof (induction xs arbitrary: s)
  case (Cons x xs)
  then show ?case by (cases "f s x") fastforce+
qed simp

lemma check_all_InlD: "check_all f xs = Inl e \<Longrightarrow> \<exists>x\<in>set xs. f x = Inl e"
  by (auto simp: check_all_Inl_iff)

lemma validate_relative_path_no_panic: "validate_relative_path v \<noteq> Inl PlanPanicked"
  by (simp add: validate_relative_path_def)

lemma validate_repositories_no_panic: "validate_repositories p \<noteq> Inl PlanPanicked"
proof
  assume "validate_repositories p = Inl PlanPanicked"
  then obtain s x where "check_repository s x = Inl PlanPanicked"
    by (auto simp: validate_repositories_def bind_res_Inl_iff split: if_splits dest!: fold_res_InlD)
  then show False
    using validate_relative_path_no_panic
    by (auto simp: check_repository_def bind_res_Inl_iff split: prod.splits if_splits
        dest!: check_all_InlD)
qed

lemma topological_layers_no_panic: "topological_layers tasks \<noteq> Inl PlanPanicked"
  using layers_from_error [of tasks "{}" PlanPanicked] by (auto simp: topological_layers_def)

lemma validate_tasks_no_panic: "validate_tasks p \<noteq> Inl PlanPanicked"
proof
  assume "validate_tasks p = Inl PlanPanicked"
  then consider s x where "add_task p s x = Inl PlanPanicked"
    | tasks where "topological_layers tasks = Inl PlanPanicked"
    by (auto simp: validate_tasks_def bind_res_Inl_iff ensure_Inl_iff
        dest!: fold_res_InlD check_all_InlD)
  then show False
  proof cases
    case 1
    then show False
      by (auto simp: add_task_def check_task_role_def bind_res_Inl_iff ok_or_Inl_iff
          split: if_splits multi_repo_task_role.splits)
  qed (simp add: topological_layers_no_panic)
qed

lemma validate_contracts_no_panic: "validate_contracts p tasks \<noteq> Inl PlanPanicked"
  by (auto simp: validate_contracts_def bind_res_Inl_iff check_edge_def split: if_splits list.splits
      dest!: fold_res_InlD)

lemma validate_integration_checks_no_panic: "validate_integration_checks p \<noteq> Inl PlanPanicked"
  by (auto simp: validate_integration_checks_def bind_res_Inl_iff check_check_def split: if_splits
      dest!: fold_res_InlD)

lemma add_leases_no_panic: "fold_res (add_lease i) leased ws \<noteq> Inl PlanPanicked"
  by (auto simp: add_lease_def split: if_splits dest!: fold_res_InlD)

lemma checked_writer:
  assumes "validate_tasks p = Inr tasks" and "t \<in> set (with_role tasks RWriter)"
  obtains i r where "mt_repository_id t = Some i" "om_get (mp_repositories p) i = Some r"
proof -
  note tasks = validate_tasks_ok [OF assms(1)]
  have "t \<in> set (mp_tasks p)" "mt_role t = RWriter"
    using assms(2) plan_tasks_entries(1) [OF tasks(2)] unfolding tasks(1) with_role_def by auto
  then have "check_task_role p t = Inr ()" "mt_role t = RWriter" using tasks(3) by auto
  then show thesis using that by (auto simp: check_task_role_def result_simps split: if_splits)
qed

lemma completion_graph_no_panic:
  assumes "validate_tasks p = Inr tasks"
  shows "validate_completion_graph p tasks \<noteq> Inl PlanPanicked"
proof
  let ?ws = "with_role tasks RWriter"
  assume panic: "validate_completion_graph p tasks = Inl PlanPanicked"
  have grouped: "group_writers ?ws = Inr (grouped ?ws)"
    unfolding group_writers_eq using checked_writer [OF assms] by (metis option.distinct(1))
  have "check_gates rs i ids \<noteq> Inl PlanPanicked" for rs i ids
    by (auto simp: check_gates_def ensure_Inl_iff split: list.splits)
  then obtain i ts where lease: "(i, ts) \<in> set (grouped ?ws)" "check_leases p (i, ts) = Inl PlanPanicked"
    using panic by (fastforce simp: validate_completion_graph_def Let_def grouped bind_res_Inl_iff
        split: if_splits dest!: check_all_InlD)
  then have "om_get (grouped ?ws) i \<noteq> None"
    by (metis map_of_eq_None_iff image_eqI fst_conv)
  then have "filter (\<lambda>t. the (mt_repository_id t) = i) ?ws \<noteq> []"
    unfolding grouped_lookup by (auto split: list.splits)
  then obtain t where "t \<in> set ?ws" "the (mt_repository_id t) = i"
    by (auto simp: filter_empty_conv)
  then have "om_get (mp_repositories p) i \<noteq> None"
    using checked_writer [OF assms] by (metis option.distinct(1) option.sel)
  then show False
    using lease(2) add_leases_no_panic
    by (auto simp: check_leases_def bind_res_Inl_iff ok_or_Inl_iff ensure_Inl_iff)
qed

lemma plan_validate_no_panic: "plan_validate p \<noteq> Inl PlanPanicked"
  using completion_graph_no_panic [of p]
  by (auto simp: plan_validate_def bind_res_Inl_iff validate_repositories_no_panic
      validate_tasks_no_panic validate_contracts_no_panic validate_integration_checks_no_panic)

text \<open>
  No plan, however malformed, makes the validation or the decomposition panic: the \<open>expect\<close> on
  the repository of a writer, the indexing of repositories and tasks and \<open>chunks\<close> are all behind
  checks that exclude their failure.
\<close>

lemma decomposition_no_panic: "decomposition_decision_of p \<noteq> Inl PlanPanicked"
proof
  assume "decomposition_decision_of p = Inl PlanPanicked"
  then obtain layers where valid: "plan_validate p = Inr ()"
    and layers: "topological_layers (plan_tasks p) = Inr layers"
    and panic: "writer_batches p (plan_tasks p) layers = Inl PlanPanicked"
    using plan_validate_no_panic [of p] topological_layers_no_panic [of "plan_tasks p"]
    by (auto simp: decomposition_decision_of_def bind_res_Inl_iff Let_def)
  have "0 < mp_max_parallel_writers p"
    using validate_repositories_ok(1) [OF plan_validate_ok(1) [OF valid]] by simp
  moreover have "mset (concat layers) = mset (om_keys (plan_tasks p))"
    using layers_from_sound [of "plan_tasks p" "{}" layers "plan_tasks p"] layers
    by (simp add: topological_layers_def om_wf_distinct)
  then have "set (concat layers) = set (om_keys (plan_tasks p))" by (metis set_mset_mset)
  then have "list_all (list_all (om_contains (plan_tasks p))) layers"
    by (force simp: list_all_iff om_contains_def map_of_eq_None_iff)
  ultimately show False using panic by (simp add: writer_batches_eq)
qed

lemma validated_package:
  assumes "validate_change_package p c = Inr u"
  shows "\<exists>t r. t \<in> set (plan_writers p) \<and> mt_id t = cp_task_id c
    \<and> mt_repository_id t = Some (cp_repository_id c)
    \<and> om_get (mp_repositories p) (cp_repository_id c) = Some r
    \<and> cp_base_head_oid c = rb_head_oid r
    \<and> cp_changed_paths c \<noteq> {} \<and> cp_changed_paths c \<subseteq> mt_allowed_changed_paths t
    \<and> (\<forall>q\<in>set (sorted_list_of_set (cp_changed_paths c)). validate_relative_path q = Inr ())
    \<and> is_sha256 (cp_patch_sha256 c) \<and> is_sha256 (cp_result_tree_sha256 c)"
  using assms
  by (auto simp: validate_change_package_def result_simps split: if_splits dest!: find_SomeD)

text \<open>
  C37. Accepted packages never conflict. In a validated plan, two accepted change packages of
  different tasks in one repository start from the same pinned commit and change disjoint
  sets of paths, each inside the change scope of the repository.
\<close>

theorem packages_never_conflict:
  assumes "plan_validate p = Inr ()"
    and "validate_change_package p c = Inr ()" and "validate_change_package p d = Inr ()"
    and "cp_task_id c \<noteq> cp_task_id d" and "cp_repository_id c = cp_repository_id d"
  shows "cp_changed_paths c \<inter> cp_changed_paths d = {} \<and> cp_base_head_oid c = cp_base_head_oid d
    \<and> (\<exists>r. om_get (mp_repositories p) (cp_repository_id c) = Some r
         \<and> cp_changed_paths c \<union> cp_changed_paths d \<subseteq> rb_allowed_changed_paths r)"
proof -
  obtain s r where s: "s \<in> set (plan_writers p)" "mt_id s = cp_task_id c"
      "mt_repository_id s = Some (cp_repository_id c)"
      "cp_changed_paths c \<subseteq> mt_allowed_changed_paths s"
    and r: "om_get (mp_repositories p) (cp_repository_id c) = Some r"
      "cp_base_head_oid c = rb_head_oid r"
    using validated_package [OF assms(2)] by blast
  obtain t where t: "t \<in> set (plan_writers p)" "mt_id t = cp_task_id d"
      "mt_repository_id t = Some (cp_repository_id d)"
      "cp_changed_paths d \<subseteq> mt_allowed_changed_paths t"
    and d: "cp_base_head_oid d = rb_head_oid r"
    using validated_package [OF assms(3)] r(1) assms(5) by auto
  have "s \<noteq> t" using s(2) t(2) assms(4) by auto
  then have "mt_allowed_changed_paths s \<inter> mt_allowed_changed_paths t = {}"
    using leases_disjoint [OF assms(1) s(1) t(1)] s(3) t(3) assms(5) by simp
  moreover have "mt_allowed_changed_paths s \<subseteq> rb_allowed_changed_paths r"
      "mt_allowed_changed_paths t \<subseteq> rb_allowed_changed_paths r"
    using valid_writer [OF assms(1) s(1)] valid_writer [OF assms(1) t(1)] s(3) t(3) r(1) assms(5)
    by auto
  ultimately show ?thesis using s(4) t(4) r d by auto
qed

section \<open>Paths stay inside the checkout\<close>

text \<open>Lexical resolution of a path against a directory, given by its segments.\<close>

fun resolve_component :: "rstr list \<Rightarrow> component \<Rightarrow> rstr list" where
  "resolve_component base RootDir = []"
| "resolve_component base CurDir = base"
| "resolve_component base ParentDir = butlast base"
| "resolve_component base (Normal s) = base @ [s]"

definition resolve_path :: "rstr list \<Rightarrow> rstr \<Rightarrow> rstr list" where
  "resolve_path base p = foldl resolve_component base (path_components p)"

lemma resolve_inside:
  assumes "\<forall>c\<in>set cs. c \<noteq> RootDir \<and> c \<noteq> ParentDir \<and> c \<noteq> Normal s"
  shows "\<exists>segs. foldl resolve_component base cs = base @ segs \<and> s \<notin> set segs"
  using assms
proof (induction cs arbitrary: base)
  case Nil
  then show ?case by simp
next
  case (Cons c cs)
  obtain segs where "foldl resolve_component (resolve_component base c) cs
      = resolve_component base c @ segs" "s \<notin> set segs"
    using Cons by auto
  then show ?case using Cons.prems by (cases c) auto
qed

text \<open>
  C40. Accepted paths stay inside the checkout. Whatever directory the checkout is, every path
  of an accepted change package resolves to an extension of it that never enters a \<open>.git\<close>
  directory.
\<close>

theorem package_paths_stay_inside:
  assumes "validate_change_package p c = Inr ()" and "finite (cp_changed_paths c)"
    and "q \<in> cp_changed_paths c"
  shows "\<exists>segs. resolve_path checkout q = checkout @ segs \<and> ''.git'' \<notin> set segs"
proof -
  have "validate_relative_path q = Inr ()" using validated_package [OF assms(1)] assms(2,3) by auto
  then have "\<forall>c\<in>set (path_components q). c \<noteq> RootDir \<and> c \<noteq> ParentDir \<and> c \<noteq> Normal ''.git''"
    by (auto simp: validate_relative_path_def list_ex_iff split: if_splits)
  then show ?thesis unfolding resolve_path_def by (rule resolve_inside)
qed

section \<open>Result digests\<close>

text \<open>
  The result digest of a repository does not depend on the order in which its packages
  arrive, as long as no task has two packages; it exists exactly when there is a package, and
  the digest of a single package is its own tree digest.
\<close>

lemma result_digest_order_independent:
  assumes "distinct (map cp_task_id cs)" and "mset cs = mset ds"
  shows "repository_result_tree_sha256 h cs = repository_result_tree_sha256 h ds
    \<and> (repository_result_tree_sha256 h cs = None \<longleftrightarrow> cs = [])
    \<and> repository_result_tree_sha256 h [c] = Some (cp_result_tree_sha256 c)"
proof -
  have "inj_on cp_task_id (set cs)" using assms(1) by (simp add: distinct_map)
  then have "sort_key cp_task_id cs = sort_key cp_task_id ds"
    using assms(2) by (intro sort_key_inj_key_eq) simp_all
  moreover have "sort_key cp_task_id cs = [] \<longleftrightarrow> cs = []"
    by (metis length_0_conv length_sort)
  ultimately show ?thesis
    by (auto simp: repository_result_tree_sha256_def split: list.split)
qed

section \<open>A concrete plan\<close>

definition example_task :: "task_id \<Rightarrow> multi_repo_task_role \<Rightarrow> task_id set \<Rightarrow> multi_repo_task" where
  "example_task i r ds =
     \<lparr>mt_id = i, mt_role = r, mt_repository_id = None, mt_dependencies = ds,
      mt_objective = ''o'', mt_harness = ''h'', mt_harness_kind = Local, mt_model = ''m'',
      mt_model_tier = Strong, mt_budget_reservation = 10, mt_allowed_changed_paths = {}\<rparr>"

definition example_writer :: "task_id \<Rightarrow> rstr \<Rightarrow> multi_repo_task" where
  "example_writer i q = (example_task i RWriter {''p''})
     \<lparr>mt_repository_id := Some ''r'', mt_allowed_changed_paths := {q}\<rparr>"

definition example_repository :: repository_baseline where
  "example_repository =
     \<lparr>rb_repository_id = ''r'', rb_repository_fingerprint = ''f'', rb_checkout_root = ''/r'',
      rb_checkout_kind = Main, rb_head_oid = replicate 40 CHR ''a'', rb_current_branch = None,
      rb_dirty_tree_sha256 = replicate 64 CHR ''b'',
      rb_allowed_changed_paths = {''src/a'', ''src/b''}, rb_cloud_eligible = False\<rparr>"

definition example_plan :: multi_repo_plan where
  "example_plan =
     \<lparr>mp_repositories = [(''r'', example_repository)], mp_contracts = [],
      mp_contract_decisions = [],
      mp_tasks = [example_task ''p'' Planner {}, example_writer ''w1'' ''src/a'',
        example_writer ''w2'' ''src/b'', example_task ''z'' Integrator {''w1'', ''w2''}],
      mp_integration_checks =
        [\<lparr>ic_id = ''c'', ic_repository_id = ''r'', ic_argv = [''t''], ic_timeout_ms = 1000\<rparr>],
      mp_max_parallel_writers = 2, mp_requires_independent_review = False\<rparr>"

definition example_package :: "task_id \<Rightarrow> rstr \<Rightarrow> change_package" where
  "example_package i q =
     \<lparr>cp_task_id = i, cp_repository_id = ''r'', cp_base_head_oid = replicate 40 CHR ''a'',
      cp_changed_paths = {q}, cp_patch_sha256 = replicate 64 CHR ''c'',
      cp_result_tree_sha256 = replicate 64 CHR ''d'', cp_artifact_path = ''x'',
      cp_isolation = DetachedWorktree, cp_checks_run = []\<rparr>"

lemmas example_simps = example_plan_def example_package_def example_repository_def
  example_writer_def example_task_def

lemma example_plan_valid: "plan_validate example_plan = Inr ()"
  by code_simp

lemma example_packages_valid:
  "validate_change_package example_plan (example_package ''w1'' ''src/a'') = Inr ()"
  "validate_change_package example_plan (example_package ''w2'' ''src/b'') = Inr ()"
  by code_simp+

lemma example_decomposition:
  "decomposition_decision_of example_plan =
     Inr \<lparr>dd_delegated = True, dd_parallel_writer_batches = [[''w1'', ''w2'']],
          dd_reasons = [''2 repository-scoped writers are dependency-independent'']\<rparr>"
  by code_simp

lemma example_layers:
  "topological_layers (plan_tasks example_plan) = Inr [[''p''], [''w1'', ''w2''], [''z'']]"
  by code_simp

theorem topological_layers_correct_witness:
  "acyclic (dependency_relation (plan_tasks example_plan))
   \<and> layered (deps_of (plan_tasks example_plan)) {} [[''p''], [''w1'', ''w2''], [''z'']]"
proof -
  have "om_wf (plan_tasks example_plan)" by (rule om_wf_collect)
  moreover have "\<forall>i\<in>set (om_keys (plan_tasks example_plan)).
      deps_of (plan_tasks example_plan) i \<subseteq> set (om_keys (plan_tasks example_plan))"
    by code_simp
  ultimately show ?thesis
    using topological_layers_correct [of "plan_tasks example_plan"]
    unfolding example_layers sum.case by blast
qed

theorem decomposition_schedules_writers_witness:
  "mset (map mt_id (plan_writers example_plan)) = {#''w1'', ''w2''#}"
  using decomposition_schedules_writers [OF example_decomposition] by simp

theorem packages_never_conflict_witness:
  "cp_changed_paths (example_package ''w1'' ''src/a'')
     \<inter> cp_changed_paths (example_package ''w2'' ''src/b'') = {}"
proof -
  have "cp_task_id (example_package ''w1'' ''src/a'') \<noteq> cp_task_id (example_package ''w2'' ''src/b'')"
    "cp_repository_id (example_package ''w1'' ''src/a'')
      = cp_repository_id (example_package ''w2'' ''src/b'')"
    by (simp_all add: example_package_def)
  from packages_never_conflict [OF example_plan_valid example_packages_valid this]
  show ?thesis by blast
qed

theorem package_paths_stay_inside_witness:
  "resolve_path [''home''] ''src/a'' = [''home''] @ [''src'', ''a'']
   \<and> (\<exists>segs. resolve_path [''home''] ''src/a'' = [''home''] @ segs \<and> ''.git'' \<notin> set segs)"
proof -
  have "finite (cp_changed_paths (example_package ''w1'' ''src/a''))"
    "''src/a'' \<in> cp_changed_paths (example_package ''w1'' ''src/a'')"
    by (simp_all add: example_package_def)
  note inside = package_paths_stay_inside [OF example_packages_valid(1) this]
  have "resolve_path [''home''] ''src/a'' = [''home''] @ [''src'', ''a'']" by code_simp
  with inside show ?thesis by blast
qed

lemma result_digest_order_independent_witness:
  "repository_result_tree_sha256 id [example_package ''w1'' ''src/a'', example_package ''w2'' ''src/b'']
   = repository_result_tree_sha256 id [example_package ''w2'' ''src/b'', example_package ''w1'' ''src/a'']"
proof -
  let ?c = "example_package ''w1'' ''src/a''" and ?d = "example_package ''w2'' ''src/b''"
  have "distinct (map cp_task_id [?c, ?d])" by (simp add: example_package_def)
  moreover have "mset [?c, ?d] = mset [?d, ?c]" by simp
  ultimately show ?thesis using result_digest_order_independent by blast
qed

end
