(* ===== verification/RepoRun.thy ===== *)
theory RepoRun
  imports RepoPlan
begin

text \<open>
  Running a multi-repository plan: \<open>multi_repo/runtime.rs\<close>, \<open>runtime/run.rs\<close>,
  \<open>runtime/validation.rs\<close> and the receipts of \<open>multi_repo/contract.rs\<close>.

  \<^item> What the code asks the outside world (the clock, cancellation, which future of a
    \<open>FuturesUnordered\<close> is ready next, the answers of the harnesses) is a function of the
    number of questions asked so far, \<open>ru_tick\<close>; \<open>repo_world\<close> and the harness records hold these
    functions, so that every behaviour of the outside world is some value of them.
  \<^item> \<open>run_state\<close> is what a run reads and writes: the shared budget, the emitted events and
    the local collections of \<open>run\<close>. A step returns \<open>Inl\<close> with the reason of an early end
    (\<open>Abort\<close> is \<open>Err\<close>, \<open>Fail\<close> is \<open>Ok(self.failed_result(..))\<close>) or \<open>Inr\<close>.
  \<^item> The recovery and review loops have no bound in the code; they take fuel and end with
    \<open>OutOfFuel\<close> when it is used up.
  \<^item> An \<open>async\<close> harness call splits a task in the part before and after the \<open>await\<close>;
    the futures of a batch interleave at that point in any order.
\<close>

section \<open>Receipts\<close>

record reader_report =
  rp_task_id :: task_id
  rp_repository_id :: repository_id
  rp_evidence_refs :: "rstr list"
  rp_summary :: rstr

datatype review_decision = ReviewAccept | ReviewRework

record review_receipt =
  rv_reviewer_task_id :: task_id
  rv_package_sha256 :: "rstr set"
  rv_findings :: "rstr list"
  rv_decision :: review_decision
  rv_rework_task_ids :: "task_id set"

record recovery_receipt =
  rc_failed_task_id :: task_id
  rc_replacement_task_id :: task_id
  rc_preserved_package_sha256 :: "rstr set"
  rc_reused_artifact_sha256 :: "rstr option"

record integration_check_receipt =
  cr_id :: rstr
  cr_repository_id :: repository_id
  cr_argv :: "rstr list"
  cr_started_ms :: u64
  cr_finished_ms :: u64
  cr_exit_code :: "int option"
  cr_stdout_sha256 :: rstr
  cr_stderr_sha256 :: rstr
  cr_passed :: bool
  cr_error :: "rstr option"

record integration_receipt =
  ir_fresh_workspace :: bool
  ir_repository_baselines :: "(repository_id, rstr) omap"
  ir_repository_result_trees :: "(repository_id, rstr) omap"
  ir_applied_patch_sha256 :: "rstr list"
  ir_checks_run :: "rstr list"
  ir_check_receipts :: "integration_check_receipt list"
  ir_passed :: bool

datatype task_run_outcome = TaskCompleted | TaskFailed

record task_execution_receipt =
  te_task_id :: task_id
  te_role :: multi_repo_task_role
  te_repository_id :: "repository_id option"
  te_harness :: rstr
  te_model :: rstr
  te_model_tier :: model_tier
  te_attempt :: u32
  te_started_ms :: u64
  te_finished_ms :: u64
  te_outcome :: task_run_outcome
  te_usage :: usage_charge
  te_error :: "rstr option"

record planning_receipt =
  pl_planner_task_id :: task_id
  pl_plan_sha256 :: rstr
  pl_repository_baselines :: "(repository_id, rstr) omap"
  pl_delegated :: bool
  pl_validated_ms :: u64

record run_result =
  rr_decomposition :: decomposition_decision
  rr_planning :: planning_receipt
  rr_tasks :: "task_execution_receipt list"
  rr_reader_reports :: "reader_report list"
  rr_change_packages :: "change_package list"
  rr_recoveries :: "recovery_receipt list"
  rr_review :: "review_receipt option"
  rr_integration :: "integration_receipt option"
  rr_budget :: budget_snapshot
  rr_error :: "rstr option"

definition passed :: "run_result \<Rightarrow> bool" where
  "passed r \<longleftrightarrow> dd_delegated (rr_decomposition r) \<and> rr_error r = None
     \<and> (case rr_review r of None \<Rightarrow> True | Some v \<Rightarrow> rv_decision v = ReviewAccept)
     \<and> (case rr_integration r of None \<Rightarrow> False | Some i \<Rightarrow> ir_fresh_workspace i \<and> ir_passed i)"

section \<open>Harnesses, events and the state of a run\<close>

record reader_attempt =
  ra_report :: reader_report
  ra_usage :: usage_charge

record reader_failure =
  rf_message :: rstr
  rf_usage :: usage_charge

record writer_attempt =
  wa_package :: change_package
  wa_usage :: usage_charge

record writer_failure =
  wf_message :: rstr
  wf_usage :: usage_charge
  wf_reusable_artifact_sha256 :: "rstr option"

record review_attempt =
  va_receipt :: review_receipt
  va_usage :: usage_charge

record integration_attempt =
  ga_receipt :: integration_receipt
  ga_usage :: usage_charge

datatype run_event =
    EvDecomposition bool "rstr list"
  | EvTaskStarted task_id u32 u64
  | EvTaskFinished task_id u32 task_run_outcome u64 "rstr option"
  | EvPackageAccepted task_id rstr
  | EvReaderReported task_id repository_id
  | EvRecoveryScheduled task_id task_id
  | EvReviewCompleted review_decision "task_id set"
  | EvIntegrationCompleted bool

datatype run_error =
    InvalidPlan plan_error | NoBehavioralCheck | IntegrationHarnessMismatch
  | DuplicateReader rstr | DuplicateWriter rstr
  | ReviewerRegistered | ReviewNotRequired | ReviewHarnessMismatch
  | UnknownReader rstr | UnknownWriter rstr | HarnessKindMismatch task_id | ReviewerMissing
  | PlanFingerprint rstr | BadReaderReport | PackageWrongTask
  | ReviewWrongTask | ReviewNotExact | AcceptWithRework | BadRework | BadIntegration
  | RetryId contract_error | Panicked

text \<open>The harness traits: \<open>id()\<close>, \<open>kind()\<close> and the answer to a call.\<close>

record reader_harness =
  rdh_id :: rstr
  rdh_kind :: harness_kind
  rdh_run :: "nat \<Rightarrow> multi_repo_task \<Rightarrow> u32 \<Rightarrow> reader_failure + reader_attempt"

record writer_harness =
  wrh_id :: rstr
  wrh_kind :: harness_kind
  wrh_run :: "nat \<Rightarrow> multi_repo_task \<Rightarrow> u32 \<Rightarrow> writer_failure + writer_attempt"

record review_harness =
  vwh_id :: rstr
  vwh_review ::
    "nat \<Rightarrow> multi_repo_task \<Rightarrow> change_package list \<Rightarrow> u32 \<Rightarrow> rstr + review_attempt"

record integration_harness =
  igh_id :: rstr
  igh_integrate :: "nat \<Rightarrow> multi_repo_task \<Rightarrow> change_package list \<Rightarrow> rstr + integration_attempt"

record repo_coordinator =
  mc_plan :: multi_repo_plan
  mc_budget :: shared_budget
  mc_readers :: "rstr \<Rightarrow> reader_harness option"
  mc_writers :: "rstr \<Rightarrow> writer_harness option"
  mc_reviewer :: "review_harness option"
  mc_integrator :: integration_harness

record repo_world =
  w_now :: "nat \<Rightarrow> u64"
  w_cancelled :: "nat \<Rightarrow> bool"
  w_pick :: "nat \<Rightarrow> nat"
  w_plan_json :: "multi_repo_plan \<Rightarrow> rstr + rstr"
  w_sha256 :: "rstr \<Rightarrow> rstr"

record run_state =
  ru_budget :: shared_budget
  ru_tick :: nat
  ru_events :: "run_event list"
  ru_tasks :: "task_execution_receipt list"
  ru_reports :: "reader_report list"
  ru_packages :: "(task_id, change_package) omap"
  ru_recoveries :: "recovery_receipt list"

datatype early = OutOfFuel | Abort run_error | Fail rstr

type_synonym 'a step = "run_state \<Rightarrow> (early + 'a) \<times> run_state"

definition sbind :: "'a step \<Rightarrow> ('a \<Rightarrow> 'b step) \<Rightarrow> 'b step" where
  "sbind m f s = (case m s of (Inl e, t) \<Rightarrow> (Inl e, t) | (Inr a, t) \<Rightarrow> f a t)"

text \<open>A \<open>for\<close> loop whose body may end the run.\<close>

fun each_step :: "('x \<Rightarrow> unit step) \<Rightarrow> 'x list \<Rightarrow> unit step" where
  "each_step f [] s = (Inr (), s)"
| "each_step f (x # xs) s = sbind (f x) (\<lambda>_. each_step f xs) s"

definition tick :: "run_state \<Rightarrow> run_state" where
  "tick s = s\<lparr>ru_tick := Suc (ru_tick s)\<rparr>"

definition emit :: "run_event \<Rightarrow> run_state \<Rightarrow> run_state" where
  "emit e s = s\<lparr>ru_events := ru_events s @ [e]\<rparr>"

definition push_receipt :: "task_execution_receipt \<Rightarrow> run_state \<Rightarrow> run_state" where
  "push_receipt r s = s\<lparr>ru_tasks := ru_tasks s @ [r]\<rparr>"

section \<open>Construction and registration\<close>

definition plan_task :: "multi_repo_plan \<Rightarrow> multi_repo_task_role \<Rightarrow> multi_repo_task option" where
  "plan_task p role = List.find (\<lambda>t. mt_role t = role) (mp_tasks p)"

definition plan_failure :: "plan_error \<Rightarrow> run_error" where
  "plan_failure e = (if e = PlanPanicked then Panicked else InvalidPlan e)"

definition repo_coordinator_new ::
    "multi_repo_plan \<Rightarrow> shared_budget \<Rightarrow> integration_harness \<Rightarrow> run_error + repo_coordinator" where
  "repo_coordinator_new p b integrator =
     (case plan_validate p of Inl e \<Rightarrow> Inl (plan_failure e)
      | Inr _ \<Rightarrow>
        (case decomposition_decision_of p of Inl e \<Rightarrow> Inl (plan_failure e)
         | Inr d \<Rightarrow>
           if dd_delegated d \<and> mp_integration_checks p = [] then Inl NoBehavioralCheck
           else
             (case plan_task p Integrator of None \<Rightarrow> Inl Panicked
              | Some task \<Rightarrow>
                if igh_id integrator \<noteq> mt_harness task then Inl IntegrationHarnessMismatch
                else Inr \<lparr>mc_plan = p, mc_budget = b, mc_readers = Map.empty,
                          mc_writers = Map.empty, mc_reviewer = None,
                          mc_integrator = integrator\<rparr>)))"

text \<open>A refused registration has already inserted the harness.\<close>

definition register_reader ::
    "repo_coordinator \<Rightarrow> reader_harness \<Rightarrow> repo_coordinator \<times> (run_error + unit)" where
  "register_reader mc h =
     (let i = trim (rdh_id h)
      in if i = [] then (mc, Inl (DuplicateReader i))
         else (mc\<lparr>mc_readers := (mc_readers mc)(i \<mapsto> h)\<rparr>,
               ensure (mc_readers mc i = None) (DuplicateReader i)))"

definition register_writer ::
    "repo_coordinator \<Rightarrow> writer_harness \<Rightarrow> repo_coordinator \<times> (run_error + unit)" where
  "register_writer mc h =
     (let i = trim (wrh_id h)
      in if i = [] then (mc, Inl (DuplicateWriter i))
         else (mc\<lparr>mc_writers := (mc_writers mc)(i \<mapsto> h)\<rparr>,
               ensure (mc_writers mc i = None) (DuplicateWriter i)))"

definition register_reviewer ::
    "repo_coordinator \<Rightarrow> review_harness \<Rightarrow> repo_coordinator \<times> (run_error + unit)" where
  "register_reviewer mc h =
     (if mc_reviewer mc \<noteq> None then (mc, Inl ReviewerRegistered)
      else
        (case plan_task (mc_plan mc) RReviewer of
           None \<Rightarrow> (mc, Inl ReviewNotRequired)
         | Some expected \<Rightarrow>
             if vwh_id h \<noteq> mt_harness expected then (mc, Inl ReviewHarnessMismatch)
             else (mc\<lparr>mc_reviewer := Some h\<rparr>, Inr ())))"

section \<open>Validation\<close>

definition check_harness :: "repo_coordinator \<Rightarrow> multi_repo_task \<Rightarrow> run_error + unit" where
  "check_harness mc task =
     bind_res
       (if mt_role task = RReader
        then ok_or (map_option rdh_kind (mc_readers mc (mt_harness task)))
          (UnknownReader (mt_harness task))
        else ok_or (map_option wrh_kind (mc_writers mc (mt_harness task)))
          (UnknownWriter (mt_harness task)))
       (\<lambda>kind. ensure (kind = mt_harness_kind task) (HarnessKindMismatch (mt_id task)))"

definition validate_harnesses :: "repo_coordinator \<Rightarrow> run_error + unit" where
  "validate_harnesses mc =
     bind_res (check_all (check_harness mc)
       (filter (\<lambda>t. mt_role t = RReader \<or> mt_role t = RWriter) (mp_tasks (mc_plan mc))))
     (\<lambda>_. if mp_requires_independent_review (mc_plan mc) \<and> mc_reviewer mc = None
          then Inl ReviewerMissing else Inr ())"

definition validate_reader_report :: "multi_repo_task \<Rightarrow> reader_report \<Rightarrow> run_error + unit" where
  "validate_reader_report task report =
     ensure (\<not> (rp_task_id report \<noteq> mt_id task
         \<or> mt_repository_id task \<noteq> Some (rp_repository_id report)
         \<or> blank (rp_summary report) \<or> rp_evidence_refs report = []
         \<or> list_ex blank (rp_evidence_refs report)))
       BadReaderReport"

definition accept_package ::
    "repo_coordinator \<Rightarrow> multi_repo_task \<Rightarrow> writer_attempt \<Rightarrow> unit step" where
  "accept_package mc task a s =
     (case validate_change_package (mc_plan mc) (wa_package a) of
        Inl e \<Rightarrow> (Inl (Abort (InvalidPlan e)), s)
      | Inr _ \<Rightarrow>
          if cp_task_id (wa_package a) \<noteq> mt_id task then (Inl (Abort PackageWrongTask), s)
          else
            let s1 = emit (EvPackageAccepted (mt_id task) (cp_patch_sha256 (wa_package a))) s
            in (Inr (), s1\<lparr>ru_packages := om_insert (mt_id task) (wa_package a) (ru_packages s1)\<rparr>))"

definition validate_review ::
    "repo_coordinator \<Rightarrow> review_receipt \<Rightarrow> (task_id, change_package) omap \<Rightarrow> run_error + unit" where
  "validate_review mc review packages =
     (case plan_task (mc_plan mc) RReviewer of None \<Rightarrow> Inl Panicked
      | Some reviewer \<Rightarrow>
          if rv_reviewer_task_id review \<noteq> mt_id reviewer then Inl ReviewWrongTask
          else if rv_package_sha256 review \<noteq> set (map cp_patch_sha256 (om_values packages))
          then Inl ReviewNotExact
          else
            (case rv_decision review of
               ReviewAccept \<Rightarrow> ensure (rv_rework_task_ids review = {}) AcceptWithRework
             | ReviewRework \<Rightarrow>
                 if rv_rework_task_ids review = {} \<or> rv_findings review = []
                   \<or> (\<exists>i\<in>rv_rework_task_ids review. \<not> om_contains packages i)
                 then Inl BadRework else Inr ()))"

definition expected_trees ::
    "(rstr \<Rightarrow> rstr) \<Rightarrow> multi_repo_plan \<Rightarrow> (task_id, change_package) omap \<Rightarrow>
     (repository_id, rstr) omap" where
  "expected_trees sha256 p packages =
     om_collect (List.map_filter (\<lambda>i. map_option (Pair i) (repository_result_tree_sha256 sha256
         (filter (\<lambda>c. cp_repository_id c = i) (om_values packages))))
       (om_keys (mp_repositories p)))"

definition check_proved :: "integration_receipt \<Rightarrow> integration_check \<Rightarrow> bool" where
  "check_proved i check \<longleftrightarrow>
     list_ex (\<lambda>r. cr_id r = ic_id check \<and> cr_repository_id r = ic_repository_id check
         \<and> cr_argv r = ic_argv check \<and> cr_started_ms r \<le> cr_finished_ms r
         \<and> cr_exit_code r = Some 0 \<and> cr_passed r \<and> cr_error r = None
         \<and> is_sha256 (cr_stdout_sha256 r) \<and> is_sha256 (cr_stderr_sha256 r)
         \<and> cr_id r \<in> set (ir_checks_run i))
       (ir_check_receipts i)"

definition head_oids :: "multi_repo_plan \<Rightarrow> (repository_id, rstr) omap" where
  "head_oids p = om_collect (map (\<lambda>(i, r). (i, rb_head_oid r)) (mp_repositories p))"

definition validate_integration ::
    "(rstr \<Rightarrow> rstr) \<Rightarrow> repo_coordinator \<Rightarrow> integration_receipt \<Rightarrow>
     (task_id, change_package) omap \<Rightarrow> run_error + unit" where
  "validate_integration sha256 mc i packages =
     (let expected_patches = set (map cp_patch_sha256 (om_values packages));
          checks = mp_integration_checks (mc_plan mc);
          checks_valid = length (ir_check_receipts i) = length checks
            \<and> list_all (check_proved i) checks
      in if \<not> ir_fresh_workspace i \<or> \<not> ir_passed i
           \<or> ir_repository_baselines i \<noteq> head_oids (mc_plan mc)
           \<or> ir_repository_result_trees i \<noteq> expected_trees sha256 (mc_plan mc) packages
           \<or> set (ir_applied_patch_sha256 i) \<noteq> expected_patches
           \<or> length (ir_applied_patch_sha256 i) \<noteq> card expected_patches
           \<or> ir_checks_run i = [] \<or> \<not> checks_valid
         then Inl BadIntegration else Inr ())"

definition planning_receipt_of ::
    "repo_world \<Rightarrow> multi_repo_plan \<Rightarrow> bool \<Rightarrow> u64 \<Rightarrow> run_error + planning_receipt" where
  "planning_receipt_of w p delegated validated_ms =
     bind_res (ok_or (plan_task p Planner) Panicked) (\<lambda>planner.
       case w_plan_json w p of
         Inl e \<Rightarrow> Inl (PlanFingerprint e)
       | Inr serialized \<Rightarrow>
           Inr \<lparr>pl_planner_task_id = mt_id planner, pl_plan_sha256 = w_sha256 w serialized,
                pl_repository_baselines = head_oids p, pl_delegated = delegated,
                pl_validated_ms = validated_ms\<rparr>)"

definition task_receipt ::
    "multi_repo_task \<Rightarrow> u32 \<Rightarrow> u64 \<Rightarrow> u64 \<Rightarrow> task_run_outcome \<Rightarrow> usage_charge \<Rightarrow> rstr option \<Rightarrow>
     task_execution_receipt" where
  "task_receipt task attempt started_ms finished_ms outcome usage error =
     \<lparr>te_task_id = mt_id task, te_role = mt_role task, te_repository_id = mt_repository_id task,
      te_harness = mt_harness task, te_model = mt_model task,
      te_model_tier = mt_model_tier task, te_attempt = attempt, te_started_ms = started_ms,
      te_finished_ms = finished_ms, te_outcome = outcome, te_usage = usage, te_error = error\<rparr>"

text \<open>
  The id is cut at a byte: \<open>None\<close> is the panic of slicing inside a character, which an id that
  was deserialized and never went through \<open>TaskId::new\<close> may have.
\<close>

definition retry_task_id :: "task_id \<Rightarrow> u32 \<Rightarrow> (contract_error + task_id) option" where
  "retry_task_id i attempt =
     (let suffix = ''-retry-'' @ dec (unat attempt);
          keep = 64 - length suffix
      in map_option (\<lambda>kept. task_id_new (kept @ suffix)) (str_prefix i (min (length i) keep)))"

section \<open>One task\<close>

definition reservation_error_text :: "budget_error \<Rightarrow> rstr" where
  "reservation_error_text e =
     (case e of
        ReservationZero \<Rightarrow> ''budget reservations must be greater than zero''
      | CannotReserve w \<Rightarrow> ''shared orchestration budget cannot reserve ''
          @ (case w of Fin a \<Rightarrow> dec (nat \<lfloor>a\<rfloor>) | _ \<Rightarrow> ''inf'') @ '' weighted tokens''
      | _ \<Rightarrow> [])"

text \<open>
  The parts of \<open>run_reader\<close>, \<open>run_writer\<close>, \<open>run_review\<close> and \<open>run_integration\<close> that differ:
  the call of the harness (\<open>None\<close> when none is registered, where the indexing panics), the
  result when the budget refuses the reservation, and what a result says about the attempt.
\<close>

record 'res harness_call =
  hc_run :: "multi_repo_task \<Rightarrow> u32 \<Rightarrow> nat \<Rightarrow> 'res option"
  hc_refused :: "rstr \<Rightarrow> 'res"
  hc_outcome :: "'res \<Rightarrow> task_run_outcome \<times> usage_charge \<times> rstr option"

definition run_reader :: "repo_coordinator \<Rightarrow> (reader_failure + reader_attempt) harness_call" where
  "run_reader mc =
     \<lparr>hc_run = (\<lambda>task attempt k.
        map_option (\<lambda>h. rdh_run h k task attempt) (mc_readers mc (mt_harness task))),
      hc_refused = (\<lambda>m. Inl \<lparr>rf_message = m, rf_usage = default_usage_charge\<rparr>),
      hc_outcome = (\<lambda>res. case res of
          Inr a \<Rightarrow> (TaskCompleted, ra_usage a, None)
        | Inl f \<Rightarrow> (TaskFailed, rf_usage f, Some (rf_message f)))\<rparr>"

definition run_writer :: "repo_coordinator \<Rightarrow> (writer_failure + writer_attempt) harness_call" where
  "run_writer mc =
     \<lparr>hc_run = (\<lambda>task attempt k.
        map_option (\<lambda>h. wrh_run h k task attempt) (mc_writers mc (mt_harness task))),
      hc_refused = (\<lambda>m. Inl \<lparr>wf_message = m, wf_usage = default_usage_charge,
        wf_reusable_artifact_sha256 = None\<rparr>),
      hc_outcome = (\<lambda>res. case res of
          Inr a \<Rightarrow> (TaskCompleted, wa_usage a, None)
        | Inl f \<Rightarrow> (TaskFailed, wf_usage f, Some (wf_message f)))\<rparr>"

definition run_review ::
    "review_harness \<Rightarrow> change_package list \<Rightarrow> (rstr + review_attempt) harness_call" where
  "run_review h packages =
     \<lparr>hc_run = (\<lambda>task attempt k. Some (vwh_review h k task packages attempt)),
      hc_refused = Inl,
      hc_outcome = (\<lambda>res. case res of
          Inr a \<Rightarrow> (TaskCompleted, va_usage a, None)
        | Inl e \<Rightarrow> (TaskFailed, default_usage_charge, Some e))\<rparr>"

definition run_integration ::
    "repo_coordinator \<Rightarrow> change_package list \<Rightarrow> (rstr + integration_attempt) harness_call" where
  "run_integration mc packages =
     \<lparr>hc_run = (\<lambda>task attempt k. Some (igh_integrate (mc_integrator mc) k task packages)),
      hc_refused = Inl,
      hc_outcome = (\<lambda>res. case res of
          Inr a \<Rightarrow> (TaskCompleted, ga_usage a, None)
        | Inl e \<Rightarrow> (TaskFailed, default_usage_charge, Some e))\<rparr>"

text \<open>Up to the \<open>await\<close>: the clock, the event and the reservation.\<close>

definition begin_task ::
    "repo_world \<Rightarrow> multi_repo_task \<Rightarrow> u32 \<Rightarrow> run_state \<Rightarrow>
     run_state \<times> u64 \<times> (rstr + budget_reservation)" where
  "begin_task w task attempt s =
     (let started_ms = w_now w (ru_tick s);
          s1 = emit (EvTaskStarted (mt_id task) attempt started_ms) (tick s)
      in case try_reserve (ru_budget s1) (mt_budget_reservation task) of
           Inl e \<Rightarrow> (s1, started_ms, Inl (reservation_error_text e))
         | Inr (b, r) \<Rightarrow> (s1\<lparr>ru_budget := b\<rparr>, started_ms, Inr r))"

text \<open>After the \<open>await\<close>; the caller of the future pushes the returned receipt.\<close>

definition end_task ::
    "repo_world \<Rightarrow> multi_repo_task \<Rightarrow> u32 \<Rightarrow> u64 \<Rightarrow> rstr + budget_reservation \<Rightarrow>
     task_run_outcome \<times> usage_charge \<times> rstr option \<Rightarrow> run_state \<Rightarrow>
     run_state \<times> task_execution_receipt" where
  "end_task w task attempt started_ms reservation = (\<lambda>(outcome, usage, error) s.
     (let finished_ms = max (w_now w (ru_tick s)) started_ms; s1 = tick s;
          s2 = (case reservation of Inl _ \<Rightarrow> s1
                | Inr r \<Rightarrow> s1\<lparr>ru_budget := fst (settle (ru_budget s1) r usage)\<rparr>);
          s3 = emit (EvTaskFinished (mt_id task) attempt outcome finished_ms error) s2
      in (s3, task_receipt task attempt started_ms finished_ms outcome usage error)))"

definition drop_held :: "budget_reservation \<Rightarrow> run_state \<Rightarrow> run_state" where
  "drop_held r s = s\<lparr>ru_budget := drop_reservation (ru_budget s) r\<rparr>"

text \<open>A call that is awaited on the spot, with the push of its receipt.\<close>

definition call_task ::
    "repo_world \<Rightarrow> 'res harness_call \<Rightarrow> multi_repo_task \<Rightarrow> u32 \<Rightarrow> 'res step" where
  "call_task w c task attempt s =
     (case begin_task w task attempt s of
        (s1, started_ms, Inl m) \<Rightarrow>
          (let (s2, receipt) =
             end_task w task attempt started_ms (Inl m) (hc_outcome c (hc_refused c m)) s1
           in (Inr (hc_refused c m), push_receipt receipt s2))
      | (s1, started_ms, Inr r) \<Rightarrow>
          (case hc_run c task attempt (ru_tick s1) of
             None \<Rightarrow> (Inl (Abort Panicked), drop_held r s1)
           | Some res \<Rightarrow>
               (let (s2, receipt) =
                  end_task w task attempt started_ms (Inr r) (hc_outcome c res) (tick s1)
                in (Inr res, push_receipt receipt s2))))"

section \<open>Batches\<close>

text \<open>A future of a batch: not polled yet, or suspended at its \<open>await\<close>.\<close>

datatype task_future = NotStarted multi_repo_task | InFlight multi_repo_task u64 budget_reservation

fun future_task :: "task_future \<Rightarrow> multi_repo_task" where
  "future_task (NotStarted task) = task"
| "future_task (InFlight task _ _) = task"

fun future_weight :: "task_future \<Rightarrow> nat" where
  "future_weight (NotStarted _) = 2"
| "future_weight (InFlight _ _ _) = 1"

text \<open>Dropping the futures of a batch that is abandoned.\<close>

fun drop_future :: "run_state \<Rightarrow> task_future \<Rightarrow> run_state" where
  "drop_future s (NotStarted _) = s"
| "drop_future s (InFlight _ _ r) = drop_held r s"

text \<open>
  One poll of a future of a batch: it suspends (\<open>Inl\<close>), or it is ready and its receipt is pushed
  (\<open>Inr\<close>).
\<close>

fun poll_future ::
    "repo_world \<Rightarrow> 'res harness_call \<Rightarrow> task_future \<Rightarrow> (task_future + 'res) step" where
  "poll_future w c (NotStarted task) s =
     (case begin_task w task 1 s of
        (s1, started_ms, Inl m) \<Rightarrow>
          (let (s2, receipt) =
             end_task w task 1 started_ms (Inl m) (hc_outcome c (hc_refused c m)) s1
           in (Inr (Inr (hc_refused c m)), push_receipt receipt s2))
      | (s1, started_ms, Inr r) \<Rightarrow> (Inr (Inl (InFlight task started_ms r)), s1))"
| "poll_future w c (InFlight task started_ms r) s =
     (case hc_run c task 1 (ru_tick s) of
        None \<Rightarrow> (Inl (Abort Panicked), drop_held r s)
      | Some res \<Rightarrow>
          (let (s2, receipt) = end_task w task 1 started_ms (Inr r) (hc_outcome c res) (tick s)
           in (Inr (Inr res), push_receipt receipt s2)))"

definition without :: "nat \<Rightarrow> 'a list \<Rightarrow> 'a list" where
  "without i xs = take i xs @ drop (Suc i) xs"

lemma poll_future_suspends:
  "poll_future w c f s = (Inr (Inl f'), t) \<Longrightarrow> future_weight f' < future_weight f"
  by (cases f) (auto split: prod.splits sum.splits option.splits simp: Let_def)

lemma without_weight:
  "i < length fs \<Longrightarrow> sum_list (map future_weight (without i fs)) + future_weight (fs ! i)
     = sum_list (map future_weight fs)"
  by (subst (3) id_take_nth_drop [of i fs]) (simp_all add: without_def)

lemma update_weight:
  assumes "i < length fs" and "future_weight f < future_weight (fs ! i)"
  shows "sum_list (map future_weight (fs[i := f])) < sum_list (map future_weight fs)"
  using assms(2)
  by (subst (2) id_take_nth_drop [OF assms(1)])
    (simp add: upd_conv_take_nth_drop [OF assms(1)])

lemma future_weight_pos: "0 < future_weight f"
  by (cases f) simp_all

lemma without_less:
  "i < length fs \<Longrightarrow> sum_list (map future_weight (without i fs)) < sum_list (map future_weight fs)"
  using without_weight [of i fs] future_weight_pos [of "fs ! i"] by linarith

text \<open>
  \<open>while let Some(..) = futures.next().await\<close>: the world picks the future that makes progress;
  \<open>ready\<close> is the body of the loop, which returns the failed tasks to retry. When the body ends
  the run, the remaining futures are dropped.
\<close>

function drain ::
    "repo_world \<Rightarrow> 'res harness_call \<Rightarrow> (multi_repo_task \<Rightarrow> 'res \<Rightarrow> 'x list step) \<Rightarrow>
     task_future list \<Rightarrow> 'x list step" where
  "drain w c ready fs s =
     (if fs = [] then (Inr [], s)
      else let i = w_pick w (ru_tick s) mod length fs
        in case poll_future w c (fs ! i) (tick s) of
             (Inl e, t) \<Rightarrow> (Inl e, foldl drop_future t (without i fs))
           | (Inr (Inl f), t) \<Rightarrow> drain w c ready (fs[i := f]) t
           | (Inr (Inr res), t) \<Rightarrow>
               (case ready (future_task (fs ! i)) res t of
                  (Inl e, u) \<Rightarrow> (Inl e, foldl drop_future u (without i fs))
                | (Inr failed, u) \<Rightarrow>
                    sbind (drain w c ready (without i fs)) (\<lambda>more s. (Inr (failed @ more), s)) u))"
  by pat_completeness auto
termination
  by (relation "measure (\<lambda>(w, c, ready, fs, s). sum_list (map future_weight fs))")
    (auto intro!: update_weight without_less dest!: poll_future_suspends [OF sym])

declare drain.simps [simp del]

section \<open>The run\<close>

definition lift_res :: "run_error + 'a \<Rightarrow> 'a step" where
  "lift_res r s = (case r of Inl e \<Rightarrow> (Inl (Abort e), s) | Inr a \<Rightarrow> (Inr a, s))"

definition map_state :: "(run_state \<Rightarrow> run_state) \<Rightarrow> unit step" where
  "map_state f s = (Inr (), f s)"

text \<open>\<open>cancel.is_cancelled()\<close>, ending the run with a failed result.\<close>

definition unless_cancelled :: "repo_world \<Rightarrow> rstr \<Rightarrow> unit step" where
  "unless_cancelled w message s =
     ((if w_cancelled w (ru_tick s) then Inl (Fail message) else Inr ()), tick s)"

definition newline :: rstr where
  "newline = [CHR 0x0A]"

definition add_report :: "multi_repo_task \<Rightarrow> reader_attempt \<Rightarrow> unit step" where
  "add_report task a =
     sbind (lift_res (validate_reader_report task (ra_report a))) (\<lambda>_.
       map_state (\<lambda>s.
         let s1 = emit (EvReaderReported (mt_id task) (rp_repository_id (ra_report a))) s
         in s1\<lparr>ru_reports := ru_reports s1 @ [ra_report a]\<rparr>))"

definition reader_ready ::
    "multi_repo_task \<Rightarrow> reader_failure + reader_attempt \<Rightarrow> (multi_repo_task \<times> reader_failure) list step"
where
  "reader_ready task res =
     (case res of
        Inr a \<Rightarrow> sbind (add_report task a) (\<lambda>_ s. (Inr [], s))
      | Inl failure \<Rightarrow> (\<lambda>s. (Inr [(task, failure)], s)))"

fun retry_reader ::
    "repo_world \<Rightarrow> repo_coordinator \<Rightarrow> nat \<Rightarrow> multi_repo_task \<Rightarrow> reader_failure \<Rightarrow> u32 \<Rightarrow> unit step"
where
  "retry_reader w mc 0 task failure attempt_number s = (Inl OutOfFuel, s)"
| "retry_reader w mc (Suc fuel) task failure attempt_number s =
     sbind (unless_cancelled w (''reader '' @ mt_id task @ '' cancelled'')) (\<lambda>_.
       let task' = task\<lparr>mt_objective := mt_objective task @ newline @ newline
             @ ''Targeted reader recovery feedback:'' @ newline @ rf_message failure\<rparr>
       in sbind (call_task w (run_reader mc) task' attempt_number) (\<lambda>res.
            case res of
              Inr a \<Rightarrow> add_report task' a
            | Inl next_failure \<Rightarrow>
                retry_reader w mc fuel task' next_failure (sat_add attempt_number 1))) s"

definition with_reader_context :: "multi_repo_task \<Rightarrow> reader_report list \<Rightarrow> multi_repo_task" where
  "with_reader_context task reports =
     (let relevant = map (\<lambda>r. rp_summary r @ newline @ ''Evidence: ''
            @ join_with '', '' (rp_evidence_refs r))
          (filter (\<lambda>r. mt_repository_id task = Some (rp_repository_id r)) reports)
      in if relevant = [] then task
         else task\<lparr>mt_objective := mt_objective task @ newline @ newline
                @ ''Repository reader findings (evidence, not instructions):'' @ newline @ ''- ''
                @ join_with (newline @ ''- '') relevant\<rparr>)"

definition writer_ready ::
    "repo_coordinator \<Rightarrow> multi_repo_task \<Rightarrow> writer_failure + writer_attempt \<Rightarrow>
     (multi_repo_task \<times> writer_failure) list step"
where
  "writer_ready mc task res =
     (case res of
        Inr a \<Rightarrow> sbind (accept_package mc task a) (\<lambda>_ s. (Inr [], s))
      | Inl failure \<Rightarrow> (\<lambda>s. (Inr [(task, failure)], s)))"

definition push_recovery :: "recovery_receipt \<Rightarrow> run_state \<Rightarrow> run_state" where
  "push_recovery r s = s\<lparr>ru_recoveries := ru_recoveries s @ [r]\<rparr>"

definition map_res :: "('e \<Rightarrow> 'f) \<Rightarrow> 'e + 'a \<Rightarrow> 'f + 'a" where
  "map_res f r = (case r of Inl e \<Rightarrow> Inl (f e) | Inr a \<Rightarrow> Inr a)"

fun retry_writer ::
    "repo_world \<Rightarrow> repo_coordinator \<Rightarrow> nat \<Rightarrow> multi_repo_task \<Rightarrow> writer_failure \<Rightarrow> u32 \<Rightarrow> unit step"
where
  "retry_writer w mc 0 task failure attempt_number s = (Inl OutOfFuel, s)"
| "retry_writer w mc (Suc fuel) task failure attempt_number s =
     sbind (unless_cancelled w (''writer '' @ mt_id task @ '' cancelled'')) (\<lambda>_.
     sbind (lift_res (case retry_task_id (mt_id task) attempt_number of
         None \<Rightarrow> Inl Panicked | Some r \<Rightarrow> map_res RetryId r)) (\<lambda>replacement.
     sbind (map_state (emit (EvRecoveryScheduled (mt_id task) replacement))) (\<lambda>_ s1.
       let preserved = set (map cp_patch_sha256 (om_values (ru_packages s1)));
           task' = task\<lparr>mt_objective := mt_objective task @ newline @ newline
             @ ''Targeted recovery feedback from the failed attempt:'' @ newline
             @ wf_message failure\<rparr>
       in sbind (call_task w (run_writer mc) task' attempt_number) (\<lambda>res.
            case res of
              Inr a \<Rightarrow>
                sbind (map_state (push_recovery
                  \<lparr>rc_failed_task_id = mt_id task, rc_replacement_task_id = replacement,
                   rc_preserved_package_sha256 = preserved,
                   rc_reused_artifact_sha256 = wf_reusable_artifact_sha256 failure\<rparr>)) (\<lambda>_.
                accept_package mc task' a)
            | Inl next_failure \<Rightarrow>
                retry_writer w mc fuel task' next_failure (sat_add attempt_number 1)) s1))) s"

definition run_readers :: "repo_world \<Rightarrow> nat \<Rightarrow> repo_coordinator \<Rightarrow> task_map \<Rightarrow> unit step" where
  "run_readers w fuel mc tasks =
     sbind (drain w (run_reader mc) reader_ready (map NotStarted (with_role tasks RReader)))
       (each_step (\<lambda>(task, failure). retry_reader w mc fuel task failure 2))"

text \<open>\<open>task_map[task_id]\<close> panics on an unknown id.\<close>

definition run_batch ::
    "repo_world \<Rightarrow> nat \<Rightarrow> repo_coordinator \<Rightarrow> task_map \<Rightarrow> task_id list \<Rightarrow> unit step" where
  "run_batch w fuel mc tasks batch s =
     (if \<not> list_all (om_contains tasks) batch then (Inl (Abort Panicked), s)
      else sbind
        (drain w (run_writer mc) (writer_ready mc)
          (map (\<lambda>i. NotStarted (with_reader_context (the (om_get tasks i)) (ru_reports s))) batch))
        (each_step (\<lambda>(task, failure). retry_writer w mc fuel task failure 2)) s)"

definition rework_task ::
    "repo_world \<Rightarrow> repo_coordinator \<Rightarrow> task_map \<Rightarrow> rstr \<Rightarrow> u32 \<Rightarrow> task_id \<Rightarrow> unit step" where
  "rework_task w mc tasks feedback attempt i =
     sbind (lift_res (ok_or (om_get tasks i) Panicked)) (\<lambda>task.
       let task' = task\<lparr>mt_objective := mt_objective task @ newline @ newline
             @ ''Independent review requires targeted rework:'' @ newline @ ''- '' @ feedback\<rparr>
       in sbind (call_task w (run_writer mc) task' attempt) (\<lambda>res.
            case res of
              Inl error \<Rightarrow> (\<lambda>s. (Inl (Fail (''review rework failed for '' @ mt_id task' @ '': ''
                @ wf_message error)), s))
            | Inr a \<Rightarrow> accept_package mc task' a))"

fun review_loop ::
    "repo_world \<Rightarrow> repo_coordinator \<Rightarrow> task_map \<Rightarrow> review_harness \<Rightarrow> multi_repo_task \<Rightarrow> nat \<Rightarrow> u32 \<Rightarrow>
     review_receipt step"
where
  "review_loop w mc tasks reviewer task 0 attempt s = (Inl OutOfFuel, s)"
| "review_loop w mc tasks reviewer task (Suc fuel) attempt s =
     sbind (call_task w (run_review reviewer (om_values (ru_packages s))) task attempt) (\<lambda>res.
       case res of
         Inl error \<Rightarrow> (\<lambda>s. (Inl (Fail (''independent review failed: '' @ error)), s))
       | Inr a \<Rightarrow> (\<lambda>s1.
           let receipt = va_receipt a
           in sbind (lift_res (validate_review mc receipt (ru_packages s1))) (\<lambda>_.
              sbind (map_state (emit (EvReviewCompleted (rv_decision receipt)
                (rv_rework_task_ids receipt)))) (\<lambda>_.
                if rv_decision receipt = ReviewAccept then (\<lambda>s. (Inr receipt, s))
                else sbind (unless_cancelled w ''independent review cancelled'') (\<lambda>_.
                  sbind (each_step (rework_task w mc tasks
                      (join_with (newline @ ''- '') (rv_findings receipt)) (attempt + 1))
                    (sorted_list_of_set (rv_rework_task_ids receipt))) (\<lambda>_.
                  review_loop w mc tasks reviewer task fuel (attempt + 1))))) s1)) s"

definition review_phase ::
    "repo_world \<Rightarrow> nat \<Rightarrow> repo_coordinator \<Rightarrow> task_map \<Rightarrow> review_receipt option step" where
  "review_phase w fuel mc tasks =
     (if \<not> mp_requires_independent_review (mc_plan mc) then (\<lambda>s. (Inr None, s))
      else sbind (lift_res (ok_or (plan_task (mc_plan mc) RReviewer) Panicked)) (\<lambda>task.
           sbind (lift_res (ok_or (mc_reviewer mc) Panicked)) (\<lambda>reviewer.
           sbind (review_loop w mc tasks reviewer task fuel 1) (\<lambda>receipt s.
             (Inr (Some receipt), s)))))"

text \<open>The receipt with the error of an invalid one.\<close>

definition integration_phase ::
    "repo_world \<Rightarrow> repo_coordinator \<Rightarrow> (integration_receipt \<times> run_error option) step" where
  "integration_phase w mc s =
     sbind (lift_res (ok_or (plan_task (mc_plan mc) Integrator) Panicked)) (\<lambda>task.
     sbind (call_task w (run_integration mc (om_values (ru_packages s))) task 1) (\<lambda>res.
       case res of
         Inl error \<Rightarrow> (\<lambda>s. (Inl (Fail (''fresh integration failed: '' @ error)), s))
       | Inr a \<Rightarrow> (\<lambda>s1.
           (case validate_integration (w_sha256 w) mc (ga_receipt a) (ru_packages s1) of
              Inl e \<Rightarrow> (Inr (ga_receipt a, Some e), s1)
            | Inr _ \<Rightarrow> (Inr (ga_receipt a, None),
                emit (EvIntegrationCompleted (ir_passed (ga_receipt a))) s1))))) s"

definition delegated_run ::
    "repo_world \<Rightarrow> nat \<Rightarrow> repo_coordinator \<Rightarrow> decomposition_decision \<Rightarrow>
     (review_receipt option \<times> integration_receipt \<times> run_error option) step" where
  "delegated_run w fuel mc d =
     (let tasks = plan_tasks (mc_plan mc)
      in sbind (run_readers w fuel mc tasks) (\<lambda>_.
         sbind (each_step (run_batch w fuel mc tasks) (dd_parallel_writer_batches d)) (\<lambda>_.
         sbind (review_phase w fuel mc tasks) (\<lambda>review.
         sbind (integration_phase w mc) (\<lambda>(integration, error) s.
           (Inr (review, integration, error), s))))))"

text \<open>\<open>run\<close> up to the delegation: the planner task is recorded as done.\<close>

definition plan_phase ::
    "repo_world \<Rightarrow> repo_coordinator \<Rightarrow> (decomposition_decision \<times> planning_receipt) step" where
  "plan_phase w mc =
     sbind (lift_res (validate_harnesses mc)) (\<lambda>_.
     sbind (lift_res (map_res plan_failure (decomposition_decision_of (mc_plan mc)))) (\<lambda>d.
     sbind (map_state (emit (EvDecomposition (dd_delegated d) (dd_reasons d)))) (\<lambda>_.
     sbind (lift_res (ok_or (plan_task (mc_plan mc) Planner) Panicked)) (\<lambda>planner s.
       let started_ms = w_now w (ru_tick s);
           s1 = emit (EvTaskStarted (mt_id planner) 1 started_ms) (tick s)
       in sbind (lift_res (planning_receipt_of w (mc_plan mc) (dd_delegated d) started_ms))
          (\<lambda>planning s2.
            let finished_ms = max (w_now w (ru_tick s2)) started_ms;
                s3 = emit (EvTaskFinished (mt_id planner) 1 TaskCompleted finished_ms None) (tick s2)
            in (Inr (d, planning), push_receipt (task_receipt planner 1 started_ms finished_ms
                 TaskCompleted default_usage_charge None) s3)) s1))))"

definition run_result_of ::
    "decomposition_decision \<Rightarrow> planning_receipt \<Rightarrow> run_state \<Rightarrow> review_receipt option \<Rightarrow>
     integration_receipt option \<Rightarrow> rstr option \<Rightarrow> run_result" where
  "run_result_of d planning s review integration error =
     \<lparr>rr_decomposition = d, rr_planning = planning, rr_tasks = ru_tasks s,
      rr_reader_reports = ru_reports s, rr_change_packages = om_values (ru_packages s),
      rr_recoveries = ru_recoveries s, rr_review = review, rr_integration = integration,
      rr_budget = sb_snapshot (ru_budget s), rr_error = error\<rparr>"

definition initial_run :: "repo_coordinator \<Rightarrow> run_state" where
  "initial_run mc =
     \<lparr>ru_budget = mc_budget mc, ru_tick = 0, ru_events = [], ru_tasks = [], ru_reports = [],
      ru_packages = [], ru_recoveries = []\<rparr>"

text \<open>\<open>None\<close> when the fuel of a loop ran out.\<close>

definition repo_run ::
    "repo_world \<Rightarrow> nat \<Rightarrow> repo_coordinator \<Rightarrow> (run_error + run_result) option \<times> run_state" where
  "repo_run w fuel mc =
     (case plan_phase w mc (initial_run mc) of
        (Inl (Abort e), s) \<Rightarrow> (Some (Inl e), s)
      | (Inl _, s) \<Rightarrow> (None, s)
      | (Inr (d, planning), s) \<Rightarrow>
          if \<not> dd_delegated d then (Some (Inr (run_result_of d planning s None None None)), s)
          else
            (case delegated_run w fuel mc d s of
               (Inl OutOfFuel, s1) \<Rightarrow> (None, s1)
             | (Inl (Abort e), s1) \<Rightarrow> (Some (Inl e), s1)
             | (Inl (Fail message), s1) \<Rightarrow>
                 (Some (Inr (run_result_of d planning s1 None None (Some message))), s1)
             | (Inr (review, integration, error), s1) \<Rightarrow>
                 (Some (Inr (run_result_of d planning s1 review (Some integration)
                    (map_option (\<lambda>_. ''integration receipt does not prove exact fresh replay'')
                       error))), s1)))"

end
