(* ===== verification/RepoRunInv.thy ===== *)
theory RepoRunInv
  imports RepoRun
begin

text \<open>
  What every run of a multi-repository plan keeps. The locale \<open>run_invariant\<close> names the
  primitive steps of a run; a predicate that each of them keeps is kept by the whole run,
  however the futures interleave and wherever the run ends. Its argument besides the state is
  the list of the tasks suspended at their \<open>await\<close>, with the reservations they hold. The
  interpretations follow: the budget only changes by operations of \<open>SharedBudget\<close>
  and every reservation is given back; receipts and events agree; every package is accepted for
  its task; packages and the number of questions asked only grow.
\<close>

section \<open>The steps of a run\<close>

type_synonym open_task = "multi_repo_task \<times> u32 \<times> u64 \<times> budget_reservation"

definition keeps :: "('o \<Rightarrow> run_state \<Rightarrow> bool) \<Rightarrow> 'a step \<Rightarrow> bool" where
  "keeps I m \<longleftrightarrow> (\<forall>os s. I os s \<longrightarrow> I os (snd (m s)))"

fun task_event :: "run_event \<Rightarrow> bool" where
  "task_event (EvTaskStarted _ _ _) = True"
| "task_event (EvTaskFinished _ _ _ _ _) = True"
| "task_event _ = False"

lemma keepsI: "(\<And>os s. I os s \<Longrightarrow> I os (snd (m s))) \<Longrightarrow> keeps I m"
  by (simp add: keeps_def)

lemma keepsD: "keeps I m \<Longrightarrow> I os s \<Longrightarrow> I os (snd (m s))"
  by (simp add: keeps_def)

lemma keeps_return [intro, simp]: "keeps I (\<lambda>s. (r, s))"
  by (simp add: keeps_def)

lemma keeps_lift [intro, simp]: "keeps I (lift_res r)"
  by (auto simp: keeps_def lift_res_def split: sum.split)

lemma keeps_sbind [intro]:
  assumes "keeps I m" and "\<And>a. keeps I (f a)"
  shows "keeps I (sbind m f)"
proof (rule keepsI)
  fix os s assume "I os s"
  then have "I os (snd (m s))" by (rule keepsD [OF assms(1)])
  then show "I os (snd (sbind m f s))"
    using keepsD [OF assms(2)] by (auto simp: sbind_def split: prod.split sum.split)
qed

text \<open>A step that is chosen by looking at the state.\<close>

lemma keeps_look: "(\<And>t. keeps I (m t)) \<Longrightarrow> keeps I (\<lambda>s. m s s)"
  by (simp add: keeps_def)

lemma keeps_look_sbind:
  "(\<And>t. keeps I (m t)) \<Longrightarrow> (\<And>t a. keeps I (f t a)) \<Longrightarrow> keeps I (\<lambda>s. sbind (m s) (f s) s)"
  by (rule keeps_look) (rule keeps_sbind)

lemma keeps_case_sum:
  "(\<And>e. keeps I (f e)) \<Longrightarrow> (\<And>a. keeps I (g a)) \<Longrightarrow>
     keeps I (case res of Inl e \<Rightarrow> f e | Inr a \<Rightarrow> g a)"
  by (cases res) simp_all

lemma keeps_if: "keeps I m \<Longrightarrow> keeps I n \<Longrightarrow> keeps I (if b then m else n)"
  by simp

lemma keeps_map_state: "(\<And>os s. I os s \<Longrightarrow> I os (f s)) \<Longrightarrow> keeps I (map_state f)"
  by (simp add: keeps_def map_state_def)

lemma keeps_each [intro]:
  assumes "\<And>x. keeps I (f x)"
  shows "keeps I (each_step f xs)"
proof (induction xs)
  case Nil
  then show ?case by (simp add: keeps_def)
next
  case (Cons x xs)
  have "keeps I (sbind (f x) (\<lambda>_. each_step f xs))" using assms Cons by blast
  then show ?case by (simp add: keeps_def)
qed

definition open_of :: "task_future list \<Rightarrow> open_task list" where
  "open_of fs = concat (map (\<lambda>f. case f of NotStarted _ \<Rightarrow> []
     | InFlight task started_ms r \<Rightarrow> [(task, 1, started_ms, r)]) fs)"

lemma open_of_simps [simp]:
  "open_of [] = []"
  "open_of (NotStarted t # fs) = open_of fs"
  "open_of (InFlight t st r # fs) = (t, 1, st, r) # open_of fs"
  "open_of (fs @ gs) = open_of fs @ open_of gs"
  by (simp_all add: open_of_def)

lemma open_of_not_started [simp]: "open_of (map (\<lambda>x. NotStarted (f x)) xs) = []"
  by (induction xs) simp_all

locale run_invariant =
  fixes w :: repo_world and mc :: repo_coordinator
    and I :: "open_task list \<Rightarrow> run_state \<Rightarrow> bool"
  assumes inv_tick: "I os s \<Longrightarrow> I os (tick s)"
    and inv_emit: "\<not> task_event e \<Longrightarrow> I os s \<Longrightarrow> I os (emit e s)"
    and inv_planner: "I os s \<Longrightarrow> I os (emit (EvTaskStarted i 1 started) s)"
    and inv_planned: "I os s \<Longrightarrow> EvTaskStarted (mt_id task) 1 started \<in> set (ru_events s) \<Longrightarrow>
      started \<le> finished \<Longrightarrow>
      I os (push_receipt (task_receipt task 1 started finished TaskCompleted usage None)
        (emit (EvTaskFinished (mt_id task) 1 TaskCompleted finished None) s))"
    and inv_begin: "I (xs @ ys) s \<Longrightarrow> begin_task w task n s = (t, started, Inr r) \<Longrightarrow>
      I (xs @ (task, n, started, r) # ys) t"
    and inv_refuse: "I os s \<Longrightarrow> begin_task w task n s = (t, started, Inl m) \<Longrightarrow>
      end_task w task n started (Inl m) out t = (u, receipt) \<Longrightarrow> I os (push_receipt receipt u)"
    and inv_end: "I (xs @ (task, n, started, r) # ys) s \<Longrightarrow>
      end_task w task n started (Inr r) out s = (u, receipt) \<Longrightarrow>
      I (xs @ ys) (push_receipt receipt u)"
    and inv_drop: "I (xs @ (task, n, started, r) # ys) s \<Longrightarrow> I (xs @ ys) (drop_held r s)"
    and inv_report: "I os s \<Longrightarrow> I os (s\<lparr>ru_reports := ru_reports s @ [rep]\<rparr>)"
    and inv_recovery: "I os s \<Longrightarrow> I os (push_recovery rec s)"
    and inv_package: "I os s \<Longrightarrow> validate_change_package (mc_plan mc) c = Inr v \<Longrightarrow>
      I os (s\<lparr>ru_packages := om_insert (cp_task_id c) c (ru_packages s)\<rparr>)"
begin

lemma keeps_call_task: "keeps I (call_task w c task n)"
proof (rule keepsI)
  fix os s assume s: "I os s"
  obtain t started res where b: "begin_task w task n s = (t, started, res)"
    by (cases "begin_task w task n s")
  show "I os (snd (call_task w c task n s))"
  proof (cases res)
    case (Inl m)
    then show ?thesis using inv_refuse [OF s b [unfolded Inl]] b
      by (simp add: call_task_def split: prod.split)
  next
    case (Inr r)
    have t: "I ([] @ (task, n, started, r) # os) t" using inv_begin [of "[]" os, OF _ b [unfolded Inr]] s by simp
    show ?thesis using inv_end [OF inv_tick [OF t]] inv_drop [OF t] Inr b
      by (auto simp: call_task_def split: prod.split option.split)
  qed
qed

lemma drop_futures: "I (os @ open_of fs @ ps) s \<Longrightarrow> I (os @ ps) (foldl drop_future s fs)"
proof (induction fs arbitrary: s)
  case (Cons f fs)
  show ?case
  proof (cases f)
    case (NotStarted t)
    then show ?thesis using Cons by simp
  next
    case (InFlight t st r)
    have "I (os @ open_of fs @ ps) (drop_held r s)"
      using inv_drop [of os t 1 st r "open_of fs @ ps" s] Cons.prems InFlight by simp
    then show ?thesis using Cons.IH InFlight by simp
  qed
qed simp

text \<open>A poll works on the polled future and leaves the others suspended.\<close>

lemma inv_poll:
  assumes "I (xs @ open_of [f] @ ys) s" and "poll_future w c f s = (res, t)"
  shows "case res of Inr (Inl f') \<Rightarrow> I (xs @ open_of [f'] @ ys) t | _ \<Rightarrow> I (xs @ ys) t"
proof (cases f)
  case (NotStarted task)
  obtain u started r where b: "begin_task w task 1 s = (u, started, r)"
    by (cases "begin_task w task 1 s")
  show ?thesis
  proof (cases r)
    case (Inl m)
    then show ?thesis
      using assms NotStarted b
        inv_refuse [of "xs @ ys" s task 1 u started m "hc_outcome c (hc_refused c m)"]
      by (auto split: prod.splits)
  next
    case (Inr h)
    then show ?thesis
      using assms NotStarted b inv_begin [of xs ys s task 1 u started h] by auto
  qed
next
  case (InFlight task started r)
  have s: "I (xs @ (task, 1, started, r) # ys) s" using assms(1) InFlight by simp
  show ?thesis
  proof (cases "hc_run c task 1 (ru_tick s)")
    case None
    then show ?thesis using assms(2) InFlight inv_drop [OF s] by auto
  next
    case (Some x)
    obtain u receipt where e:
        "end_task w task 1 started (Inr r) (hc_outcome c x) (tick s) = (u, receipt)"
      by (cases "end_task w task 1 started (Inr r) (hc_outcome c x) (tick s)")
    from inv_end [OF inv_tick [OF s] e] show ?thesis using assms(2) InFlight Some e by auto
  qed
qed

lemma open_of_split:
  assumes "i < length fs"
  shows "open_of fs = open_of (take i fs) @ open_of [fs ! i] @ open_of (drop (Suc i) fs)"
    and "open_of (without i fs) = open_of (take i fs) @ open_of (drop (Suc i) fs)"
    and "open_of (fs[i := f]) = open_of (take i fs) @ open_of [f] @ open_of (drop (Suc i) fs)"
proof -
  show "open_of fs = open_of (take i fs) @ open_of [fs ! i] @ open_of (drop (Suc i) fs)"
    by (subst id_take_nth_drop [OF assms]) (metis append_Cons append_Nil open_of_simps(4))
  show "open_of (without i fs) = open_of (take i fs) @ open_of (drop (Suc i) fs)"
    by (simp add: without_def)
  show "open_of (fs[i := f]) = open_of (take i fs) @ open_of [f] @ open_of (drop (Suc i) fs)"
    unfolding upd_conv_take_nth_drop [OF assms] by (metis append_Cons append_Nil open_of_simps(4))
qed

lemma inv_drain:
  assumes "\<And>task res. keeps I (ready task res)" and "I (open_of fs @ os) s"
  shows "I os (snd (drain w c ready fs s))"
  using assms(2)
proof (induction "sum_list (map future_weight fs)" arbitrary: fs s rule: less_induct)
  case less
  show ?case
  proof (cases "fs = []")
    case True
    then show ?thesis using less.prems by (simp add: drain.simps)
  next
    case False
    define i where "i = w_pick w (ru_tick s) mod length fs"
    have i: "i < length fs" using False by (simp add: i_def)
    note split = open_of_split [OF i]
    obtain r t where poll: "poll_future w c (fs ! i) (tick s) = (r, t)"
      by (cases "poll_future w c (fs ! i) (tick s)")
    have "I (open_of (take i fs) @ open_of [fs ! i] @ open_of (drop (Suc i) fs) @ os) (tick s)"
      using inv_tick [OF less.prems] split(1) by simp
    from inv_poll [OF this poll]
    have p: "case r of Inr (Inl f) \<Rightarrow> I (open_of (fs[i := f]) @ os) t
        | _ \<Rightarrow> I (open_of (without i fs) @ os) t"
      unfolding split(2,3) by (auto split: sum.splits)
    show ?thesis
    proof (cases "\<exists>f. r = Inr (Inl f)")
      case True
      then obtain f where f: "r = Inr (Inl f)" by blast
      have "sum_list (map future_weight (fs[i := f])) < sum_list (map future_weight fs)"
        using poll f by (intro update_weight [OF i]) (auto dest: poll_future_suspends)
      from less.hyps [OF this] p f False show ?thesis
        by (subst drain.simps) (simp add: poll flip: i_def)
    next
      case suspended: False
      then have t: "I (open_of (without i fs) @ os) t" using p by (auto split: sum.splits)
      note drop = drop_futures [of "[]" "without i fs" os, simplified]
      note rest = less.hyps [OF without_less [OF i]]
      show ?thesis
      proof (cases r)
        case (Inl e)
        then show ?thesis using False t drop by (subst drain.simps) (simp add: poll flip: i_def)
      next
        case (Inr q)
        then obtain x where x: "r = Inr (Inr x)" using suspended by (cases q) auto
        obtain y u where y: "ready (future_task (fs ! i)) x t = (y, u)"
          by (cases "ready (future_task (fs ! i)) x t")
        have u: "I (open_of (without i fs) @ os) u" using keepsD [OF assms(1) t] y by (metis snd_conv)
        show ?thesis using False x y u drop rest [OF u]
          by (subst drain.simps)
            (auto simp: poll sbind_def simp flip: i_def split: sum.split prod.split)
      qed
    qed
  qed
qed

lemma keeps_drain:
  assumes "\<And>task res. keeps I (ready task res)"
  shows "keeps I (drain w c ready (map (\<lambda>x. NotStarted (g x)) xs))"
  by (rule keepsI, rule inv_drain [OF assms]) simp

lemma keeps_emit: "\<not> task_event e \<Longrightarrow> keeps I (map_state (emit e))"
  by (intro keeps_map_state inv_emit)

lemma keeps_unless_cancelled: "keeps I (unless_cancelled w m)"
  by (simp add: keeps_def unless_cancelled_def inv_tick)

lemma keeps_add_report: "keeps I (add_report task a)"
proof -
  have "I os (let s1 = emit (EvReaderReported i j) s in s1\<lparr>ru_reports := ru_reports s1 @ [r]\<rparr>)"
    if "I os s" for i j r os s
    using inv_report [OF inv_emit [OF _ that], of "EvReaderReported i j" r] by (simp add: Let_def)
  then show ?thesis unfolding add_report_def by (intro keeps_sbind keeps_lift keeps_map_state)
qed

lemma keeps_accept_package: "keeps I (accept_package mc task a)"
proof (rule keepsI)
  fix os s assume s: "I os s"
  let ?e = "EvPackageAccepted (mt_id task) (cp_patch_sha256 (wa_package a))"
  have "I os (emit ?e s)" using s by (intro inv_emit) simp_all
  from inv_package [OF this, of "wa_package a"] s
  show "I os (snd (accept_package mc task a s))"
    by (auto simp: accept_package_def Let_def split: sum.split)
qed

lemma keeps_retry_reader: "keeps I (retry_reader w mc fuel task failure n)"
proof (induction fuel arbitrary: task failure n)
  case 0
  then show ?case by (simp add: keeps_def)
next
  case (Suc fuel)
  show ?case
    unfolding retry_reader.simps(2) [abs_def] Let_def
    by (intro keeps_sbind keeps_unless_cancelled keeps_call_task keeps_case_sum keeps_add_report Suc)
qed

lemma keeps_retry_writer: "keeps I (retry_writer w mc fuel task failure n)"
proof (induction fuel arbitrary: task failure n)
  case 0
  then show ?case by (simp add: keeps_def)
next
  case (Suc fuel)
  show ?case
    unfolding retry_writer.simps(2) [abs_def] Let_def
    by (intro keeps_sbind keeps_look_sbind keeps_unless_cancelled keeps_lift keeps_emit
        keeps_call_task keeps_case_sum keeps_accept_package keeps_map_state inv_recovery Suc)
      simp_all
qed

lemma keeps_run_readers: "keeps I (run_readers w fuel mc tasks)"
proof -
  have "keeps I (reader_ready task res)" for task res
    by (auto simp: reader_ready_def intro: keeps_add_report split: sum.split)
  from keeps_drain [of _ _ "\<lambda>x. x", OF this] show ?thesis
    unfolding run_readers_def
    by (intro keeps_sbind keeps_each) (auto simp: map_idI intro: keeps_retry_reader)
qed

lemma keeps_run_batch: "keeps I (run_batch w fuel mc tasks batch)"
proof -
  have "keeps I (writer_ready mc task res)" for task res
    by (auto simp: writer_ready_def intro: keeps_accept_package split: sum.split)
  note drain = keeps_drain [OF this]
  have "keeps I (\<lambda>s. if \<not> list_all (om_contains tasks) batch then (Inl (Abort Panicked), s)
      else sbind (drain w (run_writer mc) (writer_ready mc)
        (map (\<lambda>i. NotStarted (with_reader_context (the (om_get tasks i)) (ru_reports t))) batch))
        (each_step (\<lambda>(task, failure). retry_writer w mc fuel task failure 2)) s)" for t
  proof (cases "list_all (om_contains tasks) batch")
    case True
    then show ?thesis by simp (intro keeps_sbind keeps_each drain; auto intro: keeps_retry_writer)
  qed simp
  from keeps_look [OF this] show ?thesis by (simp add: run_batch_def [abs_def])
qed

lemma keeps_rework_task: "keeps I (rework_task w mc tasks feedback n i)"
  unfolding rework_task_def Let_def
  by (intro keeps_sbind keeps_lift keeps_call_task keeps_case_sum keeps_return keeps_accept_package)

lemma keeps_review_loop: "keeps I (review_loop w mc tasks reviewer task fuel n)"
proof (induction fuel arbitrary: n)
  case 0
  then show ?case by (simp add: keeps_def)
next
  case (Suc fuel)
  show ?case
    unfolding review_loop.simps(2) [abs_def] Let_def
    by (intro keeps_look_sbind keeps_sbind keeps_lift keeps_call_task keeps_case_sum keeps_if
        keeps_return keeps_each keeps_rework_task keeps_unless_cancelled keeps_emit Suc)
      simp
qed

lemma keeps_review_phase: "keeps I (review_phase w fuel mc tasks)"
  unfolding review_phase_def
  by (intro keeps_if keeps_sbind keeps_lift keeps_return keeps_review_loop)

lemma keeps_integration_phase: "keeps I (integration_phase w mc)"
  unfolding integration_phase_def [abs_def]
  by (intro keeps_look_sbind keeps_sbind keeps_lift keeps_call_task keeps_case_sum keeps_return)
    (auto simp: keeps_def intro: inv_emit split: sum.split)

lemma keeps_delegated_run: "keeps I (delegated_run w fuel mc d)"
  unfolding delegated_run_def Let_def
  by (intro keeps_sbind keeps_each keeps_run_readers keeps_run_batch keeps_review_phase
      keeps_integration_phase) auto

lemma keeps_plan_phase: "keeps I (plan_phase w mc)"
proof -
  have "I os (snd (sbind (lift_res (planning_receipt_of w p d started)) (\<lambda>planning s2.
        let finished_ms = max (w_now w (ru_tick s2)) started;
            s3 = emit (EvTaskFinished (mt_id planner) 1 TaskCompleted finished_ms None) (tick s2)
        in (Inr (dd, planning), push_receipt (task_receipt planner 1 started finished_ms
             TaskCompleted default_usage_charge None) s3))
        (emit (EvTaskStarted (mt_id planner) 1 started) (tick s))))"
    if "I os s" for os s p d started planner and dd :: decomposition_decision
  proof -
    let ?s = "emit (EvTaskStarted (mt_id planner) 1 started) (tick s)"
    have s: "I os ?s" using that by (intro inv_planner inv_tick)
    have "EvTaskStarted (mt_id planner) 1 started \<in> set (ru_events (tick ?s))"
      by (simp add: emit_def tick_def)
    from inv_planned [OF inv_tick [OF s] this] s show ?thesis
      by (auto simp: sbind_def lift_res_def Let_def split: sum.split)
  qed
  then show ?thesis
    unfolding plan_phase_def Let_def
    by (intro keeps_sbind keeps_lift keeps_emit) (simp_all add: keeps_def Let_def)
qed

text \<open>The whole run.\<close>

lemma inv_run:
  assumes "I [] (initial_run mc)"
  shows "I [] (snd (repo_run w fuel mc))"
proof -
  obtain r s where p: "plan_phase w mc (initial_run mc) = (r, s)"
    by (cases "plan_phase w mc (initial_run mc)")
  have s: "I [] s" using keepsD [OF keeps_plan_phase assms] p by simp
  have "I [] (snd (delegated_run w fuel mc d s))" for d by (rule keepsD [OF keeps_delegated_run s])
  with s p show ?thesis
    by (auto simp: repo_run_def split: sum.split early.split prod.split) (metis snd_conv)+
qed

end

section \<open>What runs keep\<close>

lemmas run_simps = tick_def emit_def push_receipt_def push_recovery_def drop_held_def

lemma begin_task_cases:
  assumes "begin_task w task n s = (t, started, res)"
  shows "case res of
      Inl m \<Rightarrow> t = emit (EvTaskStarted (mt_id task) n started) (tick s)
    | Inr r \<Rightarrow> \<exists>b. try_reserve (ru_budget s) (mt_budget_reservation task) = Inr (b, r)
        \<and> t = (emit (EvTaskStarted (mt_id task) n started) (tick s))\<lparr>ru_budget := b\<rparr>"
  using assms
  by (auto simp: begin_task_def Let_def run_simps split: sum.splits prod.splits)

lemma end_task_cases:
  assumes "end_task w task n started res (out, usage, err) s = (t, receipt)"
  shows "\<exists>finished\<ge>started. receipt = task_receipt task n started finished out usage err
    \<and> t = emit (EvTaskFinished (mt_id task) n out finished err)
        ((tick s)\<lparr>ru_budget := (case res of Inl _ \<Rightarrow> ru_budget s
            | Inr r \<Rightarrow> fst (settle (ru_budget s) r usage))\<rparr>)"
  using assms
  by (intro exI [of _ "max (w_now w (ru_tick s)) started"])
    (auto simp: end_task_def Let_def run_simps split: sum.splits)

subsection \<open>The budget\<close>

definition held_by :: "open_task list \<Rightarrow> budget_reservation list" where
  "held_by os = map (\<lambda>(task, n, started, r). r) os"

definition budget_history ::
    "shared_budget \<times> budget_reservation list \<Rightarrow> open_task list \<Rightarrow> run_state \<Rightarrow> bool" where
  "budget_history p os s \<longleftrightarrow>
     (\<exists>hs. mset hs = mset (held_by os @ snd p) \<and> budget_step\<^sup>*\<^sup>* p (ru_budget s, hs))"

lemma held_by_simps [simp]:
  "held_by [] = []"
  "held_by ((task, n, started, r) # os) = r # held_by os"
  "held_by (xs @ ys) = held_by xs @ held_by ys"
  by (simp_all add: held_by_def)

lemma budget_history_reserve:
  assumes "budget_history p (xs @ ys) s" and "try_reserve (ru_budget s) n = Inr (b, r)"
    and "ru_budget t = b"
  shows "budget_history p (xs @ (task, k, started, r) # ys) t"
proof -
  obtain hs where hs: "mset hs = mset (held_by (xs @ ys) @ snd p)"
    "budget_step\<^sup>*\<^sup>* p (ru_budget s, hs)"
    using assms(1) by (auto simp: budget_history_def)
  have "budget_step\<^sup>*\<^sup>* p (b, r # hs)"
    using hs(2) bs_reserve [OF assms(2)] by (rule rtranclp.rtrancl_into_rtrancl)
  moreover have "mset (r # hs) = mset (held_by (xs @ (task, k, started, r) # ys) @ snd p)"
    using hs(1) by simp
  ultimately show ?thesis using assms(3) unfolding budget_history_def by blast
qed

text \<open>Giving a reservation back, by settling or dropping it.\<close>

lemma budget_history_release:
  assumes "budget_history p (xs @ (task, k, started, r) # ys) s"
    and "ru_budget t = drop_reservation (ru_budget s) r \<or> ru_budget t = fst (settle (ru_budget s) r u)"
  shows "budget_history p (xs @ ys) t"
proof -
  obtain hs where hs: "mset hs = mset (held_by (xs @ (task, k, started, r) # ys) @ snd p)"
    "budget_step\<^sup>*\<^sup>* p (ru_budget s, hs)"
    using assms(1) by (auto simp: budget_history_def)
  have "r \<in># mset hs" unfolding hs(1) by simp
  then have "r \<in> set hs" by simp
  then obtain as bs where split: "hs = as @ r # bs" by (auto simp: in_set_conv_decomp)
  have "budget_step (ru_budget s, hs) (ru_budget t, as @ bs)"
    using assms(2) bs_drop bs_settle unfolding split by metis
  with hs(2) have "budget_step\<^sup>*\<^sup>* p (ru_budget t, as @ bs)"
    by (rule rtranclp.rtrancl_into_rtrancl)
  moreover have "mset (as @ bs) = mset (held_by (xs @ ys) @ snd p)"
    using hs(1) by (simp add: split)
  ultimately show ?thesis unfolding budget_history_def by blast
qed

lemma budget_history_same:
  "budget_history p os s \<Longrightarrow> ru_budget t = ru_budget s \<Longrightarrow> budget_history p os t"
  by (simp add: budget_history_def)

interpretation budgeted: run_invariant w mc "budget_history p" for w mc p
proof (unfold_locales, goal_cases)
  case (5 xs ys s task n t started r)
  then show ?case
    using begin_task_cases [OF 5(2)] by (auto intro!: budget_history_reserve)
next
  case (6 os s task n t started m out u receipt)
  obtain o1 o2 o3 where "out = (o1, o2, o3)" by (cases out)
  then show ?case
    using 6 begin_task_cases [OF 6(2)] end_task_cases [of w task n started "Inl m" o1 o2 o3 t u receipt]
    by (auto simp: run_simps intro: budget_history_same)
next
  case (7 xs task n started r ys s out u receipt)
  obtain o1 o2 o3 where "out = (o1, o2, o3)" by (cases out)
  then show ?case
    using 7 end_task_cases [of w task n started "Inr r" o1 o2 o3 s u receipt]
    by (auto simp: run_simps intro: budget_history_release [where u = o2])
next
  case (8 xs task n started r ys s)
  then show ?case by (rule budget_history_release) (simp add: run_simps)
qed (auto simp: run_simps intro: budget_history_same)

subsection \<open>Receipts and events\<close>

definition finished_event :: "task_execution_receipt \<Rightarrow> run_event" where
  "finished_event r = EvTaskFinished (te_task_id r) (te_attempt r) (te_outcome r)
     (te_finished_ms r) (te_error r)"

fun is_finished :: "run_event \<Rightarrow> bool" where
  "is_finished (EvTaskFinished _ _ _ _ _) = True"
| "is_finished _ = False"

text \<open>The receipt \<open>r\<close> is the \<open>k\<close>-th of a list of events: the \<open>k\<close>-th \<open>TaskFinished\<close> event is its own, and the
  \<open>TaskStarted\<close> event of its attempt stands before that one.\<close>

definition recorded :: "run_event list \<Rightarrow> nat \<Rightarrow> task_execution_receipt \<Rightarrow> bool" where
  "recorded es k r \<longleftrightarrow> te_started_ms r \<le> te_finished_ms r
     \<and> (\<exists>pre post. es = pre @ finished_event r # post \<and> length (filter is_finished pre) = k
          \<and> EvTaskStarted (te_task_id r) (te_attempt r) (te_started_ms r) \<in> set pre)"

lemma recorded_more: "recorded es k r \<Longrightarrow> recorded (es @ fs) k r"
  by (fastforce simp: recorded_def)

definition receipted :: "open_task list \<Rightarrow> run_state \<Rightarrow> bool" where
  "receipted os s \<longleftrightarrow>
     filter is_finished (ru_events s) = map finished_event (ru_tasks s)
     \<and> (\<forall>k<length (ru_tasks s). recorded (ru_events s) k (ru_tasks s ! k))
     \<and> (\<forall>(task, n, started, r)\<in>set os. EvTaskStarted (mt_id task) n started \<in> set (ru_events s))"

lemma receipted_more_events:
  "receipted os s \<Longrightarrow> ru_events t = ru_events s @ es \<Longrightarrow> ru_tasks t = ru_tasks s \<Longrightarrow>
     \<forall>e\<in>set es. \<not> is_finished e \<Longrightarrow> receipted os t"
  by (auto simp: receipted_def filter_False recorded_more)

lemma not_finished: "\<not> task_event e \<Longrightarrow> \<not> is_finished e"
  by (cases e) simp_all

lemma receipted_finish:
  assumes "receipted os s" and "ru_events t = ru_events s @ [EvTaskFinished (mt_id task) n out finished err]"
    and "ru_tasks t = ru_tasks s @ [task_receipt task n started finished out usage err]"
    and "started \<le> finished" and "EvTaskStarted (mt_id task) n started \<in> set (ru_events s)"
    and "set ps \<subseteq> set os"
  shows "receipted ps t"
proof -
  let ?r = "task_receipt task n started finished out usage err"
  have fe: "finished_event ?r = EvTaskFinished (mt_id task) n out finished err"
    by (simp add: finished_event_def task_receipt_def)
  have f: "filter is_finished (ru_events s) = map finished_event (ru_tasks s)"
    using assms(1) by (simp add: receipted_def)
  then have "filter is_finished (ru_events t) = map finished_event (ru_tasks t)"
    by (simp add: assms(2,3) fe)
  moreover have "recorded (ru_events t) (length (ru_tasks s)) ?r"
    unfolding recorded_def fe using assms(4,5) f
    by (intro conjI exI [of _ "ru_events s"] exI [of _ "[]"])
      (simp_all add: assms(2) task_receipt_def)
  then have "\<forall>k<length (ru_tasks t). recorded (ru_events t) k (ru_tasks t ! k)"
    using assms(1) unfolding assms(2,3)
    by (auto simp: receipted_def recorded_more nth_append less_Suc_eq)
  moreover have "\<forall>(task, n, started, r)\<in>set ps.
      EvTaskStarted (mt_id task) n started \<in> set (ru_events t)"
    using assms(1,2,6) by (fastforce simp: receipted_def)
  ultimately show ?thesis by (simp add: receipted_def)
qed

interpretation receipts: run_invariant w mc receipted for w mc
proof (unfold_locales, goal_cases)
  case (1 os s)
  then show ?case by (rule receipted_more_events [where es = "[]"]) (simp_all add: run_simps)
next
  case (2 e os s)
  then show ?case
    by (intro receipted_more_events [OF 2(2), where es = "[e]"])
      (simp_all add: run_simps not_finished)
next
  case (3 os s i started)
  then show ?case
    by (rule receipted_more_events [where es = "[EvTaskStarted i 1 started]"])
      (simp_all add: run_simps)
next
  case (4 os s task started finished usage)
  then show ?case by (intro receipted_finish [OF 4(1)]) (simp_all add: run_simps)
next
  case (5 xs ys s task n t started r)
  then have "receipted (xs @ ys) t"
    using begin_task_cases [OF 5(2)]
    by (intro receipted_more_events [OF 5(1), where es = "[EvTaskStarted (mt_id task) n started]"])
      (auto simp: run_simps)
  moreover have "EvTaskStarted (mt_id task) n started \<in> set (ru_events t)"
    using begin_task_cases [OF 5(2)] by (auto simp: run_simps)
  ultimately show ?case by (auto simp: receipted_def)
next
  case (6 os s task n t started m out u receipt)
  obtain o1 o2 o3 where "out = (o1, o2, o3)" by (cases out)
  note e = end_task_cases [OF 6(3) [unfolded this]]
  have t: "receipted os t"
    using begin_task_cases [OF 6(2)]
    by (intro receipted_more_events [OF 6(1), where es = "[EvTaskStarted (mt_id task) n started]"])
      (auto simp: run_simps)
  moreover have "EvTaskStarted (mt_id task) n started \<in> set (ru_events t)"
    using begin_task_cases [OF 6(2)] by (auto simp: run_simps)
  ultimately show ?case using e by (auto simp: run_simps intro!: receipted_finish [OF t])
next
  case (7 xs task n started r ys s out u receipt)
  obtain o1 o2 o3 where "out = (o1, o2, o3)" by (cases out)
  note e = end_task_cases [OF 7(2) [unfolded this]]
  have "EvTaskStarted (mt_id task) n started \<in> set (ru_events s)"
    using 7(1) by (auto simp: receipted_def)
  then show ?case using e by (auto simp: run_simps intro!: receipted_finish [OF 7(1)])
qed (auto simp: receipted_def run_simps)

subsection \<open>Packages\<close>

text \<open>Every package has been accepted for the task it is stored under.\<close>

definition packages_ok :: "multi_repo_plan \<Rightarrow> (task_id, change_package) omap \<Rightarrow> bool" where
  "packages_ok p packages \<longleftrightarrow> om_wf packages \<and>
     (\<forall>(i, c)\<in>set packages. cp_task_id c = i \<and> validate_change_package p c = Inr ())"

lemma set_om_insert_subset: "set (om_insert k v m) \<subseteq> insert (k, v) (set m)"
  by (induction k v m rule: om_insert.induct) auto

lemma packages_ok_insert:
  assumes "packages_ok p packages" and "validate_change_package p c = Inr ()"
  shows "packages_ok p (om_insert (cp_task_id c) c packages)"
  using assms set_om_insert_subset [of "cp_task_id c" c packages]
  by (auto simp: packages_ok_def)

lemma begin_task_keeps:
  assumes "begin_task w task n s = (t, started, res)"
  shows "ru_packages t = ru_packages s" and "ru_reports t = ru_reports s"
    and "ru_tick t = Suc (ru_tick s)" and "ru_recoveries t = ru_recoveries s"
  using begin_task_cases [OF assms] by (auto simp: run_simps split: sum.splits)

lemma end_task_keeps:
  assumes "end_task w task n started res out s = (t, receipt)"
  shows "ru_packages t = ru_packages s" and "ru_reports t = ru_reports s"
    and "ru_tick t = Suc (ru_tick s)" and "ru_recoveries t = ru_recoveries s"
  using assms
  by (auto simp: end_task_def Let_def run_simps split: sum.splits prod.splits)

interpretation packaged: run_invariant w mc "\<lambda>os s. packages_ok (mc_plan mc) (ru_packages s)" for w mc
  by unfold_locales (auto simp: run_simps packages_ok_insert begin_task_keeps end_task_keeps)

text \<open>No package is ever removed, and every question is asked once.\<close>

interpretation covered: run_invariant w mc "\<lambda>os s. K \<subseteq> set (om_keys (ru_packages s))" for w mc K
  by unfold_locales (auto simp: run_simps begin_task_keeps end_task_keeps)

interpretation ticking: run_invariant w mc "\<lambda>os s. k \<le> ru_tick s" for w mc k
  by unfold_locales (auto simp: run_simps begin_task_keeps end_task_keeps)

end
