(* ===== verification/RepoRunProps.thy ===== *)
theory RepoRunProps
  imports RepoRunInv
begin

text \<open>
  Theorems about complete runs of a multi-repository plan: what a run that passed has proved,
  that receipts and budget are settled wherever a run ends, that a run cannot panic, when it is
  certain to end, and when recovery cannot end.
\<close>

section \<open>Reasons a step never ends with\<close>

definition avoids :: "early \<Rightarrow> (run_state \<Rightarrow> bool) \<Rightarrow> 'a step \<Rightarrow> bool" where
  "avoids e P m \<longleftrightarrow> (\<forall>s. P s \<longrightarrow> fst (m s) \<noteq> Inl e \<and> P (snd (m s)))"

lemma avoidsI: "(\<And>s. P s \<Longrightarrow> fst (m s) \<noteq> Inl e) \<Longrightarrow> keeps (\<lambda>_ :: unit. P) m \<Longrightarrow> avoids e P m"
  by (simp add: avoids_def keeps_def)

lemma avoids_sbind:
  assumes "avoids e P m" and "\<And>a. avoids e P (f a)"
  shows "avoids e P (sbind m f)"
proof -
  have "fst (sbind m f s) \<noteq> Inl e \<and> P (snd (sbind m f s))" if "P s" for s
  proof -
    obtain r t where mt: "m s = (r, t)" by (cases "m s")
    have "r \<noteq> Inl e" "P t" using assms(1) that mt by (auto simp: avoids_def dest!: spec [of _ s])
    then show ?thesis using assms(2) mt by (cases r) (simp_all add: sbind_def avoids_def)
  qed
  then show ?thesis by (simp add: avoids_def)
qed

lemma avoids_look: "(\<And>t. P t \<Longrightarrow> avoids e P (m t)) \<Longrightarrow> avoids e P (\<lambda>s. m s s)"
  by (simp add: avoids_def)

lemma avoids_each: "(\<And>x. x \<in> set xs \<Longrightarrow> avoids e P (f x)) \<Longrightarrow> avoids e P (each_step f xs)"
proof (induction xs)
  case Nil
  then show ?case by (simp add: avoids_def)
next
  case (Cons x xs)
  have "avoids e P (sbind (f x) (\<lambda>_. each_step f xs))"
    by (intro avoids_sbind) (simp_all add: Cons)
  then show ?case by (simp add: avoids_def)
qed

lemma avoids_return: "r \<noteq> Inl e \<Longrightarrow> avoids e P (\<lambda>s. (r, s))"
  by (simp add: avoids_def)

lemma avoids_lift: "(\<And>x. r = Inl x \<Longrightarrow> Abort x \<noteq> e) \<Longrightarrow> avoids e P (lift_res r)"
  by (auto simp: avoids_def lift_res_def split: sum.split)

lemma avoids_case_sum:
  "(\<And>x. res = Inl x \<Longrightarrow> avoids e P (f x)) \<Longrightarrow> (\<And>a. res = Inr a \<Longrightarrow> avoids e P (g a)) \<Longrightarrow>
     avoids e P (case res of Inl x \<Rightarrow> f x | Inr a \<Rightarrow> g a)"
  by (cases res) simp_all

lemma avoids_if: "(b \<Longrightarrow> avoids e P m) \<Longrightarrow> (\<not> b \<Longrightarrow> avoids e P n) \<Longrightarrow> avoids e P (if b then m else n)"
  by simp

section \<open>Cancellation ends every run\<close>

definition returns :: "'a step \<Rightarrow> bool" where
  "returns m \<longleftrightarrow> (\<forall>s. fst (m s) \<noteq> Inl OutOfFuel)"

lemma returns_avoids: "returns m \<longleftrightarrow> avoids OutOfFuel (\<lambda>_. True) m"
  by (simp add: returns_def avoids_def)

lemma returns_sbind: "returns m \<Longrightarrow> (\<And>a. returns (f a)) \<Longrightarrow> returns (sbind m f)"
  unfolding returns_avoids by (rule avoids_sbind)

lemma returns_look: "(\<And>t. returns (m t)) \<Longrightarrow> returns (\<lambda>s. m s s)"
  by (simp add: returns_def)

lemma returns_look_sbind:
  "(\<And>t. returns (m t)) \<Longrightarrow> (\<And>t a. returns (f t a)) \<Longrightarrow> returns (\<lambda>s. sbind (m s) (f s) s)"
  by (rule returns_look) (rule returns_sbind)

lemma returns_case_sum:
  "(\<And>x. returns (f x)) \<Longrightarrow> (\<And>a. returns (g a)) \<Longrightarrow>
     returns (case res of Inl x \<Rightarrow> f x | Inr a \<Rightarrow> g a)"
  by (cases res) simp_all

lemma returns_each: "(\<And>x. returns (f x)) \<Longrightarrow> returns (each_step f xs)"
  unfolding returns_avoids by (rule avoids_each)

lemma returns_basic [simp]:
  "returns (\<lambda>s. (Inr a, f s))" "returns (\<lambda>s. (Inl (Fail m), f s))" "returns (lift_res r)"
  "returns (map_state f)" "returns (unless_cancelled w m)"
  by (simp_all add: returns_def lift_res_def map_state_def unless_cancelled_def split: sum.split)

lemma returns_call_task [simp]: "returns (call_task w c task n)"
  by (auto simp: returns_def call_task_def split: prod.splits sum.splits option.splits)

lemma returns_accept_package [simp]: "returns (accept_package mc task a)"
  by (simp add: returns_def accept_package_def Let_def split: sum.split)

lemma returns_add_report [simp]: "returns (add_report task a)"
  unfolding add_report_def by (intro returns_sbind) simp_all

lemma poll_future_end: "poll_future w c f s = (Inl e, t) \<Longrightarrow> e = Abort Panicked"
  by (cases f) (auto split: prod.splits sum.splits option.splits)

lemma poll_future_keeps:
  assumes "poll_future w c f s = (r, t)"
  shows "ru_packages t = ru_packages s" and "r = Inr (Inl f') \<Longrightarrow> future_task f' = future_task f"
  using assms
  by (cases f; auto simp: run_simps begin_task_keeps end_task_keeps
      split: prod.splits sum.splits option.splits)+

text \<open>
  A rule for batches: \<open>J\<close> speaks of the failures so far, the pending futures and the state, \<open>Q\<close>
  of the reasons for which the batch may end the run.
\<close>

lemma drain_outcome:
  assumes start: "J acc fs s"
    and suspend: "\<And>acc fs s i f t. J acc fs s \<Longrightarrow> i < length fs \<Longrightarrow>
      poll_future w c (fs ! i) (tick s) = (Inr (Inl f), t) \<Longrightarrow> J acc (fs[i := f]) t"
    and finish: "\<And>acc fs s i res t xs u. J acc fs s \<Longrightarrow> i < length fs \<Longrightarrow>
      poll_future w c (fs ! i) (tick s) = (Inr (Inr res), t) \<Longrightarrow>
      ready (future_task (fs ! i)) res t = (Inr xs, u) \<Longrightarrow> J (acc @ xs) (without i fs) u"
    and panic: "\<And>acc fs s i e t. J acc fs s \<Longrightarrow> i < length fs \<Longrightarrow>
      poll_future w c (fs ! i) (tick s) = (Inl e, t) \<Longrightarrow> Q e"
    and refuse: "\<And>acc fs s i res t e u. J acc fs s \<Longrightarrow> i < length fs \<Longrightarrow>
      poll_future w c (fs ! i) (tick s) = (Inr (Inr res), t) \<Longrightarrow>
      ready (future_task (fs ! i)) res t = (Inl e, u) \<Longrightarrow> Q e"
  shows "case drain w c ready fs s of (Inl e, t) \<Rightarrow> Q e | (Inr failed, t) \<Rightarrow> J (acc @ failed) [] t"
  using start
proof (induction "sum_list (map future_weight fs)" arbitrary: fs s acc rule: less_induct)
  case less
  show ?case
  proof (cases "fs = []")
    case True
    then show ?thesis using less.prems by (simp add: drain.simps)
  next
    case False
    define i where "i = w_pick w (ru_tick s) mod length fs"
    have i: "i < length fs" using False by (simp add: i_def)
    obtain r u where poll: "poll_future w c (fs ! i) (tick s) = (r, u)"
      by (cases "poll_future w c (fs ! i) (tick s)")
    have step: "drain w c ready fs s = (case r of Inl e \<Rightarrow> (Inl e, foldl drop_future u (without i fs))
        | Inr (Inl f) \<Rightarrow> drain w c ready (fs[i := f]) u
        | Inr (Inr res) \<Rightarrow> (case ready (future_task (fs ! i)) res u of
              (Inl e, v) \<Rightarrow> (Inl e, foldl drop_future v (without i fs))
            | (Inr xs, v) \<Rightarrow> sbind (drain w c ready (without i fs))
                (\<lambda>more s. (Inr (xs @ more), s)) v))"
      using False by (subst drain.simps) (simp add: poll Let_def split: sum.splits flip: i_def)
    consider (ended) e where "r = Inl e" | (suspended) f where "r = Inr (Inl f)"
      | (finished) res xs v where "r = Inr (Inr res)" "ready (future_task (fs ! i)) res u = (Inr xs, v)"
      | (refused) res e v where "r = Inr (Inr res)" "ready (future_task (fs ! i)) res u = (Inl e, v)"
      by (metis old.sum.exhaust surj_pair)
    then show ?thesis
    proof cases
      case ended
      then show ?thesis using panic [OF less.prems i] poll by (simp add: step)
    next
      case suspended
      then have "J acc (fs[i := f]) u" using suspend [OF less.prems i] poll by simp
      moreover have "sum_list (map future_weight (fs[i := f])) < sum_list (map future_weight fs)"
        using poll suspended by (intro update_weight [OF i]) (auto dest: poll_future_suspends)
      ultimately show ?thesis using less.hyps [of "fs[i := f]" acc u] suspended by (simp add: step)
    next
      case finished
      then have "J (acc @ xs) (without i fs) v" using finish [OF less.prems i] poll by simp
      from less.hyps [OF without_less [OF i] this] finished show ?thesis
        by (auto simp: step sbind_def split: sum.splits prod.splits)
    next
      case refused
      then show ?thesis using refuse [OF less.prems i] poll by (simp add: step)
    qed
  qed
qed

lemma drain_rule:
  assumes "drain w c ready fs s = (Inr failed, t)" and "J [] fs s"
    and "\<And>acc fs s i f t. J acc fs s \<Longrightarrow> i < length fs \<Longrightarrow>
      poll_future w c (fs ! i) (tick s) = (Inr (Inl f), t) \<Longrightarrow> J acc (fs[i := f]) t"
    and "\<And>acc fs s i res t xs u. J acc fs s \<Longrightarrow> i < length fs \<Longrightarrow>
      poll_future w c (fs ! i) (tick s) = (Inr (Inr res), t) \<Longrightarrow>
      ready (future_task (fs ! i)) res t = (Inr xs, u) \<Longrightarrow> J (acc @ xs) (without i fs) u"
  shows "J failed [] t"
  using drain_outcome [of J "[]" fs s w c ready "\<lambda>_. True"] assms by simp

lemma returns_drain:
  assumes "\<And>task res. returns (ready task res)"
  shows "returns (drain w c ready fs)"
proof -
  have "case drain w c ready fs s of (Inl e, t) \<Rightarrow> e \<noteq> OutOfFuel | (Inr failed, t) \<Rightarrow> True" for s
  proof (rule drain_outcome [where J = "\<lambda>_ _ _. True", OF TrueI TrueI TrueI])
    show "e \<noteq> OutOfFuel" if "poll_future w c (gs ! i) (tick u) = (Inl e, t)" for gs i u e t
      using poll_future_end [OF that] by simp
    show "e \<noteq> OutOfFuel" if "ready task res t = (Inl e, u)" for task res t e u
      using assms [of task res] that unfolding returns_def by (metis fst_conv)
  qed
  then show ?thesis
    unfolding returns_def by (metis (mono_tags, lifting) case_prod_conv old.sum.simps(5) prod.collapse)
qed

text \<open>One round of a loop that starts by asking whether the run is cancelled.\<close>

lemma round_of_loop:
  assumes "\<forall>k\<ge>K. w_cancelled w k" and "K - ru_tick s < Suc fuel"
    and "\<And>t. ru_tick s < K \<Longrightarrow> ru_tick t = Suc (ru_tick s) \<Longrightarrow> fst (m t) \<noteq> Inl OutOfFuel"
  shows "fst (sbind (unless_cancelled w msg) (\<lambda>_. m) s) \<noteq> Inl OutOfFuel"
  using assms(1,3) by (cases "ru_tick s < K")
    (auto simp: sbind_def unless_cancelled_def tick_def not_less)

lemma sbind_at:
  assumes "fst (m s) \<noteq> Inl e" and "\<And>a t. m s = (Inr a, t) \<Longrightarrow> fst (f a t) \<noteq> Inl e"
  shows "fst (sbind m f s) \<noteq> Inl e"
proof (cases "m s")
  case (Pair r t)
  then show ?thesis using assms by (cases r) (auto simp: sbind_def)
qed

lemma returnsD: "returns m \<Longrightarrow> fst (m s) \<noteq> Inl OutOfFuel"
  by (simp add: returns_def)

lemma ticks_call_task: "call_task w c task n s = (r, t) \<Longrightarrow> ru_tick s \<le> ru_tick t"
proof -
  assume c: "call_task w c task n s = (r, t)"
  have "keeps (\<lambda>(os :: open_task list) u. ru_tick s \<le> ru_tick u) (call_task w c task n)"
    by (rule ticking.keeps_call_task)
  from keepsD [OF this, of s] c show ?thesis by simp
qed

lemma retry_reader_returns:
  assumes "\<forall>k\<ge>K. w_cancelled w k" and "K - ru_tick s < fuel"
  shows "fst (retry_reader w mc fuel task failure n s) \<noteq> Inl OutOfFuel"
  using assms(2)
proof (induction fuel arbitrary: task failure n s)
  case 0
  then show ?case by simp
next
  case (Suc fuel)
  show ?case
    unfolding retry_reader.simps(2) Let_def
  proof (intro round_of_loop [OF assms(1) Suc.prems] sbind_at returnsD [OF returns_call_task],
      goal_cases)
    case (1 t res t')
    then have "K - ru_tick t' < fuel" using ticks_call_task [OF 1(3)] Suc.prems by linarith
    then show ?case
      using Suc.IH by (auto simp: returnsD [OF returns_add_report] split: sum.split)
  qed
qed

lemma retry_writer_returns:
  assumes "\<forall>k\<ge>K. w_cancelled w k" and "K - ru_tick s < fuel"
  shows "fst (retry_writer w mc fuel task failure n s) \<noteq> Inl OutOfFuel"
  using assms(2)
proof (induction fuel arbitrary: task failure n s)
  case 0
  then show ?case by simp
next
  case (Suc fuel)
  show ?case
    unfolding retry_writer.simps(2) Let_def
  proof (intro round_of_loop [OF assms(1) Suc.prems] sbind_at returnsD [OF returns_call_task]
      returnsD [OF returns_basic(3)] returnsD [OF returns_basic(4)], goal_cases)
    case (1 t i t1 u t2 res t3)
    have "ru_tick t1 = ru_tick t" "ru_tick t2 = ru_tick t1"
      using 1(3,4) by (auto simp: lift_res_def map_state_def emit_def split: sum.splits)
    then have "K - ru_tick t3 < fuel"
      using 1(1,2) ticks_call_task [OF 1(5)] Suc.prems by linarith
    then show ?case
      using Suc.IH by (auto simp: returnsD [OF returns_sbind] split: sum.split)
  qed
qed

lemma rework_returns: "returns (rework_task w mc tasks feedback n i)"
  unfolding rework_task_def Let_def by (intro returns_sbind returns_case_sum) simp_all

lemma review_loop_returns:
  assumes "\<forall>k\<ge>K. w_cancelled w k" and "K - ru_tick s < fuel"
  shows "fst (review_loop w mc tasks reviewer task fuel n s) \<noteq> Inl OutOfFuel"
  using assms(2)
proof (induction fuel arbitrary: n s)
  case 0
  then show ?case by simp
next
  case (Suc fuel)
  have loop: "fst (sbind (unless_cancelled w m) (\<lambda>_. sbind (each_step (rework_task w mc tasks f k) is)
      (\<lambda>_. review_loop w mc tasks reviewer task fuel k)) t) \<noteq> Inl OutOfFuel"
    if "ru_tick s \<le> ru_tick t" for m f k "is" t
  proof (intro round_of_loop [OF assms(1), of _ fuel] sbind_at
      returnsD [OF returns_each [OF rework_returns]], goal_cases)
    case 1
    then show ?case using that Suc.prems by linarith
  next
    case (2 t1 u t2)
    have "keeps (\<lambda>(os :: open_task list) s. ru_tick t1 \<le> ru_tick s) (each_step (rework_task w mc tasks f k) is)"
      by (intro keeps_each ticking.keeps_rework_task)
    from keepsD [OF this, of t1] 2(3) have "ru_tick t1 \<le> ru_tick t2" by simp
    then have "K - ru_tick t2 < fuel" using that Suc.prems 2(1,2) by linarith
    then show ?case by (rule Suc.IH)
  qed
  show ?case
    unfolding review_loop.simps(2) Let_def
  proof (intro sbind_at returnsD [OF returns_call_task], goal_cases)
    case (1 res t)
    note tick = ticks_call_task [OF 1]
    show ?case
    proof (cases res)
      case (Inr a)
      show ?thesis
        unfolding Inr sum.case Let_def
      proof (intro sbind_at returnsD [OF returns_basic(3)] returnsD [OF returns_basic(4)], goal_cases)
        case (1 u t1 v t2)
        then have "ru_tick s \<le> ru_tick t2"
          using tick by (auto simp: lift_res_def map_state_def emit_def split: sum.splits)
        then show ?case using loop by simp
      qed
    qed simp
  qed
qed

lemma repo_run_returns:
  assumes "\<forall>k\<ge>K. w_cancelled w k" and "K < fuel"
  shows "returns (delegated_run w fuel mc d)"
proof -
  have fuel: "K - k < fuel" for k using assms(2) by linarith
  have rr: "returns (retry_reader w mc fuel task f n)" for task f n
    using retry_reader_returns [OF assms(1) fuel] by (simp add: returns_def)
  have rw: "returns (retry_writer w mc fuel task f n)" for task f n
    using retry_writer_returns [OF assms(1) fuel] by (simp add: returns_def)
  have rl: "returns (review_loop w mc tasks reviewer task fuel n)" for tasks reviewer task n
    using review_loop_returns [OF assms(1) fuel] by (simp add: returns_def)
  have dr: "returns (drain w (run_reader mc) reader_ready fs)" for fs
    by (intro returns_drain) (simp add: reader_ready_def returns_sbind split: sum.split)
  have dw: "returns (drain w (run_writer mc) (writer_ready mc) fs)" for fs
    by (intro returns_drain) (simp add: writer_ready_def returns_sbind split: sum.split)
  have "returns (run_readers w fuel mc tasks)" for tasks
    unfolding run_readers_def by (intro returns_sbind returns_each dr) (auto intro: rr)
  moreover have "returns (run_batch w fuel mc tasks batch)" for tasks batch
  proof -
    have "returns (each_step (\<lambda>(task, failure). retry_writer w mc fuel task failure 2) xs)" for xs
      by (intro returns_each) (auto intro: rw)
    then have "returns (sbind (drain w (run_writer mc) (writer_ready mc) fs)
        (each_step (\<lambda>(task, failure). retry_writer w mc fuel task failure 2)))" for fs
      by (intro returns_sbind dw)
    then show ?thesis by (simp add: returns_def run_batch_def)
  qed
  moreover have "returns (review_phase w fuel mc tasks)" for tasks
    unfolding review_phase_def by (auto intro!: returns_sbind rl)
  moreover have "returns (integration_phase w mc)"
    unfolding integration_phase_def [abs_def]
    by (intro returns_look_sbind returns_sbind returns_case_sum)
      (auto simp: returns_def lift_res_def returnsD [OF returns_call_task] split: sum.split)
  ultimately show ?thesis
    unfolding delegated_run_def Let_def
    by (intro returns_sbind returns_each) (auto simp: returns_def)
qed

lemma plan_phase_end: "fst (plan_phase w mc s) = Inl e \<Longrightarrow> \<exists>x. e = Abort x"
  by (auto simp: plan_phase_def sbind_def lift_res_def map_state_def Let_def
      split: sum.splits prod.splits)

section \<open>Recovery when the budget refuses\<close>

lemma refused_call:
  assumes "try_reserve (ru_budget s) (mt_budget_reservation task) = Inl e"
  shows "\<exists>t. call_task w c task n s = (Inr (hc_refused c (reservation_error_text e)), t)
    \<and> ru_budget t = ru_budget s \<and> length (ru_tasks t) = Suc (length (ru_tasks s))
    \<and> ru_packages t = ru_packages s"
proof -
  let ?m = "reservation_error_text e"
  define started where "started = w_now w (ru_tick s)"
  define s1 where "s1 = emit (EvTaskStarted (mt_id task) n started) (tick s)"
  have s1: "ru_budget s1 = ru_budget s" "ru_tasks s1 = ru_tasks s" "ru_packages s1 = ru_packages s"
    by (simp_all add: s1_def run_simps)
  have b: "begin_task w task n s = (s1, started, Inl ?m)"
    using assms s1(1) by (simp add: begin_task_def Let_def flip: started_def s1_def)
  obtain out usage err where o: "hc_outcome c (hc_refused c ?m) = (out, usage, err)"
    by (cases "hc_outcome c (hc_refused c ?m)")
  obtain s2 receipt where e: "end_task w task n started (Inl ?m) (out, usage, err) s1 = (s2, receipt)"
    by (cases "end_task w task n started (Inl ?m :: rstr + budget_reservation) (out, usage, err) s1")
  from end_task_cases [OF e] s1 b o e show ?thesis
    by (auto simp: call_task_def run_simps)
qed

lemma dec_digits: "list_all is_ascii_digit (dec n)"
proof (induction n rule: dec.induct)
  case (1 n)
  have "is_ascii_digit (char_of (48 + m))" if "m < 10" for m :: nat
  proof -
    have "m \<in> {0, 1, 2, 3, 4, 5, 6, 7, 8, 9}" using that by auto
    then show ?thesis by (elim insertE emptyE) (simp_all add: is_ascii_digit_def less_eq_char_def)
  qed
  with 1 show ?case by (subst dec.simps) auto
qed

lemma length_dec: "n < 10 ^ Suc k \<Longrightarrow> length (dec n) \<le> Suc k"
proof (induction k arbitrary: n)
  case 0
  then show ?case by (subst dec.simps) simp
next
  case (Suc k)
  show ?case
  proof (cases "n < 10")
    case True
    then show ?thesis by (subst dec.simps) simp
  next
    case False
    have "n div 10 < 10 ^ Suc k" using Suc.prems by (simp add: less_mult_imp_div_less)
    from Suc.IH [OF this] False show ?thesis by (subst dec.simps) simp
  qed
qed

lemma str_prefix_segment:
  assumes "valid_segment i"
  shows "str_prefix i (min (length i) k) = Some (take (min (length i) k) i)"
proof -
  have "\<not> continuation_byte c" if "segment_char c" for c
    using that by (auto simp: segment_char_def continuation_byte_def is_ascii_lowercase_def
        is_ascii_digit_def less_eq_char_def)
  then have "\<not> continuation_byte (i ! j)" if "j < length i" for j
    using assms that by (auto simp: valid_segment_def list_all_length)
  then show ?thesis by (auto simp: str_prefix_def min_def)
qed

lemma retry_task_id_valid:
  assumes "valid_segment i"
  shows "\<exists>j. retry_task_id i n = Some (Inr j)"
proof -
  have "unat n < 2 ^ 32" using unsigned_less [of n, where 'a = nat] by simp
  then have "unat n < 10 ^ Suc 9" by simp
  from length_dec [OF this] have len: "length (''-retry-'' @ dec (unat n)) \<le> 17" by simp
  have "list_all segment_char (dec (unat n))"
    using dec_digits [of "unat n"] by (auto simp: list_all_iff segment_char_def)
  moreover have "list_all segment_char (take k i)" for k
    using assms by (auto simp: valid_segment_def list_all_iff dest: in_set_takeD)
  ultimately have "valid_segment (take (64 - length (''-retry-'' @ dec (unat n))) i
      @ ''-retry-'' @ dec (unat n))"
    using len by (auto simp: valid_segment_def segment_char_def is_ascii_lowercase_def
        less_eq_char_def)
  moreover have "take (min (length i) k) i = take k i" for k
    by (simp add: min_def)
  ultimately show ?thesis
    using str_prefix_segment [OF assms]
    by (simp add: retry_task_id_def Let_def task_id_new_Inr)
qed

lemma hc_refused_writer: "hc_refused (run_writer mc) m
    = Inl \<lparr>wf_message = m, wf_usage = default_usage_charge, wf_reusable_artifact_sha256 = None\<rparr>"
  by (simp add: run_writer_def)

lemma refused_writer_round:
  assumes "try_reserve (ru_budget s) (mt_budget_reservation task) = Inl e"
    and "\<forall>k. \<not> w_cancelled w k" and "valid_segment (mt_id task)"
  shows "\<exists>task' failure' t. retry_writer w mc (Suc fuel) task failure n s
      = retry_writer w mc fuel task' failure' (sat_add n 1) t
    \<and> try_reserve (ru_budget t) (mt_budget_reservation task') = Inl e \<and> mt_id task' = mt_id task
    \<and> ru_budget t = ru_budget s \<and> length (ru_tasks t) = Suc (length (ru_tasks s))
    \<and> length (mt_objective task) < length (mt_objective task')"
proof -
  obtain i where i: "retry_task_id (mt_id task) n = Some (Inr i)"
    using retry_task_id_valid [OF assms(3)] by blast
  define s1 where "s1 = emit (EvRecoveryScheduled (mt_id task) i) (tick s)"
  define task' where "task' = task\<lparr>mt_objective := mt_objective task @ newline @ newline
      @ ''Targeted recovery feedback from the failed attempt:'' @ newline @ wf_message failure\<rparr>"
  have s1: "ru_budget s1 = ru_budget s" "ru_tasks s1 = ru_tasks s"
    by (simp_all add: s1_def run_simps)
  have "try_reserve (ru_budget s1) (mt_budget_reservation task') = Inl e"
    using assms(1) s1(1) by (simp add: task'_def)
  from refused_call [OF this, of w "run_writer mc" n] obtain t where
    t: "call_task w (run_writer mc) task' n s1
        = (Inr (hc_refused (run_writer mc) (reservation_error_text e)), t)"
    "ru_budget t = ru_budget s1" "length (ru_tasks t) = Suc (length (ru_tasks s1))" by blast
  have "retry_writer w mc (Suc fuel) task failure n s
      = retry_writer w mc fuel task' \<lparr>wf_message = reservation_error_text e,
          wf_usage = default_usage_charge, wf_reusable_artifact_sha256 = None\<rparr> (sat_add n 1) t"
    unfolding retry_writer.simps(2) Let_def task'_def [symmetric] using assms(2) t(1) i
    by (simp add: sbind_def unless_cancelled_def lift_res_def map_res_def map_state_def
        hc_refused_writer flip: s1_def)
  moreover have "try_reserve (ru_budget t) (mt_budget_reservation task') = Inl e"
    using assms(1) s1 t by (simp add: task'_def)
  moreover have "length (mt_objective task) < length (mt_objective task')"
    by (simp add: task'_def newline_def)
  moreover have "mt_id task' = mt_id task" by (simp add: task'_def)
  moreover have "ru_budget t = ru_budget s" "length (ru_tasks t) = Suc (length (ru_tasks s))"
    using s1 t(2,3) by simp_all
  ultimately show ?thesis by blast
qed

text \<open>
  Recovery cannot end on an exhausted budget. When the shared budget refuses the reservation
  of a failed writer and nobody cancels the run, \<open>run\<close> schedules replacement after replacement:
  no amount of fuel lets the loop return, every round leaves the budget as it was and adds a
  receipt. (No round reaches the harness, so the loop does not even reach an \<open>await\<close> that waits.)
\<close>

lemma refused_recovery_never_ends:
  assumes "try_reserve (ru_budget s) (mt_budget_reservation task) = Inl e"
    and "\<forall>k. \<not> w_cancelled w k" and "valid_segment (mt_id task)"
  shows "fst (retry_writer w mc fuel task failure n s) = Inl OutOfFuel
    \<and> ru_budget (snd (retry_writer w mc fuel task failure n s)) = ru_budget s
    \<and> length (ru_tasks (snd (retry_writer w mc fuel task failure n s)))
        = length (ru_tasks s) + fuel"
  using assms(1,3)
proof (induction fuel arbitrary: task failure n s)
  case 0
  then show ?case by simp
next
  case (Suc fuel)
  obtain task' failure' t where t: "retry_writer w mc (Suc fuel) task failure n s
      = retry_writer w mc fuel task' failure' (sat_add n 1) t"
    "try_reserve (ru_budget t) (mt_budget_reservation task') = Inl e" "mt_id task' = mt_id task"
    "ru_budget t = ru_budget s" "length (ru_tasks t) = Suc (length (ru_tasks s))"
    using refused_writer_round [OF Suc.prems(1) assms(2) Suc.prems(2), of mc fuel failure n] by metis
  have "valid_segment (mt_id task')" using t(3) Suc.prems(2) by simp
  from Suc.IH [OF t(2) this, of failure' "sat_add n 1"] show ?case
    unfolding t(1) using t(4,5) by simp
qed

text \<open>
  C15. Cancellation ends a run. Whatever the plan, the harnesses and the interleaving, a run that is
  cancelled at some point returns: if every check from the \<open>K\<close>-th question on sees the
  cancellation, no recovery or review loop needs more than \<open>K + 1\<close> rounds.
\<close>

theorem cancellation_ends_run:
  assumes "\<forall>k\<ge>K. w_cancelled w k" and "K < fuel"
  shows "\<exists>r. fst (repo_run w fuel mc) = Some r"
proof -
  obtain x s where p: "plan_phase w mc (initial_run mc) = (x, s)"
    by (cases "plan_phase w mc (initial_run mc)")
  have "\<exists>y. e = Abort y" if "x = Inl e" for e
    using plan_phase_end [of w mc "initial_run mc" e] p that by simp
  moreover have "fst (delegated_run w fuel mc d s) \<noteq> Inl OutOfFuel" for d
    by (rule returnsD [OF repo_run_returns [OF assms]])
  ultimately show ?thesis
    by (auto simp: repo_run_def p split: sum.split early.split prod.split) (metis fst_conv)+
qed

text \<open>
  C16. Receipts are a faithful record. Wherever a run ends, its task receipts are exactly its
  \<open>TaskFinished\<close> events, in order: the \<open>k\<close>-th receipt belongs to the \<open>k\<close>-th of these events, the
  \<open>TaskStarted\<close> event of its task and attempt comes before that event in the run's log, and its
  start is not later than its end.
\<close>

theorem receipts_record_attempts:
  "filter is_finished (ru_events (snd (repo_run w fuel mc)))
     = map finished_event (ru_tasks (snd (repo_run w fuel mc)))
   \<and> (\<forall>k r. k < length (ru_tasks (snd (repo_run w fuel mc))) \<longrightarrow>
        r = ru_tasks (snd (repo_run w fuel mc)) ! k \<longrightarrow>
        te_started_ms r \<le> te_finished_ms r
        \<and> (\<exists>pre post. ru_events (snd (repo_run w fuel mc)) = pre @ finished_event r # post
             \<and> length (filter is_finished pre) = k
             \<and> EvTaskStarted (te_task_id r) (te_attempt r) (te_started_ms r) \<in> set pre))"
proof -
  have "receipted [] (snd (repo_run w fuel mc))"
    by (rule receipts.inv_run) (simp add: receipted_def initial_run_def)
  then show ?thesis by (simp add: receipted_def recorded_def)
qed

text \<open>
  C14. A run refines the budget protocol. What a run does to the shared budget is a history of
  \<open>SharedBudget\<close> operations in which every reservation it makes is settled or dropped: however
  it ends, whatever the limit, exactly the reservations that others held before it are held after
  it. Where the budget has a limit below \<open>2 ^ 53\<close>, so that its sums are exact, the reserved counter
  is then what it was. (Without a limit the counter is a rounded \<open>f64\<close> sum and need not return.)
\<close>

theorem run_settles_budget:
  "\<exists>hs'. mset hs' = mset hs
    \<and> budget_step\<^sup>*\<^sup>* (mc_budget mc, hs) (ru_budget (snd (repo_run w fuel mc)), hs')
    \<and> (\<forall>c b0 l. shared_budget_new c = Inr b0 \<longrightarrow> limit_weighted_tokens c = Some l \<longrightarrow> unat l < 2 ^ 53
         \<longrightarrow> budget_step\<^sup>*\<^sup>* (b0, []) (mc_budget mc, hs)
         \<longrightarrow> weighted_tokens_reserved (sb_snapshot (ru_budget (snd (repo_run w fuel mc))))
              = weighted_tokens_reserved (sb_snapshot (mc_budget mc)))"
proof -
  let ?b = "ru_budget (snd (repo_run w fuel mc))"
  have "budget_history (mc_budget mc, hs) [] (snd (repo_run w fuel mc))"
    by (rule budgeted.inv_run) (auto simp: budget_history_def initial_run_def)
  then obtain hs' where hs': "mset hs' = mset hs" "budget_step\<^sup>*\<^sup>* (mc_budget mc, hs) (?b, hs')"
    by (auto simp: budget_history_def)
  have "weighted_tokens_reserved (sb_snapshot ?b)
      = weighted_tokens_reserved (sb_snapshot (mc_budget mc))"
    if new: "shared_budget_new c = Inr b0" "limit_weighted_tokens c = Some l" "unat l < 2 ^ 53"
      and reach: "budget_step\<^sup>*\<^sup>* (b0, []) (mc_budget mc, hs)" for c b0 l
  proof -
    have pool: "pool_ok l (mc_budget mc, hs)"
      using pool.inv_reachable [OF reach] pool_ok_new [OF new] by blast
    with hs'(2) have "pool_ok l (?b, hs')" using pool.inv_reachable by blast
    moreover have "reserved_total hs' = reserved_total hs"
      using hs'(1) unfolding reserved_total_def by (metis mset_map sum_mset_sum_list)
    ultimately show ?thesis using pool by (simp add: pool_ok_def)
  qed
  with hs' show ?thesis by blast
qed

section \<open>What a finished run has established\<close>

abbreviation package_keys :: "run_state \<Rightarrow> task_id set" where
  "package_keys s \<equiv> set (om_keys (ru_packages s))"

lemma sbind_Inr: "sbind m f s = (Inr b, t) \<longleftrightarrow> (\<exists>a u. m s = (Inr a, u) \<and> f a u = (Inr b, t))"
  by (auto simp: sbind_def split: prod.split sum.split)

lemma sbind_run: "m s = (Inr a, u) \<Longrightarrow> sbind m f s = f a u"
  by (simp add: sbind_def)

lemma sbind_InrE:
  assumes "sbind m f s = (Inr b, t)"
  obtains a u where "m s = (Inr a, u)" and "f a u = (Inr b, t)"
  using assms unfolding sbind_Inr by blast

lemma call_task_packages:
  assumes "call_task w c task n s = (r, t)"
  shows "ru_packages t = ru_packages s"
proof -
  have "keeps (\<lambda>(os :: unit) u. ru_packages u = ru_packages s) (call_task w c task n)"
  proof (rule keepsI)
    fix os :: unit and u :: run_state assume "ru_packages u = ru_packages s"
    then show "ru_packages (snd (call_task w c task n u)) = ru_packages s"
      by (auto simp: call_task_def run_simps begin_task_keeps end_task_keeps
          split: prod.split sum.split option.split)
  qed
  from keepsD [OF this, of s] assms show ?thesis by simp
qed

lemma accept_package_key: "accept_package mc task a s = (Inr u, t) \<Longrightarrow> mt_id task \<in> package_keys t"
  by (auto simp: accept_package_def Let_def split: sum.splits if_splits)

lemma retry_writer_key:
  "retry_writer w mc fuel task failure n s = (Inr u, t) \<Longrightarrow> mt_id task \<in> package_keys t"
proof (induction fuel arbitrary: task failure n s)
  case 0
  then show ?case by simp
next
  case (Suc fuel)
  from Suc.prems show ?case
    unfolding retry_writer.simps(2) Let_def sbind_Inr
    by (elim exE conjE, split sum.splits) 
      (auto simp only: sbind_Inr dest!: accept_package_key Suc.IH, simp_all)
qed

lemma writer_ready_key:
  "writer_ready mc task res s = (Inr xs, t) \<Longrightarrow>
     mt_id task \<in> package_keys t \<or> mt_id task \<in> (mt_id \<circ> fst) ` set xs"
  by (auto simp: writer_ready_def sbind_Inr split: sum.splits dest!: accept_package_key)

lemma each_step_all:
  assumes "\<And>x s t. f x s = (Inr (), t) \<Longrightarrow> Q x t" and "\<And>x y. keeps (\<lambda>os :: open_task list. Q y) (f x)"
  shows "each_step f xs s = (Inr (), t) \<Longrightarrow> \<forall>x\<in>set xs. Q x t"
proof (induction xs arbitrary: s)
  case Nil
  then show ?case by simp
next
  case (Cons x xs)
  from Cons.prems obtain u where u: "f x s = (Inr (), u)" "each_step f xs u = (Inr (), t)"
    by (auto simp: sbind_Inr)
  have "keeps (\<lambda>os :: open_task list. Q x) (each_step f xs)" by (intro keeps_each assms(2))
  from keepsD [OF this, of u] assms(1) [OF u(1)] u(2) have "Q x t" by simp
  with Cons.IH [OF u(2)] show ?case by simp
qed

lemma set_without: "i < length fs \<Longrightarrow> set fs = insert (fs ! i) (set (without i fs))"
  by (subst id_take_nth_drop [of i fs]) (auto simp: without_def)

lemma set_update: "i < length fs \<Longrightarrow> set (fs[i := f]) = insert f (set (without i fs))"
  by (auto simp: upd_conv_take_nth_drop without_def)

lemma retry_writer_grows: "retry_writer w mc fuel task failure n s = (r, t) \<Longrightarrow> package_keys s \<subseteq> package_keys t"
  using keepsD [OF covered.keeps_retry_writer, of "package_keys s" s w mc fuel task failure n] by simp

lemma writer_ready_grows:
  assumes "writer_ready mc task res s = (Inr xs, t)"
  shows "package_keys s \<subseteq> package_keys t"
proof (cases res)
  case (Inr a)
  then obtain u where "accept_package mc task a s = (Inr u, t)"
    using assms by (auto simp: writer_ready_def sbind_Inr)
  then have "ru_packages t = om_insert (mt_id task) (wa_package a) (ru_packages s)"
    by (auto simp: accept_package_def Let_def emit_def split: sum.splits if_splits)
  then show ?thesis by (simp add: subset_insertI)
qed (use assms in \<open>simp add: writer_ready_def\<close>)

lemma cover_step:
  "K \<subseteq> A \<union> insert k B \<union> C \<Longrightarrow> A \<subseteq> A' \<Longrightarrow> k \<in> A' \<union> X \<Longrightarrow> K \<subseteq> A' \<union> B \<union> (C \<union> X)"
  by blast

lemma drain_keys:
  assumes "drain w (run_writer mc) (writer_ready mc) fs s = (Inr failed, t)"
  shows "(mt_id \<circ> future_task) ` set fs \<subseteq> package_keys t \<union> (mt_id \<circ> fst) ` set failed"
proof -
  let ?K = "(mt_id \<circ> future_task) ` set fs"
  define J where "J acc gs u \<longleftrightarrow>
    ?K \<subseteq> package_keys u \<union> (mt_id \<circ> future_task) ` set gs \<union> (mt_id \<circ> fst) ` set acc"
    for acc :: "(multi_repo_task \<times> writer_failure) list" and gs u
  have "J failed [] t"
  proof (rule drain_rule [OF assms])
    show "J [] fs s" by (simp add: J_def)
  next
    fix acc gs u i f v
    assume J: "J acc gs u" and i: "i < length gs"
      and poll: "poll_future w (run_writer mc) (gs ! i) (tick u) = (Inr (Inl f), v)"
    have "package_keys v = package_keys u"
      using poll_future_keeps(1) [OF poll] by (simp add: tick_def)
    then show "J acc (gs[i := f]) v"
      using J poll_future_keeps(2) [OF poll refl]
      unfolding J_def set_update [OF i] set_without [OF i] by auto
  next
    fix acc gs u i res v xs x
    assume J: "J acc gs u" and i: "i < length gs"
      and poll: "poll_future w (run_writer mc) (gs ! i) (tick u) = (Inr (Inr res), v)"
      and ready: "writer_ready mc (future_task (gs ! i)) res v = (Inr xs, x)"
    have grows: "package_keys u \<subseteq> package_keys x"
      using writer_ready_grows [OF ready] poll_future_keeps(1) [OF poll] by (simp add: tick_def)
    show "J (acc @ xs) (without i gs) x"
      unfolding J_def set_append image_Un
    proof (rule cover_step [OF _ grows])
      show "?K \<subseteq> package_keys u \<union> insert ((mt_id \<circ> future_task) (gs ! i))
          ((mt_id \<circ> future_task) ` set (without i gs)) \<union> (mt_id \<circ> fst) ` set acc"
        using J unfolding J_def set_without [OF i] image_insert .
      show "(mt_id \<circ> future_task) (gs ! i) \<in> package_keys x \<union> (mt_id \<circ> fst) ` set xs"
        using writer_ready_key [OF ready] by (simp only: comp_apply Un_iff)
    qed
  qed
  then show ?thesis by (simp add: J_def)
qed

lemma with_reader_context_id [simp]:
  "mt_id (with_reader_context task reports) = mt_id task"
  "mt_role (with_reader_context task reports) = mt_role task"
  "mt_harness (with_reader_context task reports) = mt_harness task"
  by (simp_all add: with_reader_context_def Let_def)

lemma run_batch_keys:
  assumes "run_batch w fuel mc tasks batch s = (Inr (), t)"
    and "\<And>i task. om_get tasks i = Some task \<Longrightarrow> mt_id task = i"
  shows "set batch \<subseteq> package_keys t"
proof -
  define fs where
    "fs = map (\<lambda>i. NotStarted (with_reader_context (the (om_get tasks i)) (ru_reports s))) batch"
  define retry where "retry = (\<lambda>(task, failure). retry_writer w mc fuel task failure 2)"
  obtain failed u where d: "drain w (run_writer mc) (writer_ready mc) fs s = (Inr failed, u)"
      and e: "each_step retry failed u = (Inr (), t)" and known: "list_all (om_contains tasks) batch"
    using assms(1)
    by (auto simp: run_batch_def sbind_Inr fs_def retry_def split: if_splits)
  have "mt_id (the (om_get tasks i)) = i" if "i \<in> set batch" for i
    using known that assms(2) [of i] by (auto simp: list_all_iff om_contains_def)
  then have "(mt_id \<circ> future_task) ` set fs = set batch" by (auto simp: fs_def image_image)
  then have "set batch \<subseteq> package_keys u \<union> (mt_id \<circ> fst) ` set failed"
    using drain_keys [OF d] by simp
  moreover have "package_keys u \<subseteq> package_keys t"
  proof -
    have "keeps (\<lambda>(os :: open_task list) v. package_keys u \<subseteq> package_keys v) (retry x)" for x
      unfolding retry_def by (cases x) (simp only: prod.case, rule covered.keeps_retry_writer)
    then have "keeps (\<lambda>(os :: open_task list) v. package_keys u \<subseteq> package_keys v)
        (each_step retry failed)" by (rule keeps_each)
    from keepsD [OF this, of u] e show ?thesis by simp
  qed
  moreover have "\<forall>x\<in>set failed. mt_id (fst x) \<in> package_keys t"
  proof (rule each_step_all [OF _ _ e])
    fix x v v' assume "retry x v = (Inr (), v')"
    then show "mt_id (fst x) \<in> package_keys v'"
      by (auto simp: retry_def dest: retry_writer_key split: prod.splits)
  next
    fix x y
    have "keeps (\<lambda>(os :: open_task list) v. {mt_id (fst y)} \<subseteq> package_keys v) (retry x)"
      unfolding retry_def by (cases x) (simp only: prod.case, rule covered.keeps_retry_writer)
    then show "keeps (\<lambda>(os :: open_task list) v. mt_id (fst y) \<in> package_keys v) (retry x)"
      by simp
  qed
  then have "(mt_id \<circ> fst) ` set failed \<subseteq> package_keys t" by auto
  ultimately show ?thesis by blast
qed

lemma run_batches_keys:
  assumes "each_step (run_batch w fuel mc tasks) batches s = (Inr (), t)"
    and "\<And>i task. om_get tasks i = Some task \<Longrightarrow> mt_id task = i"
  shows "set (concat batches) \<subseteq> package_keys t"
proof -
  have "\<forall>b\<in>set batches. set b \<subseteq> package_keys t"
    by (rule each_step_all [OF _ _ assms(1)])
      (use run_batch_keys [OF _ assms(2)] covered.keeps_run_batch in auto)
  then show ?thesis by auto
qed

lemma review_loop_accepts:
  "review_loop w mc tasks reviewer task fuel n s = (Inr v, t) \<Longrightarrow>
     rv_decision v = ReviewAccept \<and> validate_review mc v (ru_packages t) = Inr ()"
proof (induction fuel arbitrary: n s)
  case 0
  then show ?case by simp
next
  case (Suc fuel)
  obtain r u where call: "call_task w (run_review reviewer (om_values (ru_packages s))) task n s
      = (r, u)" by (cases "call_task w (run_review reviewer (om_values (ru_packages s))) task n s")
  then obtain res where r: "r = Inr res"
    using Suc.prems by (cases r) (auto simp: sbind_def)
  note rest = Suc.prems [unfolded review_loop.simps(2) 
      sbind_run [where m = "call_task w (run_review reviewer (om_values (ru_packages s))) task n",
        OF call [unfolded r]] Let_def]
  show ?case
  proof (cases res)
    case (Inl e)
    then show ?thesis using rest by simp
  next
    case (Inr a)
    show ?thesis
    proof (cases "rv_decision (va_receipt a) = ReviewAccept")
      case True
      then show ?thesis using rest Inr
        by (auto simp: sbind_Inr lift_res_def map_state_def emit_def split: sum.splits)
    next
      case False
      then obtain u' where "review_loop w mc tasks reviewer task fuel (n + 1) u' = (Inr v, t)"
        using rest Inr by (auto simp: sbind_Inr)
      then show ?thesis by (rule Suc.IH)
    qed
  qed
qed

lemma integration_phase_proves:
  assumes "integration_phase w mc s = (Inr (i, None), t)"
  shows "validate_integration (w_sha256 w) mc i (ru_packages t) = Inr ()
    \<and> ru_packages t = ru_packages s"
  using assms unfolding integration_phase_def
proof (elim sbind_InrE, goal_cases)
  case (1 task s' res u)
  have "s' = s" using 1(1) by (auto simp: lift_res_def split: sum.splits)
  then have "ru_packages u = ru_packages s" using call_task_packages [OF 1(2)] by simp
  then show ?thesis using 1(3) by (auto simp: emit_def split: sum.splits)
qed

text \<open>The four phases of a delegated run that reaches its end.\<close>

lemma delegated_run_phases:
  assumes "delegated_run w fuel mc d s = (Inr (review, integration, error), t)"
  obtains s1 s2 s3 where
    "each_step (run_batch w fuel mc (plan_tasks (mc_plan mc))) (dd_parallel_writer_batches d) s1
      = (Inr (), s2)"
    and "review_phase w fuel mc (plan_tasks (mc_plan mc)) s2 = (Inr review, s3)"
    and "integration_phase w mc s3 = (Inr (integration, error), t)"
  using assms unfolding delegated_run_def Let_def
  by (elim sbind_InrE) (auto split: prod.splits)

lemma review_phase_accepts:
  assumes "review_phase w fuel mc tasks s = (Inr review, t)"
  shows "mp_requires_independent_review (mc_plan mc) \<longrightarrow>
    (\<exists>v. review = Some v \<and> rv_decision v = ReviewAccept
      \<and> validate_review mc v (ru_packages t) = Inr ())"
proof
  assume "mp_requires_independent_review (mc_plan mc)"
  with assms show "\<exists>v. review = Some v \<and> rv_decision v = ReviewAccept
      \<and> validate_review mc v (ru_packages t) = Inr ()"
    unfolding review_phase_def
    by (auto elim!: sbind_InrE dest!: review_loop_accepts)
qed

lemma plan_phase_plan:
  assumes "plan_phase w mc s = (Inr (d, planning), t)"
  shows "decomposition_decision_of (mc_plan mc) = Inr d"
  using assms unfolding plan_phase_def Let_def
  by (elim sbind_InrE) (auto simp: lift_res_def map_res_def split: sum.splits)

lemma validate_review_covers:
  "validate_review mc v packages = Inr () \<Longrightarrow>
     rv_package_sha256 v = set (map cp_patch_sha256 (om_values packages))"
  by (auto simp: validate_review_def split: option.splits if_splits)

lemma decomposition_covers:
  assumes "decomposition_decision_of p = Inr d"
  shows "set (concat (dd_parallel_writer_batches d)) = mt_id ` set (plan_writers p)"
proof -
  obtain layers where valid: "plan_validate p = Inr ()"
    and layers: "topological_layers (plan_tasks p) = Inr layers"
    and batches: "dd_parallel_writer_batches d = batches_of p (plan_tasks p) layers"
    using decomposed [OF assms] by blast
  note repos = validate_repositories_ok [OF plan_validate_ok(1) [OF valid]]
  note tasks = validate_tasks_ok [OF plan_validate_ok(2) [OF valid]]
  have "mset (concat layers) = mset (om_keys (plan_tasks p))"
    using layers_from_sound [of "plan_tasks p" "{}" layers "plan_tasks p"] layers
    by (simp add: topological_layers_def om_wf_distinct)
  then have "set (concat layers) = set (om_keys (plan_tasks p))" by (metis set_mset_mset)
  also have "\<dots> = mt_id ` set (mp_tasks p)" by (rule plan_tasks_entries(3) [OF tasks(2)])
  finally have all: "set (concat layers) = mt_id ` set (mp_tasks p)" .
  have "set (concat (dd_parallel_writer_batches d))
      = {i \<in> mt_id ` set (mp_tasks p). i \<in> mt_id ` set (plan_writers p)}"
    using repos(1)
    by (simp only: batches concat_batches_of plan_tasks_writer [OF tasks(2)]
        set_filter all)
  then show ?thesis by auto
qed

lemma packages_are_writers:
  assumes "packages_ok p packages"
  shows "set (om_keys packages) \<subseteq> mt_id ` set (plan_writers p)"
proof
  fix i assume "i \<in> set (om_keys packages)"
  then obtain c where "(i, c) \<in> set packages" by auto
  then have "cp_task_id c = i" "validate_change_package p c = Inr ()"
    using assms by (auto simp: packages_ok_def)
  then show "i \<in> mt_id ` set (plan_writers p)" using validated_package by force
qed

lemma packages_ok_values:
  assumes "packages_ok p packages"
  shows "map cp_task_id (om_values packages) = om_keys packages"
    and "\<forall>c\<in>set (om_values packages). validate_change_package p c = Inr ()"
  using assms by (auto simp: packages_ok_def)

lemma passed_run_phases:
  assumes "fst (repo_run w fuel mc) = Some (Inr r)" and "passed r"
  obtains d planning s t review i where
    "decomposition_decision_of (mc_plan mc) = Inr d"
    and "delegated_run w fuel mc d s = (Inr (review, i, None), t)"
    and "r = run_result_of d planning t review (Some i) None" and "snd (repo_run w fuel mc) = t"
proof -
  obtain d planning s where plan: "plan_phase w mc (initial_run mc) = (Inr (d, planning), s)"
    using assms(1) by (auto simp: repo_run_def split: prod.splits sum.splits early.splits)
  obtain x t where run: "delegated_run w fuel mc d s = (x, t)" by (cases "delegated_run w fuel mc d s")
  have delegated: "dd_delegated d"
    using assms plan by (auto simp: repo_run_def passed_def run_result_of_def split: if_splits)
  obtain review i where x: "x = Inr (review, i, None)"
    and r: "r = run_result_of d planning t review (Some i) None"
    using assms plan run delegated
    by (auto simp: repo_run_def passed_def run_result_of_def
        split: sum.splits early.splits option.splits prod.splits)
  have "snd (repo_run w fuel mc) = t" using plan run x delegated by (simp add: repo_run_def)
  with that plan_phase_plan [OF plan] run x r show ?thesis by blast
qed

text \<open>At the end of a delegated run every writer has its package.\<close>

lemma delegated_run_covers:
  assumes "decomposition_decision_of (mc_plan mc) = Inr d"
    and "delegated_run w fuel mc d s = (Inr (review, i, None), t)"
    and ok: "packages_ok (mc_plan mc) (ru_packages t)"
  shows "mset (om_keys (ru_packages t)) = mset (map mt_id (plan_writers (mc_plan mc)))"
proof -
  let ?p = "mc_plan mc"
  obtain s1 s2 s3 where batches:
      "each_step (run_batch w fuel mc (plan_tasks ?p)) (dd_parallel_writer_batches d) s1 = (Inr (), s2)"
    and reviewed: "review_phase w fuel mc (plan_tasks ?p) s2 = (Inr review, s3)"
    and integrated: "integration_phase w mc s3 = (Inr (i, None), t)"
    by (rule delegated_run_phases [OF assms(2)])
  have valid: "plan_validate ?p = Inr ()"
    using decomposed(1) [OF assms(1)] .
  note tasks = validate_tasks_ok [OF plan_validate_ok(2) [OF valid]]
  have ids: "mt_id task = i" if "om_get (plan_tasks ?p) i = Some task" for i task
    using plan_tasks_lookup [OF tasks(2), of i task] that by blast
  have "mt_id ` set (plan_writers ?p) \<subseteq> package_keys s2"
    using run_batches_keys [OF batches ids] decomposition_covers [OF assms(1)] by simp
  also have "package_keys s2 \<subseteq> package_keys s3"
    using keepsD [OF covered.keeps_review_phase, of "package_keys s2" s2 w fuel mc "plan_tasks ?p"]
      reviewed by simp
  finally have "set (om_keys (ru_packages t)) = set (map mt_id (plan_writers ?p))"
    using packages_are_writers [OF ok] integration_phase_proves [OF integrated] by auto
  moreover have "distinct (om_keys (ru_packages t))"
    using ok by (intro om_wf_distinct) (simp add: packages_ok_def)
  moreover have "distinct (map mt_id (plan_writers ?p))"
    using tasks(2) by (simp add: distinct_map inj_on_def)
  ultimately show ?thesis by (simp only: set_eq_iff_mset_eq_distinct [symmetric])
qed

text \<open>
  C13. A run that passed has proved its result. If \<open>run\<close> returns a result that \<open>passed\<close>, then
  the packages of the result come from the writers of the plan, one from each, and every one of them
  was accepted; if the plan requires an independent review, the accepted review covers exactly the
  patches of these packages; and the integration receipt is that of a fresh replay from the pinned
  baselines of exactly these patches and result trees, in which every check of the plan ran and
  passed.
\<close>

theorem passed_run_is_proved:
  assumes "fst (repo_run w fuel mc) = Some (Inr r)" and "passed r"
  shows "mset (map cp_task_id (rr_change_packages r)) = mset (map mt_id (plan_writers (mc_plan mc)))
    \<and> (\<forall>c\<in>set (rr_change_packages r). validate_change_package (mc_plan mc) c = Inr ())
    \<and> (mp_requires_independent_review (mc_plan mc) \<longrightarrow> (\<exists>v. rr_review r = Some v
          \<and> rv_decision v = ReviewAccept
          \<and> rv_package_sha256 v = set (map cp_patch_sha256 (rr_change_packages r))))
    \<and> (\<exists>i. rr_integration r = Some i \<and> ir_fresh_workspace i
          \<and> ir_repository_baselines i = head_oids (mc_plan mc)
          \<and> set (ir_applied_patch_sha256 i) = set (map cp_patch_sha256 (rr_change_packages r))
          \<and> list_all (check_proved i) (mp_integration_checks (mc_plan mc)))"
proof -
  let ?p = "mc_plan mc"
  obtain d planning s t review i where d: "decomposition_decision_of ?p = Inr d"
    and run: "delegated_run w fuel mc d s = (Inr (review, i, None), t)"
    and r: "r = run_result_of d planning t review (Some i) None" and t: "snd (repo_run w fuel mc) = t"
    by (rule passed_run_phases [OF assms])
  have "packages_ok ?p (ru_packages (snd (repo_run w fuel mc)))"
    by (rule packaged.inv_run) (simp add: packages_ok_def initial_run_def)
  then have ok: "packages_ok ?p (ru_packages t)" by (simp only: t)
  obtain s2 s3 where reviewed: "review_phase w fuel mc (plan_tasks ?p) s2 = (Inr review, s3)"
    and integrated: "integration_phase w mc s3 = (Inr (i, None), t)"
    using delegated_run_phases [OF run] by blast
  note i = integration_phase_proves [OF integrated]
  have packages: "rr_change_packages r = om_values (ru_packages t)"
    and results: "rr_review r = review" "rr_integration r = Some i"
    by (simp_all add: r run_result_of_def)
  have "mset (map cp_task_id (rr_change_packages r)) = mset (map mt_id (plan_writers ?p))"
    unfolding packages packages_ok_values(1) [OF ok] by (rule delegated_run_covers [OF d run ok])
  moreover have "mp_requires_independent_review ?p \<longrightarrow> (\<exists>v. rr_review r = Some v
      \<and> rv_decision v = ReviewAccept
      \<and> rv_package_sha256 v = set (map cp_patch_sha256 (rr_change_packages r)))"
    using review_phase_accepts [OF reviewed] i validate_review_covers
    unfolding packages results by metis
  moreover have "ir_fresh_workspace i \<and> ir_repository_baselines i = head_oids ?p
      \<and> set (ir_applied_patch_sha256 i) = set (map cp_patch_sha256 (rr_change_packages r))
      \<and> list_all (check_proved i) (mp_integration_checks ?p)"
    using i unfolding packages by (auto simp: validate_integration_def Let_def split: if_splits)
  ultimately show ?thesis
    using packages_ok_values(2) [OF ok] results(2) unfolding packages by blast
qed

section \<open>A concrete run\<close>

definition example_world :: repo_world where
  "example_world =
     \<lparr>w_now = (\<lambda>k. of_nat k), w_cancelled = (\<lambda>k. 50 \<le> k), w_pick = (\<lambda>k. k),
      w_plan_json = (\<lambda>_. Inr ''plan''), w_sha256 = (\<lambda>_. replicate 64 CHR ''e'')\<rparr>"

definition example_writer_harness :: writer_harness where
  "example_writer_harness =
     \<lparr>wrh_id = ''h'', wrh_kind = Local,
      wrh_run = (\<lambda>k task n. Inr
        \<lparr>wa_package = example_package (mt_id task)
           (if mt_id task = ''w1'' then ''src/a'' else ''src/b''),
         wa_usage = default_usage_charge\<rparr>)\<rparr>"

definition example_check_receipt :: integration_check_receipt where
  "example_check_receipt =
     \<lparr>cr_id = ''c'', cr_repository_id = ''r'', cr_argv = [''t''], cr_started_ms = 1,
      cr_finished_ms = 2, cr_exit_code = Some 0, cr_stdout_sha256 = replicate 64 CHR ''a'',
      cr_stderr_sha256 = replicate 64 CHR ''b'', cr_passed = True, cr_error = None\<rparr>"

definition example_integrator :: integration_harness where
  "example_integrator =
     \<lparr>igh_id = ''h'',
      igh_integrate = (\<lambda>k task packages. Inr
        \<lparr>ga_receipt =
           \<lparr>ir_fresh_workspace = True,
            ir_repository_baselines = [(''r'', replicate 40 CHR ''a'')],
            ir_repository_result_trees = [(''r'', replicate 64 CHR ''e'')],
            ir_applied_patch_sha256 = [replicate 64 CHR ''c''],
            ir_checks_run = [''c''], ir_check_receipts = [example_check_receipt],
            ir_passed = True\<rparr>,
         ga_usage = default_usage_charge\<rparr>)\<rparr>"

definition example_repo_coordinator :: repo_coordinator where
  "example_repo_coordinator =
     \<lparr>mc_plan = example_plan, mc_budget = example_budget, mc_readers = Map.empty,
      mc_writers = [''h'' \<mapsto> example_writer_harness], mc_reviewer = None,
      mc_integrator = example_integrator\<rparr>"

lemma example_run_passes:
  "case fst (repo_run example_world 1 example_repo_coordinator) of
     Some (Inr r) \<Rightarrow> passed r \<and> length (rr_tasks r) = 4 | _ \<Rightarrow> False"
  by code_simp

theorem passed_run_is_proved_witness:
  "\<exists>r. fst (repo_run example_world 1 example_repo_coordinator) = Some (Inr r) \<and> passed r
     \<and> mset (map cp_task_id (rr_change_packages r)) = {#''w1'', ''w2''#}"
proof -
  obtain r where r: "fst (repo_run example_world 1 example_repo_coordinator) = Some (Inr r)"
      "passed r"
    using example_run_passes by (auto split: option.splits sum.splits)
  have "mset (map mt_id (plan_writers (mc_plan example_repo_coordinator))) = {#''w1'', ''w2''#}"
    by (simp add: example_repo_coordinator_def example_simps)
  with passed_run_is_proved [OF r] r show ?thesis by auto
qed

lemma refused_recovery_never_ends_witness:
  "\<forall>fuel failure. fst (retry_writer (example_world\<lparr>w_cancelled := \<lambda>_. False\<rparr>)
     example_repo_coordinator fuel ((example_writer ''w1'' ''src/a'')\<lparr>mt_budget_reservation := 200\<rparr>) failure 2
     (initial_run example_repo_coordinator)) = Inl OutOfFuel"
proof -
  let ?task = "(example_writer ''w1'' ''src/a'')\<lparr>mt_budget_reservation := 200\<rparr>"
  let ?s = "initial_run example_repo_coordinator"
  have "case try_reserve example_budget 200 of Inl e \<Rightarrow> True | Inr _ \<Rightarrow> False" by code_simp
  then obtain e where "try_reserve (ru_budget ?s) (mt_budget_reservation ?task) = Inl e"
    by (auto simp: initial_run_def example_repo_coordinator_def split: sum.splits)
  moreover have "valid_segment (mt_id ?task)"
    by (simp add: example_writer_def example_task_def) code_simp
  moreover have "\<forall>k. \<not> w_cancelled (example_world\<lparr>w_cancelled := \<lambda>_. False\<rparr>) k" by simp
  ultimately show ?thesis using refused_recovery_never_ends by blast
qed

theorem cancellation_ends_run_witness:
  "\<exists>r. fst (repo_run example_world 51 example_repo_coordinator) = Some r"
  by (rule cancellation_ends_run [of 50]) (simp_all add: example_world_def)

theorem receipts_record_attempts_witness:
  "4 = length (ru_tasks (snd (repo_run example_world 1 example_repo_coordinator)))
   \<and> (\<exists>pre r. r = ru_tasks (snd (repo_run example_world 1 example_repo_coordinator)) ! 3
        \<and> length (filter is_finished pre) = 3
        \<and> EvTaskStarted (te_task_id r) (te_attempt r) (te_started_ms r) \<in> set pre)"
proof -
  have n: "length (ru_tasks (snd (repo_run example_world 1 example_repo_coordinator))) = 4"
    by code_simp
  have "3 < length (ru_tasks (snd (repo_run example_world 1 example_repo_coordinator)))"
    unfolding n by simp
  with receipts_record_attempts [of example_world 1 example_repo_coordinator] n show ?thesis
    by metis
qed

theorem run_settles_budget_witness:
  "weighted_tokens_reserved
     (sb_snapshot (ru_budget (snd (repo_run example_world 1 example_repo_coordinator)))) = Fin 0
   \<and> budget_step\<^sup>*\<^sup>* (example_budget, [])
       (ru_budget (snd (repo_run example_world 1 example_repo_coordinator)), [])"
proof -
  have p: "budget_step\<^sup>*\<^sup>* (example_budget, []) (mc_budget example_repo_coordinator, [])"
    by (simp add: example_repo_coordinator_def)
  have b: "mc_budget example_repo_coordinator = example_budget"
    by (simp add: example_repo_coordinator_def)
  obtain hs' where hs': "mset hs' = mset []"
      "budget_step\<^sup>*\<^sup>* (example_budget, [])
         (ru_budget (snd (repo_run example_world 1 example_repo_coordinator)), hs')"
      "\<forall>c b0 l. shared_budget_new c = Inr b0 \<longrightarrow> limit_weighted_tokens c = Some l \<longrightarrow> unat l < 2 ^ 53
         \<longrightarrow> budget_step\<^sup>*\<^sup>* (b0, []) (mc_budget example_repo_coordinator, [])
         \<longrightarrow> weighted_tokens_reserved (sb_snapshot (ru_budget (snd (repo_run example_world 1
               example_repo_coordinator))))
              = weighted_tokens_reserved (sb_snapshot (mc_budget example_repo_coordinator))"
    using run_settles_budget [of "[]" example_repo_coordinator example_world 1, unfolded b]
    by (auto simp: b)
  have "weighted_tokens_reserved (sb_snapshot (ru_budget (snd (repo_run example_world 1
      example_repo_coordinator)))) = weighted_tokens_reserved (sb_snapshot example_budget)"
    using hs'(3) [rule_format, OF example_new _ _ p, of 100] by (simp add: example_config_def b)
  with hs'(1,2) show ?thesis
    by (simp add: example_budget_def sb_snapshot_def default_budget_snapshot_def)
qed

end
