(* ===== verification/RepoRunPanic.thy ===== *)
theory RepoRunPanic
  imports RepoRunProps
begin

text \<open>
  Runs of a multi-repository plan do not panic: for each phase of \<open>run\<close>, the checks that come
  before it make every unchecked lookup in it succeed.
\<close>

section \<open>Runs do not panic\<close>

lemma sbind_lift_Inr: "sbind (lift_res (Inr a)) f = f a"
  by (simp add: sbind_def lift_res_def fun_eq_iff)

text \<open>What the checks of \<open>run\<close> establish before the first task starts.\<close>

definition ready_to_run :: "repo_coordinator \<Rightarrow> bool" where
  "ready_to_run mc \<longleftrightarrow> plan_validate (mc_plan mc) = Inr () \<and> validate_harnesses mc = Inr ()"

definition panics :: early where
  "panics = Abort Panicked"

abbreviation no_panic :: "repo_coordinator \<Rightarrow> 'a step \<Rightarrow> bool" where
  "no_panic mc \<equiv> avoids panics (\<lambda>s. packages_ok (mc_plan mc) (ru_packages s))"

lemma plan_task_exists:
  assumes "plan_validate p = Inr ()"
    and "role = Planner \<or> role = Integrator \<or> role = RReviewer \<and> mp_requires_independent_review p"
  shows "\<exists>t. plan_task p role = Some t"
proof -
  note tasks = validate_tasks_ok [OF plan_validate_ok(2) [OF assms(1)]]
  have "length (with_role (plan_tasks p) role) = 1"
    using plan_validate_ok(4) [OF assms(1)] assms(2)
    by (auto simp: validate_completion_graph_def Let_def result_simps split: if_splits)
  then obtain t where "t \<in> set (with_role (plan_tasks p) role)"
    by (metis length_0_conv list.set_intros(1) neq_Nil_conv zero_neq_one)
  then have "t \<in> set (om_values (plan_tasks p))" "mt_role t = role" by (auto simp: with_role_def)
  then have "t \<in> set (mp_tasks p)" "mt_role t = role"
    unfolding plan_tasks_entries(1) [OF tasks(2)] by simp_all
  then show ?thesis
    unfolding plan_task_def by (cases "List.find (\<lambda>t. mt_role t = role) (mp_tasks p)")
      (auto simp: find_None_iff)
qed

lemma harness_exists:
  assumes "ready_to_run mc" and "t \<in> set (mp_tasks (mc_plan mc))"
  shows "mt_role t = RReader \<Longrightarrow> mc_readers mc (mt_harness t) \<noteq> None"
    and "mt_role t = RWriter \<Longrightarrow> mc_writers mc (mt_harness t) \<noteq> None"
proof -
  have "check_harness mc t = Inr ()" if "mt_role t = RReader \<or> mt_role t = RWriter"
    using assms that by (auto simp: ready_to_run_def validate_harnesses_def result_simps)
  then show "mt_role t = RReader \<Longrightarrow> mc_readers mc (mt_harness t) \<noteq> None"
    and "mt_role t = RWriter \<Longrightarrow> mc_writers mc (mt_harness t) \<noteq> None"
    by (auto simp: check_harness_def result_simps)
qed

lemma no_panic_keeps:
  assumes "\<And>s. packages_ok (mc_plan mc) (ru_packages s) \<Longrightarrow> fst (m s) \<noteq> Inl panics"
    and "keeps (\<lambda>(os :: open_task list) s. packages_ok (mc_plan mc) (ru_packages s)) m"
  shows "no_panic mc m"
  using assms by (simp add: avoids_def keeps_def)

lemma no_panic_call:
  assumes "\<And>k. hc_run c task n k \<noteq> None"
  shows "no_panic mc (call_task w c task n)"
proof (rule no_panic_keeps [OF _ packaged.keeps_call_task])
  fix s
  show "fst (call_task w c task n s) \<noteq> Inl panics"
    using assms
    by (auto simp: call_task_def split: prod.splits sum.splits option.splits)
      (metis option.distinct(1))
qed

lemma no_panic_sbind_dep:
  assumes "no_panic mc m"
    and "\<And>s a t. packages_ok (mc_plan mc) (ru_packages s) \<Longrightarrow> m s = (Inr a, t) \<Longrightarrow> no_panic mc (f a)"
  shows "no_panic mc (sbind m f)"
proof -
  have "fst (sbind m f s) \<noteq> Inl panics
      \<and> packages_ok (mc_plan mc) (ru_packages (snd (sbind m f s)))"
    if s: "packages_ok (mc_plan mc) (ru_packages s)" for s
  proof -
    obtain r t where mt: "m s = (r, t)" by (cases "m s")
    have "r \<noteq> Inl panics" "packages_ok (mc_plan mc) (ru_packages t)"
      using assms(1) s mt by (auto simp: avoids_def dest!: spec [of _ s])
    then show ?thesis using assms(2) [OF s] mt by (cases r) (simp_all add: sbind_def avoids_def)
  qed
  then show ?thesis by (simp add: avoids_def)
qed

lemma no_panic_accept: "no_panic mc (accept_package mc task a)"
  by (rule no_panic_keeps [OF _ packaged.keeps_accept_package])
    (simp add: accept_package_def panics_def Let_def split: sum.split)

lemma no_panic_basic:
  "no_panic mc (unless_cancelled w msg)" "no_panic mc (map_state (emit ev))"
  "no_panic mc (map_state (push_recovery r))"
  "no_panic mc (\<lambda>s. (Inr a, s))" "no_panic mc (\<lambda>s. (Inl (Fail msg), s))"
  "no_panic mc (\<lambda>s. (Inl OutOfFuel, s))"
  by (simp_all add: avoids_def unless_cancelled_def map_state_def run_simps panics_def)

lemma no_panic_report: "no_panic mc (add_report task a)"
  by (rule no_panic_keeps [OF _ packaged.keeps_add_report])
    (auto simp: add_report_def sbind_def lift_res_def map_state_def panics_def
      validate_reader_report_def ensure_def split: sum.splits)

lemma no_panic_poll:
  assumes "\<And>k. hc_run c (future_task f) 1 k \<noteq> None"
  shows "fst (poll_future w c f s) \<noteq> Inl e"
proof (cases f)
  case (InFlight t st r)
  then show ?thesis using assms [of "ru_tick s"] by (auto split: prod.splits)
qed (auto split: prod.splits sum.splits)

text \<open>A batch whose tasks have harnesses, and the tasks it hands to recovery.\<close>

lemma drain_no_panic:
  assumes run: "\<And>t k. t \<in> T \<Longrightarrow> hc_run c t 1 k \<noteq> None"
    and ready: "\<And>t res. t \<in> T \<Longrightarrow> no_panic mc (ready t res)"
    and same: "\<And>t res s xs u. ready t res s = (Inr xs, u) \<Longrightarrow> fst ` set xs \<subseteq> {t}"
    and ok: "packages_ok (mc_plan mc) (ru_packages s)" and T: "future_task ` set fs \<subseteq> T"
  shows "case drain w c ready fs s of (Inl e, t) \<Rightarrow> e \<noteq> panics | (Inr failed, t) \<Rightarrow> fst ` set failed \<subseteq> T"
proof -
  define J where "J acc fs s \<longleftrightarrow> packages_ok (mc_plan mc) (ru_packages s)
      \<and> future_task ` set fs \<subseteq> T \<and> fst ` set acc \<subseteq> T"
    for acc :: "(multi_repo_task \<times> 'b) list" and fs and s :: run_state
  have mem: "future_task (gs ! i) \<in> T" if "J acc gs u" "i < length gs" for acc gs i and u :: run_state
    using that by (auto simp: J_def)
  have polled: "packages_ok (mc_plan mc) (ru_packages v)"
    if "J acc gs u" "poll_future w c g (tick u) = (r, v)" for acc gs g r v and u :: run_state
    using that poll_future_keeps(1) [OF that(2)] by (simp add: J_def tick_def)
  have "case drain w c ready fs s of (Inl e, t) \<Rightarrow> e \<noteq> panics | (Inr failed, t) \<Rightarrow> J ([] @ failed) [] t"
  proof (rule drain_outcome [of J])
    show "J [] fs s" using ok T by (simp add: J_def)
  next
    fix acc gs u i f v
    assume J: "J acc gs u" "i < length gs" "poll_future w c (gs ! i) (tick u) = (Inr (Inl f), v)"
    have "future_task f \<in> T" using mem [OF J(1,2)] poll_future_keeps(2) [OF J(3) refl] by simp
    then show "J acc (gs[i := f]) v"
      using J(1) polled [OF J(1,3)] unfolding J_def set_update [OF J(2)] set_without [OF J(2)] by auto
  next
    fix acc gs u i res v xs x
    assume J: "J acc gs u" "i < length gs" "poll_future w c (gs ! i) (tick u) = (Inr (Inr res), v)"
      and r: "ready (future_task (gs ! i)) res v = (Inr xs, x)"
    have "packages_ok (mc_plan mc) (ru_packages x)"
      using ready [OF mem [OF J(1,2)], of res] polled [OF J(1,3)] r
      by (auto simp: avoids_def dest!: spec [of _ v])
    then show "J (acc @ xs) (without i gs) x"
      using J(1) same [OF r] mem [OF J(1,2)] unfolding J_def set_without [OF J(2)] by auto
  next
    fix acc gs u i e v
    assume J: "J acc gs u" "i < length gs" and p: "poll_future w c (gs ! i) (tick u) = (Inl e, v)"
    show "e \<noteq> panics" using no_panic_poll [OF run [OF mem [OF J]], of w "tick u" e] p by simp
  next
    fix acc gs u i res v e x
    assume J: "J acc gs u" "i < length gs" "poll_future w c (gs ! i) (tick u) = (Inr (Inr res), v)"
      and r: "ready (future_task (gs ! i)) res v = (Inl e, x)"
    then show "e \<noteq> panics"
      using ready [OF mem [OF J(1,2)], of res] polled [OF J(1,3)]
      by (auto simp: avoids_def dest!: spec [of _ v])
  qed
  then show ?thesis by (auto simp: J_def split: prod.splits sum.splits)
qed

lemma no_panic_batch:
  assumes "\<And>t k. t \<in> T \<Longrightarrow> hc_run c t 1 k \<noteq> None" and "\<And>t res. no_panic mc (ready t res)"
    and "\<And>t res s xs u. ready t res s = (Inr xs, u) \<Longrightarrow> fst ` set xs \<subseteq> {t}"
    and "future_task ` set fs \<subseteq> T" and "\<And>t f. t \<in> T \<Longrightarrow> no_panic mc (retry (t, f))"
  shows "no_panic mc (sbind (drain w c ready fs) (each_step retry))"
proof (rule no_panic_sbind_dep)
  have d: "case drain w c ready fs s of (Inl e, t) \<Rightarrow> e \<noteq> panics
      | (Inr failed, t) \<Rightarrow> fst ` set failed \<subseteq> T"
    if "packages_ok (mc_plan mc) (ru_packages s)" for s
    by (rule drain_no_panic [OF assms(1,2,3) that assms(4)])
  have "fst (drain w c ready fs s) \<noteq> Inl panics"
    if "packages_ok (mc_plan mc) (ru_packages s)" for s
    using d [OF that] by (cases "drain w c ready fs s") (auto split: sum.splits)
  moreover have "keeps (\<lambda>(os :: open_task list) s. packages_ok (mc_plan mc) (ru_packages s))
      (ready t res)" for t res
    using assms(2) [of t res] by (simp add: keeps_def avoids_def)
  from packaged.inv_drain [where ready = ready, OF this]
  have "packages_ok (mc_plan mc) (ru_packages (snd (drain w c ready fs s)))"
    if "packages_ok (mc_plan mc) (ru_packages s)" for s
    using that by blast
  ultimately show "no_panic mc (drain w c ready fs)" by (simp add: avoids_def)
  fix s a t
  assume "packages_ok (mc_plan mc) (ru_packages s)" "drain w c ready fs s = (Inr a, t)"
  then have "fst ` set a \<subseteq> T" using d [of s] by simp
  then show "no_panic mc (each_step retry a)"
    using assms(5) by (intro avoids_each) force
qed

lemma no_panic_retry_reader:
  assumes "mc_readers mc (mt_harness task) \<noteq> None"
  shows "no_panic mc (retry_reader w mc fuel task failure n)"
  using assms
proof (induction fuel arbitrary: task failure n)
  case 0
  then show ?case by (simp add: avoids_def panics_def)
next
  case (Suc fuel)
  show ?case
    unfolding retry_reader.simps(2) [abs_def] Let_def
    by (intro avoids_sbind no_panic_basic no_panic_call avoids_case_sum no_panic_report Suc.IH)
      (use Suc.prems in \<open>auto simp: run_reader_def\<close>)
qed

lemma no_panic_retry_writer:
  assumes "mc_writers mc (mt_harness task) \<noteq> None" and "valid_segment (mt_id task)"
  shows "no_panic mc (retry_writer w mc fuel task failure n)"
  using assms
proof (induction fuel arbitrary: task failure n)
  case 0
  then show ?case by (simp add: avoids_def panics_def)
next
  case (Suc fuel)
  have lift: "no_panic mc (lift_res (case retry_task_id (mt_id task) n of
      None \<Rightarrow> Inl Panicked | Some r \<Rightarrow> map_res RetryId r))"
    using retry_task_id_valid [OF Suc.prems(2), of n]
    by (intro avoids_lift) (auto simp: map_res_def panics_def split: sum.splits)
  have look: "no_panic mc (\<lambda>s. sbind (call_task w (run_writer mc) t k) (f s) s)"
    if "\<And>s. no_panic mc (sbind (call_task w (run_writer mc) t k) (f s))" for t k
      and f :: "run_state \<Rightarrow> _ \<Rightarrow> unit step"
    by (rule avoids_look) (rule that)
  show ?case
    unfolding retry_writer.simps(2) [abs_def] Let_def
    by (intro avoids_sbind look lift no_panic_basic no_panic_call avoids_case_sum no_panic_accept Suc.IH)
      (use Suc.prems in \<open>auto simp: run_writer_def\<close>)
qed

lemma no_panic_run_readers:
  assumes "ready_to_run mc"
  shows "no_panic mc (run_readers w fuel mc (plan_tasks (mc_plan mc)))"
proof -
  let ?ts = "with_role (plan_tasks (mc_plan mc)) RReader"
  have valid: "plan_validate (mc_plan mc) = Inr ()" using assms by (simp add: ready_to_run_def)
  note tasks = validate_tasks_ok [OF plan_validate_ok(2) [OF valid]]
  have ts: "t \<in> set (mp_tasks (mc_plan mc)) \<and> mt_role t = RReader" if "t \<in> set ?ts" for t
    using that plan_tasks_entries(1) [OF tasks(2)] by (auto simp: with_role_def)
  then have reader: "mc_readers mc (mt_harness t) \<noteq> None" if "t \<in> set ?ts" for t
    using that harness_exists(1) [OF assms] by blast
  show ?thesis
    unfolding run_readers_def
  proof (rule no_panic_batch [where T = "set ?ts"])
    show "no_panic mc (reader_ready t res)" for t res
      unfolding reader_ready_def
      by (intro avoids_case_sum avoids_sbind no_panic_report no_panic_basic)
    show "hc_run (run_reader mc) t 1 k \<noteq> None" if "t \<in> set ?ts" for t k
      using reader [OF that] by (auto simp: run_reader_def)
    show "fst ` set xs \<subseteq> {t}" if "reader_ready t res s = (Inr xs, u)" for t res s xs u
      using that by (auto simp: reader_ready_def sbind_Inr split: sum.splits)
    show "future_task ` set (map NotStarted ?ts) \<subseteq> set ?ts" by auto
    show "no_panic mc (case (t, f) of (task, failure) \<Rightarrow> retry_reader w mc fuel task failure 2)"
      if "t \<in> set ?ts" for t f
      using no_panic_retry_reader [OF reader [OF that]] by simp
  qed
qed

lemma no_panic_run_batch:
  assumes "ready_to_run mc" and "set batch \<subseteq> mt_id ` set (plan_writers (mc_plan mc))"
    and "list_all valid_segment batch"
  shows "no_panic mc (run_batch w fuel mc (plan_tasks (mc_plan mc)) batch)"
proof -
  let ?p = "mc_plan mc" and ?tasks = "plan_tasks (mc_plan mc)"
  let ?T = "{t. mc_writers mc (mt_harness t) \<noteq> None \<and> valid_segment (mt_id t)}"
  have valid: "plan_validate ?p = Inr ()" using assms(1) by (simp add: ready_to_run_def)
  note tasks = validate_tasks_ok [OF plan_validate_ok(2) [OF valid]]
  have known: "\<exists>t. om_get ?tasks i = Some t \<and> mc_writers mc (mt_harness t) \<noteq> None
      \<and> valid_segment (mt_id t)" if i: "i \<in> set batch" for i
  proof -
    obtain t where t: "t \<in> set (mp_tasks ?p)" "mt_role t = RWriter" "mt_id t = i"
      using i assms(2) by auto
    then have "om_get ?tasks i = Some t" using plan_tasks_lookup [OF tasks(2), of i t] by blast
    moreover have "valid_segment i" using assms(3) i by (simp add: list_all_iff)
    ultimately show ?thesis using t harness_exists(2) [OF assms(1)] by blast
  qed
  then have all: "list_all (om_contains ?tasks) batch" by (force simp: list_all_iff om_contains_def)
  have "no_panic mc (sbind (drain w (run_writer mc) (writer_ready mc)
      (map (\<lambda>i. NotStarted (with_reader_context (the (om_get ?tasks i)) reports)) batch))
      (each_step (\<lambda>(task, failure). retry_writer w mc fuel task failure 2)))" for reports
  proof (rule no_panic_batch [where T = ?T])
    show "no_panic mc (writer_ready mc t res)" for t res
      unfolding writer_ready_def
      by (intro avoids_case_sum avoids_sbind no_panic_accept no_panic_basic)
    show "hc_run (run_writer mc) t 1 k \<noteq> None" if "t \<in> ?T" for t k
      using that by (auto simp: run_writer_def)
    show "fst ` set xs \<subseteq> {t}" if "writer_ready mc t res s = (Inr xs, u)" for t res s xs u
      using that by (auto simp: writer_ready_def sbind_Inr split: sum.splits)
    show "future_task ` set (map (\<lambda>i. NotStarted (with_reader_context (the (om_get ?tasks i)) reports))
        batch) \<subseteq> ?T" using known by fastforce
    show "no_panic mc (case (t, f) of (task, failure) \<Rightarrow> retry_writer w mc fuel task failure 2)"
      if "t \<in> ?T" for t f
      using no_panic_retry_writer that by simp
  qed
  then show ?thesis using all by (simp add: avoids_def run_batch_def)
qed

lemma no_panic_rework:
  assumes "ready_to_run mc" and "i \<in> mt_id ` set (plan_writers (mc_plan mc))"
  shows "no_panic mc (rework_task w mc (plan_tasks (mc_plan mc)) feedback n i)"
proof -
  have valid: "plan_validate (mc_plan mc) = Inr ()" using assms(1) by (simp add: ready_to_run_def)
  note tasks = validate_tasks_ok [OF plan_validate_ok(2) [OF valid]]
  obtain t where t: "t \<in> set (mp_tasks (mc_plan mc))" "mt_role t = RWriter" "mt_id t = i"
    using assms(2) by auto
  then have get: "om_get (plan_tasks (mc_plan mc)) i = Some t"
    using plan_tasks_lookup [OF tasks(2), of i t] by blast
  have "mc_writers mc (mt_harness t) \<noteq> None" using harness_exists(2) [OF assms(1)] t by blast
  then have run: "no_panic mc (call_task w (run_writer mc) (t\<lparr>mt_objective := x\<rparr>) n)" for x
    by (intro no_panic_call) (auto simp: run_writer_def)
  show ?thesis
    unfolding rework_task_def get ok_or_def option.case Let_def sbind_lift_Inr
    by (intro avoids_sbind run avoids_case_sum no_panic_accept no_panic_basic)
qed

lemma validate_review_cases:
  assumes "plan_task (mc_plan mc) RReviewer = Some task"
  shows "validate_review mc v packages \<noteq> Inl Panicked"
    and "validate_review mc v packages = Inr () \<Longrightarrow> rv_decision v \<noteq> ReviewAccept \<Longrightarrow>
      rv_rework_task_ids v \<subseteq> set (om_keys packages)"
proof -
  show "validate_review mc v packages \<noteq> Inl Panicked"
    using assms by (simp add: validate_review_def ensure_def split: review_decision.split)
  assume "validate_review mc v packages = Inr ()" "rv_decision v \<noteq> ReviewAccept"
  then have "\<forall>i\<in>rv_rework_task_ids v. om_contains packages i"
    using assms
    by (cases "rv_decision v") (simp_all add: validate_review_def split: if_splits)
  then show "rv_rework_task_ids v \<subseteq> set (om_keys packages)"
    by (auto simp: om_contains_def dest!: bspec map_of_SomeD) force
qed

lemma set_sorted_subset: "set (sorted_list_of_set A) \<subseteq> A"
  by (cases "finite A") simp_all

lemma no_panic_look_res:
  assumes "\<And>s :: run_state. packages_ok (mc_plan mc) (ru_packages s) \<Longrightarrow>
      f (ru_packages s) \<noteq> Inl Panicked"
    and "\<And>s :: run_state. packages_ok (mc_plan mc) (ru_packages s) \<Longrightarrow> f (ru_packages s) = Inr () \<Longrightarrow> no_panic mc m"
  shows "no_panic mc (\<lambda>s. sbind (lift_res (f (ru_packages s))) (\<lambda>_. m) s)"
proof -
  have "fst (sbind (lift_res (f (ru_packages s))) (\<lambda>_. m) s) \<noteq> Inl panics
      \<and> packages_ok (mc_plan mc) (ru_packages (snd (sbind (lift_res (f (ru_packages s))) (\<lambda>_. m) s)))"
    if s: "packages_ok (mc_plan mc) (ru_packages s)" for s
  proof (cases "f (ru_packages s)")
    case (Inl e)
    then show ?thesis using assms(1) [OF s] s
      by (simp add: sbind_def lift_res_def panics_def)
  next
    case (Inr u)
    then have "no_panic mc m" using assms(2) [OF s] by simp
    then show ?thesis using s Inr by (simp add: sbind_def lift_res_def avoids_def)
  qed
  then show ?thesis by (simp add: avoids_def)
qed

lemma no_panic_review_loop:
  assumes "ready_to_run mc" and "plan_task (mc_plan mc) RReviewer = Some task"
  shows "no_panic mc (review_loop w mc (plan_tasks (mc_plan mc)) reviewer task fuel n)"
proof (induction fuel arbitrary: n)
  case 0
  then show ?case by (simp add: avoids_def panics_def)
next
  case (Suc fuel)
  note review = validate_review_cases [OF assms(2)]
  have rework: "no_panic mc (each_step (rework_task w mc (plan_tasks (mc_plan mc)) f k)
      (sorted_list_of_set (rv_rework_task_ids v)))"
    if "packages_ok (mc_plan mc) (ru_packages s)" "validate_review mc v (ru_packages s) = Inr ()"
      "rv_decision v \<noteq> ReviewAccept" for f k v s
  proof (intro avoids_each no_panic_rework [OF assms(1)])
    fix i assume "i \<in> set (sorted_list_of_set (rv_rework_task_ids v))"
    then show "i \<in> mt_id ` set (plan_writers (mc_plan mc))"
      using set_sorted_subset review(2) [OF that(2,3)] packages_are_writers [OF that(1)] by blast
  qed
  have call: "no_panic mc (call_task w (run_review reviewer ps) task n)" for ps
    by (rule no_panic_call) (simp add: run_review_def)
  show ?case
    unfolding review_loop.simps(2) [abs_def] Let_def
    by (rule avoids_look)
      (intro avoids_sbind call avoids_case_sum no_panic_basic no_panic_look_res avoids_if
        rework Suc.IH review(1); assumption)
qed

lemma no_panic_delegated_run:
  assumes "ready_to_run mc" and "decomposition_decision_of (mc_plan mc) = Inr d"
    and "\<forall>t\<in>set (plan_writers (mc_plan mc)). valid_segment (mt_id t)"
  shows "no_panic mc (delegated_run w fuel mc d)"
proof -
  let ?p = "mc_plan mc"
  have valid: "plan_validate ?p = Inr ()" using assms(1) by (simp add: ready_to_run_def)
  have batches: "no_panic mc (each_step (run_batch w fuel mc (plan_tasks ?p)) (dd_parallel_writer_batches d))"
  proof (rule avoids_each)
    fix batch assume "batch \<in> set (dd_parallel_writer_batches d)"
    then have writers: "set batch \<subseteq> mt_id ` set (plan_writers ?p)"
      using decomposition_covers [OF assms(2)] by auto
    then have "list_all valid_segment batch"
      using assms(3) by (auto simp: list_all_iff)
    with writers show "no_panic mc (run_batch w fuel mc (plan_tasks ?p) batch)"
      by (rule no_panic_run_batch [OF assms(1)])
  qed
  have review: "no_panic mc (review_phase w fuel mc (plan_tasks ?p))"
  proof (cases "mp_requires_independent_review ?p")
    case True
    then obtain task where task: "plan_task ?p RReviewer = Some task"
      using plan_task_exists [OF valid] by blast
    obtain reviewer where reviewer: "mc_reviewer mc = Some reviewer"
      using assms(1) True
      by (cases "mc_reviewer mc") (auto simp: ready_to_run_def validate_harnesses_def result_simps)
    show ?thesis
      unfolding review_phase_def task reviewer ok_or_def option.case sbind_lift_Inr
      by (intro avoids_if avoids_sbind no_panic_basic no_panic_review_loop [OF assms(1) task])
  qed (simp add: review_phase_def no_panic_basic)
  obtain task where task: "plan_task ?p Integrator = Some task"
    using plan_task_exists [OF valid] by blast
  have call: "no_panic mc (call_task w (run_integration mc ps) task 1)" for ps
    by (rule no_panic_call) (simp add: run_integration_def)
  have integration: "no_panic mc (integration_phase w mc)"
    unfolding integration_phase_def [abs_def] task ok_or_def option.case sbind_lift_Inr
    by (rule avoids_look)
      (intro avoids_sbind call avoids_case_sum no_panic_basic,
        auto simp: avoids_def panics_def emit_def split: sum.split)
  show ?thesis
    unfolding delegated_run_def Let_def
    by (intro avoids_sbind no_panic_run_readers [OF assms(1)] batches review integration)
      (auto simp: avoids_def panics_def)
qed

lemma plan_phase_ready:
  assumes "plan_phase w mc s = (Inr (d, planning), t)"
  shows "ready_to_run mc"
proof -
  have "validate_harnesses mc = Inr ()"
    using assms unfolding plan_phase_def Let_def
    by (elim sbind_InrE) (auto simp: lift_res_def split: sum.splits)
  moreover have "plan_validate (mc_plan mc) = Inr ()"
    using decomposed(1) [OF plan_phase_plan [OF assms]] .
  ultimately show ?thesis by (simp add: ready_to_run_def)
qed

lemma validate_harnesses_no_panic: "validate_harnesses mc \<noteq> Inl Panicked"
proof
  assume "validate_harnesses mc = Inl Panicked"
  then have "\<exists>t. check_harness mc t = Inl Panicked"
    by (auto simp: validate_harnesses_def bind_res_Inl_iff split: if_splits dest!: check_all_InlD)
  then show False by (auto simp: check_harness_def result_simps split: if_splits)
qed

lemma lift_res_at: "r \<noteq> Inl Panicked \<Longrightarrow> fst (lift_res r s) \<noteq> Inl (Abort Panicked)"
  by (auto simp: lift_res_def split: sum.split)

lemma plan_phase_no_panic: "fst (plan_phase w mc s) \<noteq> Inl (Abort Panicked)"
  unfolding plan_phase_def Let_def
proof (intro sbind_at lift_res_at, goal_cases)
  case 1
  then show ?case by (rule validate_harnesses_no_panic)
next
  case (2 u t)
  then show ?case using decomposition_no_panic [of "mc_plan mc"]
    by (auto simp: map_res_def plan_failure_def split: sum.split)
next
  case (3 u t d t1)
  then show ?case by (simp add: map_state_def)
next
  case (4 u t d t1 v t2)
  then have "plan_validate (mc_plan mc) = Inr ()"
    using decomposed(1) [of "mc_plan mc"] by (auto simp: lift_res_def map_res_def split: sum.splits)
  then show ?case using plan_task_exists [of "mc_plan mc" Planner] by (auto simp: ok_or_def)
next
  case (5 u t d t1 v t2 planner t3)
  then have "plan_task (mc_plan mc) Planner = Some planner"
    by (auto simp: lift_res_def ok_or_def split: option.splits)
  then show ?case
    by (simp add: planning_receipt_of_def ok_or_def split: sum.split)
qed simp

text \<open>
  C17. A run never panics when the ids of its writers are identifiers \<open>TaskId::new\<close> accepts. Every
  lookup that \<open>run\<close> makes without a check (\<open>expect\<close> on the planner, reviewer and integrator
  tasks, on the repository of a writer and on the reviewer harness, indexing the harness, task
  and repository maps, \<open>chunks\<close>, slicing the id of a failed writer) succeeds, because
  \<open>validate_harnesses\<close>, the validation of the plan, the validation of reviews and the validation
  of packages exclude everything else.
\<close>

theorem run_never_panics:
  assumes "\<forall>t\<in>set (plan_writers (mc_plan mc)). valid_segment (mt_id t)"
  shows "fst (repo_run w fuel mc) \<noteq> Some (Inl Panicked)"
proof -
  obtain x s where p: "plan_phase w mc (initial_run mc) = (x, s)"
    by (cases "plan_phase w mc (initial_run mc)")
  show ?thesis
  proof (cases x)
    case (Inl e)
    then show ?thesis using p plan_phase_no_panic [of w mc "initial_run mc"]
      by (auto simp: repo_run_def split: early.split)
  next
    case (Inr q)
    obtain d planning where q: "q = (d, planning)" by (cases q)
    have plan: "plan_phase w mc (initial_run mc) = (Inr (d, planning), s)" using p Inr q by simp
    have "packages_ok (mc_plan mc) (ru_packages s)"
      using keepsD [OF packaged.keeps_plan_phase, of mc "initial_run mc" w] p
      by (simp add: packages_ok_def initial_run_def)
    then have "fst (delegated_run w fuel mc d s) \<noteq> Inl panics"
      using no_panic_delegated_run [OF plan_phase_ready [OF plan] plan_phase_plan [OF plan] assms]
      by (simp add: avoids_def)
    then show ?thesis
      using plan by (auto simp: repo_run_def panics_def split: sum.split early.split prod.split)
  qed
qed

theorem run_never_panics_witness:
  "\<forall>w fuel. fst (repo_run w fuel example_repo_coordinator) \<noteq> Some (Inl Panicked)"
proof -
  have "\<forall>t\<in>set (plan_writers (mc_plan example_repo_coordinator)). valid_segment (mt_id t)"
    by (simp add: example_repo_coordinator_def example_simps) code_simp
  then show ?thesis by (intro allI run_never_panics)
qed

text \<open>
  An id that never went through \<open>TaskId::new\<close>, as in a deserialized plan, can make the recovery
  of its writer panic: the retry id is cut at a byte, and exactly when that byte continues a
  character the first recovery round that is not cancelled ends in the panic of the slice, before
  the harness is called again.
\<close>

lemma unchecked_id_panics:
  assumes "\<not> w_cancelled w (ru_tick s)"
    and "64 - length (''-retry-'' @ dec (unat n)) = keep" and "0 < keep"
  shows "(retry_task_id (mt_id task) n = None
       \<longleftrightarrow> keep < length (mt_id task) \<and> continuation_byte (mt_id task ! keep))
     \<and> (keep < length (mt_id task) \<and> continuation_byte (mt_id task ! keep)
        \<longrightarrow> fst (retry_writer w mc (Suc fuel) task failure n s) = Inl (Abort Panicked))"
proof -
  have none: "retry_task_id (mt_id task) n = None
      \<longleftrightarrow> keep < length (mt_id task) \<and> continuation_byte (mt_id task ! keep)"
    using assms(2,3) by (auto simp: retry_task_id_def Let_def str_prefix_def min_def)
  moreover have "fst (retry_writer w mc (Suc fuel) task failure n s) = Inl (Abort Panicked)"
    if "retry_task_id (mt_id task) n = None"
    using assms(1) that by (simp add: sbind_def unless_cancelled_def lift_res_def)
  ultimately show ?thesis by blast
qed

definition accented_task :: multi_repo_task where
  "accented_task = (example_writer ''w1'' ''src/a'')
     \<lparr>mt_id := CHR ''a'' # concat (replicate 30 [CHR 0xC3, CHR 0xA9])\<rparr>"

lemma unchecked_id_panics_witness:
  "\<forall>failure. fst (retry_writer example_world example_repo_coordinator 1 accented_task failure 2
     (initial_run example_repo_coordinator)) = Inl (Abort Panicked)"
proof -
  have "\<not> w_cancelled example_world (ru_tick (initial_run example_repo_coordinator))"
    by (simp add: example_world_def initial_run_def)
  moreover have "64 - length (''-retry-'' @ dec (unat (2 :: u32))) = 56"
    by (simp add: dec.simps)
  then have "57 - length (dec 2) = 56" by simp
  moreover have "56 < length (mt_id accented_task)" "continuation_byte (mt_id accented_task ! 56)"
    by code_simp+
  ultimately show ?thesis
    using unchecked_id_panics [of example_world "initial_run example_repo_coordinator" 2 56
        accented_task example_repo_coordinator 0]
    by (simp del: retry_writer.simps)
qed

end
