(* ===== verification/ResearchTree.thy ===== *)
theory ResearchTree
  imports Float64 Machines OrdMap "HOL-Library.Sublist"
begin

text \<open>
  The research tree: \<open>research-tree/src\<close>, a graph of research work whose state is the replay of
  its event journal. The ranking policy \<open>rank_opportunities\<close> and the surface kinds belong to the
  crate \<open>clark-autoresearch\<close>: they are the parameter \<open>rank\<close>, which maps the opportunities to the
  node ids of the dispatch hints in their order, and the type variable \<open>'s\<close>.

  A transition works on a staged copy of the tree, which \<open>apply\<close> throws away when the
  transition is refused, so a refused transition is modelled by its error alone. The journal of
  the staged copy is empty, also where the transition looks at it.
\<close>

section \<open>Data\<close>

record identity =
  scope_id :: rstr
  source_id :: rstr

record limits =
  max_nodes :: nat
  max_steps :: nat

record 's assessment =
  as_surface :: 's
  as_in_scope :: bool
  as_requires_validation :: bool
  as_priority :: f64
  as_novelty :: f64
  as_confidence :: f64
  as_impact :: f64

datatype node_status = Pending | Active | NCompleted | Refuted | NBlocked | Pruned

datatype node_outcome = Supports | Refutes | Expands | Inconclusive | OutcomeBlocked

record 's node =
  nd_key :: rstr
  nd_parent :: "rstr option"
  nd_links :: "rstr list"
  nd_dependencies :: "rstr list"
  nd_evidence_refs :: "rstr list"
  nd_rationale :: rstr
  nd_assessment :: "'s assessment"
  nd_status :: node_status
  nd_outcome :: "node_outcome option"

datatype 's tree_event =
    Proposed rstr "rstr option" "rstr list" "rstr list" "rstr list" rstr "'s assessment"
  | Reassessed rstr "rstr list" rstr "'s assessment"
  | Started rstr
  | Recorded rstr node_outcome "rstr list" rstr
  | Reopened rstr "rstr list" rstr
  | PruneNode rstr rstr

datatype event_result = NodeCreated rstr | NodeMerged rstr | NodeUpdated rstr

datatype tree_error =
    TInvalid rstr | UnknownNode rstr | TTransition rstr | TBudget rstr

record 's opportunity =
  op_node_id :: rstr
  op_surface :: 's
  op_priority :: f64
  op_novelty :: f64
  op_confidence :: f64
  op_impact :: f64
  op_in_scope :: bool
  op_requires_validation :: bool

type_synonym 's ranking = "'s opportunity list \<Rightarrow> rstr list"

record 's research_tree =
  rt_identity :: identity
  rt_limits :: limits
  rt_nodes :: "(rstr, 's node) omap"
  rt_events :: "'s tree_event list"
  rt_steps_used :: nat

definition max_events :: nat where
  "max_events = 4096"

definition max_references :: nat where
  "max_references = 64"

section \<open>Checks\<close>

definition check_text :: "rstr \<Rightarrow> nat \<Rightarrow> rstr \<Rightarrow> tree_error + unit" where
  "check_text value limit field =
     (if blank value \<or> limit < length value
      then Inl (TInvalid (field @ '' must be nonempty and at most '' @ dec limit @ '' bytes''))
      else Inr ())"

definition check_refs :: "rstr list \<Rightarrow> tree_error + unit" where
  "check_refs values =
     (if max_references < length values then Inl (TInvalid ''too many references'')
      else check_all (\<lambda>v. check_text v 512 ''reference'') values)"

definition merge_refs :: "rstr list \<Rightarrow> rstr list \<Rightarrow> tree_error + rstr list" where
  "merge_refs values incoming =
     (let merged = foldl (\<lambda>vs v. if v \<in> set vs then vs else vs @ [v]) values incoming
      in bind_res (check_refs merged) (\<lambda>_. Inr merged))"

definition score_ok :: "f64 \<Rightarrow> bool" where
  "score_ok v \<longleftrightarrow> f_finite v \<and> f_le (Fin 0) v \<and> f_le v (Fin 1)"

definition validate_assessment :: "'s assessment \<Rightarrow> tree_error + unit" where
  "validate_assessment a =
     check_all (\<lambda>score. ensure (score_ok score)
         (TInvalid ''assessment scores must be finite and within 0..1''))
       [as_priority a, as_novelty a, as_confidence a, as_impact a]"

section \<open>The tree\<close>

definition research_tree_new :: "identity \<Rightarrow> limits \<Rightarrow> tree_error + 's research_tree" where
  "research_tree_new i l =
     bind_res (check_text (scope_id i) 256 ''scope_id'') (\<lambda>_.
     bind_res (check_text (source_id i) 512 ''source_id'') (\<lambda>_.
       if \<not> (1 \<le> max_nodes l \<and> max_nodes l \<le> 256) \<or> \<not> (1 \<le> max_steps l \<and> max_steps l \<le> 1000)
       then Inl (TInvalid ''max_nodes must be 1..256 and max_steps 1..1000'')
       else Inr \<lparr>rt_identity = i, rt_limits = l, rt_nodes = [], rt_events = [],
                 rt_steps_used = 0\<rparr>))"

definition active_count :: "'s research_tree \<Rightarrow> nat" where
  "active_count t = length (filter (\<lambda>n. nd_status n = Active) (om_values (rt_nodes t)))"

definition node_ready :: "'s research_tree \<Rightarrow> 's node \<Rightarrow> bool" where
  "node_ready t n \<longleftrightarrow> nd_status n = Pending \<and> as_in_scope (nd_assessment n)
     \<and> list_all (\<lambda>k. case om_get (rt_nodes t) k of None \<Rightarrow> False
         | Some d \<Rightarrow> nd_status d = NCompleted \<or> nd_status d = Refuted) (nd_dependencies n)"

definition opportunity_of :: "'s node \<Rightarrow> 's opportunity" where
  "opportunity_of n =
     (let a = nd_assessment n
      in \<lparr>op_node_id = nd_key n, op_surface = as_surface a, op_priority = as_priority a,
          op_novelty = as_novelty a, op_confidence = as_confidence a, op_impact = as_impact a,
          op_in_scope = as_in_scope a, op_requires_validation = as_requires_validation a\<rparr>)"

definition ranked :: "'s ranking \<Rightarrow> 's research_tree \<Rightarrow> rstr list" where
  "ranked rank t =
     (if max_steps (rt_limits t) \<le> rt_steps_used t
         \<or> max_events < length (rt_events t) + active_count t + 2
      then []
      else rank (map opportunity_of (filter (node_ready t) (om_values (rt_nodes t)))))"

definition put_node :: "rstr \<Rightarrow> 's node \<Rightarrow> 's research_tree \<Rightarrow> 's research_tree" where
  "put_node k n t = t\<lparr>rt_nodes := om_insert k n (rt_nodes t)\<rparr>"

definition proposal_refs ::
    "'s research_tree \<Rightarrow> rstr \<Rightarrow> rstr list \<Rightarrow> tree_error + unit" where
  "proposal_refs t key refs =
     check_all (\<lambda>reference.
       if reference = key then Inl (TInvalid ''self reference'')
       else ensure (om_contains (rt_nodes t) reference) (UnknownNode reference)) refs"

definition merge_proposal ::
    "rstr option \<Rightarrow> rstr list \<Rightarrow> rstr list \<Rightarrow> 's node \<Rightarrow> tree_error + 's node" where
  "merge_proposal parent links evidence_refs existing =
     bind_res (merge_refs (nd_links existing) links) (\<lambda>links1.
     bind_res (case parent of
         Some p \<Rightarrow> if nd_parent existing \<noteq> Some p then merge_refs links1 [p] else Inr links1
       | None \<Rightarrow> Inr links1) (\<lambda>links2.
     bind_res (merge_refs (nd_evidence_refs existing) evidence_refs) (\<lambda>evidence.
       Inr (existing\<lparr>nd_links := links2, nd_evidence_refs := evidence\<rparr>))))"

definition propose ::
    "rstr \<Rightarrow> rstr option \<Rightarrow> rstr list \<Rightarrow> rstr list \<Rightarrow> rstr list \<Rightarrow> rstr \<Rightarrow> 's assessment \<Rightarrow>
     's research_tree \<Rightarrow> tree_error + 's research_tree \<times> event_result"
where
  "propose key parent links dependencies evidence_refs rationale a t =
     bind_res (check_text key 160 ''key'') (\<lambda>_.
     bind_res (check_text rationale 4096 ''rationale'') (\<lambda>_.
     bind_res (check_refs links) (\<lambda>_.
     bind_res (check_refs dependencies) (\<lambda>_.
     bind_res (check_refs evidence_refs) (\<lambda>_.
     bind_res (validate_assessment a) (\<lambda>_.
     bind_res (proposal_refs t key
         ((case parent of None \<Rightarrow> [] | Some p \<Rightarrow> [p]) @ links @ dependencies)) (\<lambda>_.
       let normalized = sorted_list_of_set (set dependencies)
       in case om_get (rt_nodes t) key of
            Some existing \<Rightarrow>
              if nd_assessment existing \<noteq> a \<or> nd_dependencies existing \<noteq> normalized
              then Inl (TInvalid ''duplicate key changes assessment or dependencies'')
              else bind_res (merge_proposal parent links evidence_refs existing) (\<lambda>n.
                Inr (put_node key n t, NodeMerged key))
          | None \<Rightarrow>
              if max_nodes (rt_limits t) \<le> length (rt_nodes t) then Inl (TBudget ''node limit'')
              else bind_res (merge_refs [] links) (\<lambda>unique_links.
                bind_res (merge_refs [] evidence_refs) (\<lambda>unique_evidence.
                  Inr (put_node key
                    \<lparr>nd_key = key, nd_parent = parent, nd_links = unique_links,
                     nd_dependencies = normalized, nd_evidence_refs = unique_evidence,
                     nd_rationale = rationale, nd_assessment = a, nd_status = Pending,
                     nd_outcome = None\<rparr> t, NodeCreated key))))))))))"

definition get_node :: "'s research_tree \<Rightarrow> rstr \<Rightarrow> tree_error + 's node" where
  "get_node t key = ok_or (om_get (rt_nodes t) key) (UnknownNode key)"

definition new_evidence :: "'s node \<Rightarrow> rstr list \<Rightarrow> bool" where
  "new_evidence n evidence_refs \<longleftrightarrow> list_ex (\<lambda>r. r \<notin> set (nd_evidence_refs n)) evidence_refs"

definition reassess ::
    "rstr \<Rightarrow> rstr list \<Rightarrow> rstr \<Rightarrow> 's assessment \<Rightarrow> 's research_tree \<Rightarrow>
     tree_error + 's research_tree \<times> event_result"
where
  "reassess key evidence_refs rationale a t =
     bind_res (check_text rationale 4096 ''rationale'') (\<lambda>_.
     bind_res (check_refs evidence_refs) (\<lambda>_.
     bind_res (validate_assessment a) (\<lambda>_.
     bind_res (get_node t key) (\<lambda>n.
       if nd_status n \<noteq> Pending then Inl (TTransition ''reassess requires pending work'')
       else if as_in_scope (nd_assessment n) \<noteq> as_in_scope a
       then Inl (TInvalid ''reassessment cannot change declared scope'')
       else if \<not> new_evidence n evidence_refs
       then Inl (TInvalid ''reassess requires a genuinely new evidence reference'')
       else bind_res (merge_refs (nd_evidence_refs n) evidence_refs) (\<lambda>merged.
         Inr (put_node key (n\<lparr>nd_evidence_refs := merged, nd_rationale := rationale,
                nd_assessment := a\<rparr>) t, NodeUpdated key))))))"

definition start_node ::
    "'s ranking \<Rightarrow> rstr \<Rightarrow> 's research_tree \<Rightarrow> tree_error + 's research_tree \<times> event_result" where
  "start_node rank key t =
     (if max_steps (rt_limits t) \<le> rt_steps_used t then Inl (TBudget ''step limit'')
      else bind_res (get_node t key) (\<lambda>n.
        if \<not> node_ready t n
        then Inl (TTransition ''node is not pending, in scope, and dependency-ready'')
        else if (case ranked rank t of [] \<Rightarrow> None | h # hs \<Rightarrow> Some h) \<noteq> Some key
        then Inl (TTransition ''Started must select the highest ranked ready node'')
        else Inr ((put_node key (n\<lparr>nd_status := Active\<rparr>) t)
                    \<lparr>rt_steps_used := rt_steps_used t + 1\<rparr>, NodeUpdated key)))"

fun outcome_status :: "node_outcome \<Rightarrow> node_status" where
  "outcome_status Refutes = Refuted"
| "outcome_status OutcomeBlocked = NBlocked"
| "outcome_status _ = NCompleted"

definition record_outcome ::
    "rstr \<Rightarrow> node_outcome \<Rightarrow> rstr list \<Rightarrow> rstr \<Rightarrow> 's research_tree \<Rightarrow>
     tree_error + 's research_tree \<times> event_result"
where
  "record_outcome key outcome evidence_refs rationale t =
     bind_res (check_text rationale 4096 ''rationale'') (\<lambda>_.
     bind_res (check_refs evidence_refs) (\<lambda>_.
       if outcome = Supports \<and> evidence_refs = []
       then Inl (TInvalid ''supports requires asserted evidence references'')
       else bind_res (get_node t key) (\<lambda>n.
         if nd_status n \<noteq> Active then Inl (TTransition ''record requires an active node'')
         else bind_res (merge_refs (nd_evidence_refs n) evidence_refs) (\<lambda>merged.
           Inr (put_node key (n\<lparr>nd_evidence_refs := merged, nd_rationale := rationale,
                  nd_outcome := Some outcome, nd_status := outcome_status outcome\<rparr>) t,
                NodeUpdated key)))))"

definition reopen ::
    "rstr \<Rightarrow> rstr list \<Rightarrow> rstr \<Rightarrow> 's research_tree \<Rightarrow> tree_error + 's research_tree \<times> event_result"
where
  "reopen key evidence_refs rationale t =
     bind_res (check_text rationale 4096 ''rationale'') (\<lambda>_.
     bind_res (check_refs evidence_refs) (\<lambda>_.
     bind_res (get_node t key) (\<lambda>n.
       if nd_status n = Pending \<or> nd_status n = Active
       then Inl (TTransition ''only a terminal node may reopen'')
       else if \<not> new_evidence n evidence_refs
       then Inl (TInvalid ''reopen requires a genuinely new evidence reference'')
       else bind_res (merge_refs (nd_evidence_refs n) evidence_refs) (\<lambda>merged.
         Inr (put_node key (n\<lparr>nd_evidence_refs := merged, nd_rationale := rationale,
                nd_outcome := None, nd_status := Pending\<rparr>) t, NodeUpdated key)))))"

definition prune ::
    "rstr \<Rightarrow> rstr \<Rightarrow> 's research_tree \<Rightarrow> tree_error + 's research_tree \<times> event_result" where
  "prune key rationale t =
     bind_res (check_text rationale 4096 ''rationale'') (\<lambda>_.
     bind_res (get_node t key) (\<lambda>n.
       if nd_status n \<noteq> Pending \<and> nd_status n \<noteq> NBlocked
       then Inl (TTransition ''prune requires pending or blocked work'')
       else Inr (put_node key (n\<lparr>nd_status := Pruned, nd_rationale := rationale\<rparr>) t,
                 NodeUpdated key)))"

fun tree_transition ::
    "'s ranking \<Rightarrow> 's tree_event \<Rightarrow> 's research_tree \<Rightarrow> tree_error + 's research_tree \<times> event_result"
where
  "tree_transition rank (Proposed k p ls ds es r a) t = propose k p ls ds es r a t"
| "tree_transition rank (Reassessed k es r a) t = reassess k es r a t"
| "tree_transition rank (Started k) t = start_node rank k t"
| "tree_transition rank (Recorded k out es r) t = record_outcome k out es r t"
| "tree_transition rank (Reopened k es r) t = reopen k es r t"
| "tree_transition rank (PruneNode k r) t = prune k r t"

definition tree_apply ::
    "'s ranking \<Rightarrow> 's research_tree \<Rightarrow> 's tree_event \<Rightarrow>
     's research_tree \<times> (tree_error + event_result)"
where
  "tree_apply rank t event =
     (if max_events \<le> length (rt_events t) then (t, Inl (TBudget ''journal event limit''))
      else case tree_transition rank event (t\<lparr>rt_events := []\<rparr>) of
          Inl e \<Rightarrow> (t, Inl e)
        | Inr (next, result) \<Rightarrow>
            if max_events < length (rt_events t) + 1 + active_count next
            then (t, Inl (TBudget ''journal slots reserved for active outcomes''))
            else (t\<lparr>rt_nodes := rt_nodes next, rt_steps_used := rt_steps_used next,
                    rt_events := rt_events t @ [event]\<rparr>, Inr result))"

definition select_node ::
    "'s ranking \<Rightarrow> 's research_tree \<Rightarrow> 's research_tree \<times> (tree_error + 's node option)" where
  "select_node rank t =
     (if max_steps (rt_limits t) \<le> rt_steps_used t then (t, Inl (TBudget ''step limit''))
      else if max_events < length (rt_events t) + active_count t + 2
      then (t, Inl (TBudget ''journal slots reserved for active outcomes''))
      else case ranked rank t of
          [] \<Rightarrow> (t, Inr None)
        | hint # _ \<Rightarrow>
            (case tree_apply rank t (Started hint) of
               (t', Inl e) \<Rightarrow> (t', Inl e)
             | (t', Inr _) \<Rightarrow> (t', Inr (om_get (rt_nodes t') hint))))"

type_synonym 's tree_journal = "identity \<times> limits \<times> 's tree_event list"

definition tree_journal_of :: "'s research_tree \<Rightarrow> 's tree_journal" where
  "tree_journal_of t = (rt_identity t, rt_limits t, rt_events t)"

definition replay_step ::
    "'s ranking \<Rightarrow> 's research_tree \<Rightarrow> 's tree_event \<Rightarrow> tree_error + 's research_tree" where
  "replay_step rank t event =
     (case tree_apply rank t event of (t', Inl e) \<Rightarrow> Inl e | (t', Inr _) \<Rightarrow> Inr t')"

definition tree_replay :: "'s ranking \<Rightarrow> 's tree_journal \<Rightarrow> tree_error + 's research_tree" where
  "tree_replay rank = (\<lambda>(i, l, events).
     bind_res (research_tree_new i l) (\<lambda>t. fold_res (replay_step rank) t events))"


section \<open>Context of a node\<close>

text \<open>
  The two loops of \<open>context\<close>: first the chain of parents, then breadth first over what the
  collected nodes refer to. The value \<open>None\<close> is the panic of \<open>expect\<close>.
\<close>

definition node_links :: "'s node \<Rightarrow> rstr list" where
  "node_links n = (case nd_parent n of None \<Rightarrow> [] | Some p \<Rightarrow> [p]) @ nd_dependencies n
     @ sort (nd_links n)"

function context_ancestors ::
    "(rstr, 's node) omap \<Rightarrow> nat \<Rightarrow> rstr option \<Rightarrow> rstr set \<Rightarrow> 's node list \<Rightarrow>
     (rstr set \<times> 's node list) option"
where
  "context_ancestors nodes limit ancestor seen context =
     (case ancestor of
        None \<Rightarrow> Some (seen, context)
      | Some key \<Rightarrow>
          if key \<in> seen \<or> length context = limit then Some (insert key seen, context)
          else (case om_get nodes key of
              None \<Rightarrow> None
            | Some n \<Rightarrow> context_ancestors nodes limit (nd_parent n) (insert key seen) (context @ [n])))"
  by pat_completeness auto
termination
proof (relation "measure (\<lambda>(nodes, _, _, seen, _). card (fst ` set nodes - seen))")
  fix nodes :: "(rstr, 's node) omap" and limit ancestor key seen and ctx :: "'s node list"
    and n :: "'s node"
  assume "\<not> (key \<in> seen \<or> length ctx = limit)" and "om_get nodes key = Some n"
  then have "key \<in> fst ` set nodes - seen"
    by (force dest!: map_of_SomeD)
  then have "fst ` set nodes - insert key seen \<subset> fst ` set nodes - seen"
    by blast
  then show "((nodes, limit, nd_parent n, insert key seen, ctx @ [n]),
      nodes, limit, ancestor, seen, ctx)
    \<in> measure (\<lambda>(nodes, _, _, seen, _). card (fst ` set nodes - seen))"
    by (simp add: psubset_card_mono)
qed simp

fun context_visit ::
    "(rstr, 's node) omap \<Rightarrow> nat \<Rightarrow> rstr list \<Rightarrow> rstr set \<Rightarrow> 's node list \<Rightarrow>
     (rstr set \<times> 's node list) option"
where
  "context_visit nodes limit [] seen context = Some (seen, context)"
| "context_visit nodes limit (key # keys) seen context =
     (if key \<in> seen then context_visit nodes limit keys seen context
      else case om_get nodes key of
          None \<Rightarrow> None
        | Some n \<Rightarrow>
            if length context + 1 = limit then Some (insert key seen, context @ [n])
            else context_visit nodes limit keys (insert key seen) (context @ [n]))"

function context_cursor ::
    "(rstr, 's node) omap \<Rightarrow> nat \<Rightarrow> nat \<Rightarrow> rstr set \<Rightarrow> 's node list \<Rightarrow> 's node list option"
where
  "context_cursor nodes limit cursor seen context =
     (if cursor < length context \<and> length context < limit
      then (case context_visit nodes limit (node_links (context ! cursor)) seen context of
          None \<Rightarrow> None
        | Some (seen', context') \<Rightarrow> context_cursor nodes limit (cursor + 1) seen' context')
      else Some context)"
  by pat_completeness auto
termination by (relation "measure (\<lambda>(_, limit, cursor, _, _). limit - cursor)") auto

definition tree_context ::
    "'s research_tree \<Rightarrow> rstr \<Rightarrow> nat \<Rightarrow> (tree_error + 's node list) option" where
  "tree_context t key limit =
     (if \<not> (1 \<le> limit \<and> limit \<le> 32) then Some (Inl (TInvalid ''context limit must be 1..32''))
      else if \<not> om_contains (rt_nodes t) key then Some (Inl (UnknownNode key))
      else case context_ancestors (rt_nodes t) limit (Some key) {} [] of
          None \<Rightarrow> None
        | Some (seen, context) \<Rightarrow>
            map_option Inr (context_cursor (rt_nodes t) limit 0 seen context))"

declare context_ancestors.simps [simp del] context_cursor.simps [simp del]

section \<open>Replay\<close>

lemma replay_extend:
  assumes "tree_replay rank (i, l, es) = Inr t"
  shows "tree_replay rank (i, l, es @ [e]) = replay_step rank t e"
proof -
  obtain t0 where t0: "research_tree_new i l = Inr t0" "fold_res (replay_step rank) t0 es = Inr t"
    using assms by (auto simp: tree_replay_def result_simps)
  then show ?thesis
    by (simp add: tree_replay_def fold_res_append)
       (cases "replay_step rank t e"; simp)
qed

lemma apply_cases:
  assumes "tree_apply rank t e = (t', res)"
  obtains (refused) err where "res = Inl err" and "t' = t"
  | (applied) r staged where "res = Inr r" and "length (rt_events t) < max_events"
      and "tree_transition rank e (t\<lparr>rt_events := []\<rparr>) = Inr (staged, r)"
      and "length (rt_events t) + 1 + active_count staged \<le> max_events"
      and "t' = t\<lparr>rt_nodes := rt_nodes staged, rt_steps_used := rt_steps_used staged,
              rt_events := rt_events t @ [e]\<rparr>"
  using assms by (auto simp: tree_apply_def split: if_splits sum.splits prod.splits)

interpretation tree: event_sourced
  tree_journal_of "\<lambda>(i, l, es) e. (i, l, es @ [e])" "\<lambda>t. t" "tree_apply rank" "\<lambda>t e. e"
  "tree_replay rank" "\<lambda>t e. True"
proof
  fix c c' :: "'a research_tree" and k r e
  show "tree_apply rank c k = (c', Inr r) \<Longrightarrow>
      tree_journal_of c' = (case tree_journal_of c of (i, l, es) \<Rightarrow> \<lambda>e. (i, l, es @ [e])) k"
    by (erule apply_cases) (auto simp: tree_journal_of_def)
  show "tree_apply rank c k = (c', Inr r) \<Longrightarrow> tree_replay rank (tree_journal_of c) = Inr c \<Longrightarrow>
      tree_replay rank (tree_journal_of c') = Inr c'"
    by (frule apply_cases)
       (auto simp: tree_journal_of_def replay_extend replay_step_def split: prod.splits sum.splits
          elim!: apply_cases)
  show "tree_apply rank c k = (c', Inl e) \<Longrightarrow> tree_journal_of c' = tree_journal_of c"
    by (erule apply_cases) auto
  show "tree_apply rank c k = (c', Inl e) \<Longrightarrow> True \<Longrightarrow> c' = c"
    by (erule apply_cases) auto
qed


section \<open>Well-formed trees\<close>

definition good_refs :: "rstr list \<Rightarrow> bool" where
  "good_refs vs \<longleftrightarrow> distinct vs \<and> check_refs vs = Inr ()"

definition node_refs :: "'s node \<Rightarrow> rstr set" where
  "node_refs n = set_option (nd_parent n) \<union> set (nd_dependencies n) \<union> set (nd_links n)"

text \<open>The outcome a node carries in each status.\<close>

fun outcomes_of :: "node_status \<Rightarrow> node_outcome option set" where
  "outcomes_of Pending = {None}"
| "outcomes_of Active = {None}"
| "outcomes_of NCompleted = {Some Supports, Some Expands, Some Inconclusive}"
| "outcomes_of Refuted = {Some Refutes}"
| "outcomes_of NBlocked = {Some OutcomeBlocked}"
| "outcomes_of Pruned = {None, Some OutcomeBlocked}"

text \<open>
  The type of a node: its texts are bounded, its references distinct and bounded, its scores
  within the unit interval, its outcome the one its status allows, and support is asserted
  with evidence.
\<close>

definition node_ok :: "'s node \<Rightarrow> bool" where
  "node_ok n \<longleftrightarrow>
     check_text (nd_key n) 160 ''key'' = Inr () \<and>
     check_text (nd_rationale n) 4096 ''rationale'' = Inr () \<and>
     good_refs (nd_links n) \<and> good_refs (nd_evidence_refs n) \<and>
     sorted_wrt (<) (nd_dependencies n) \<and> length (nd_dependencies n) \<le> max_references \<and>
     validate_assessment (nd_assessment n) = Inr () \<and>
     nd_outcome n \<in> outcomes_of (nd_status n) \<and>
     (nd_outcome n = Some Supports \<longrightarrow> nd_evidence_refs n \<noteq> []) \<and>
     (nd_status n = Active \<longrightarrow> as_in_scope (nd_assessment n))"

text \<open>\<open>(d, k)\<close>: the node \<open>k\<close> depends on \<open>d\<close> or is its child.\<close>

definition work_order :: "(rstr, 's node) omap \<Rightarrow> (rstr \<times> rstr) set" where
  "work_order nodes = {(d, k). \<exists>n. om_get nodes k = Some n
     \<and> d \<in> set_option (nd_parent n) \<union> set (nd_dependencies n)}"

definition nodes_ok :: "(rstr, 's node) omap \<Rightarrow> bool" where
  "nodes_ok nodes \<longleftrightarrow> om_wf nodes \<and> acyclic (work_order nodes) \<and>
     (\<forall>k n. om_get nodes k = Some n \<longrightarrow>
        nd_key n = k \<and> node_ok n \<and> node_refs n \<subseteq> dom (om_get nodes))"

fun is_started :: "'s tree_event \<Rightarrow> bool" where
  "is_started (Started k) = True"
| "is_started _ = False"

definition starts :: "'s tree_event list \<Rightarrow> nat" where
  "starts es = length (filter is_started es)"

definition tree_ok :: "'s research_tree \<Rightarrow> bool" where
  "tree_ok t \<longleftrightarrow> nodes_ok (rt_nodes t) \<and>
     length (rt_nodes t) \<le> max_nodes (rt_limits t) \<and> max_nodes (rt_limits t) \<le> 256 \<and>
     rt_steps_used t = starts (rt_events t) \<and>
     rt_steps_used t \<le> max_steps (rt_limits t) \<and> max_steps (rt_limits t) \<le> 1000 \<and>
     length (rt_events t) + active_count t \<le> max_events"

lemma nodes_okD:
  assumes "nodes_ok nodes" and "om_get nodes k = Some n"
  shows "nd_key n = k" and "node_ok n" and "node_refs n \<subseteq> dom (om_get nodes)"
  using assms by (auto simp: nodes_ok_def)

lemma merge_refs_good:
  assumes "merge_refs vs ws = Inr us" and "distinct vs"
  shows "good_refs us" and "set us = set vs \<union> set ws"
proof -
  define m where "m = (\<lambda>vs v. if v \<in> set vs then vs else vs @ [v :: rstr])"
  have "distinct (foldl m vs ws) \<and> set (foldl m vs ws) = set vs \<union> set ws"
    using assms(2) by (induction ws arbitrary: vs) (auto simp: m_def)
  moreover have "us = foldl m vs ws" and "check_refs us = Inr ()"
    using assms(1) by (auto simp: merge_refs_def m_def Let_def result_simps)
  ultimately show "good_refs us" and "set us = set vs \<union> set ws"
    by (simp_all add: good_refs_def)
qed

lemma sorted_list_of_set_strict: "sorted_wrt (<) (sorted_list_of_set (set xs))"
  for xs :: "rstr list"
  by (simp add: strict_sorted_iff)

lemma length_sorted_list_of_set: "length (sorted_list_of_set (set xs)) \<le> length xs"
  for xs :: "rstr list"
  by (simp add: card_length)

text \<open>Replacing a node that is there, without a change of its parent and dependencies.\<close>

lemma nodes_ok_update:
  assumes "nodes_ok nodes" and "om_get nodes k = Some n"
    and "nd_key m = nd_key n" and "nd_parent m = nd_parent n"
    and "nd_dependencies m = nd_dependencies n" and "node_ok m"
    and "set (nd_links m) \<subseteq> dom (om_get nodes)"
  shows "nodes_ok (om_insert k m nodes)"
proof -
  have "work_order (om_insert k m nodes) = work_order nodes"
    using assms(2,4,5) by (auto simp: work_order_def)
  moreover have "node_refs m \<subseteq> insert k (dom (om_get nodes))"
    using nodes_okD(3) [OF assms(1,2)] assms(4,5,7) by (auto simp: node_refs_def)
  ultimately show ?thesis
    using assms(1,3,6) nodes_okD [OF assms(1,2)]
    by (auto simp: nodes_ok_def) blast+
qed

lemma nodes_ok_create:
  assumes "nodes_ok nodes" and "om_get nodes k = None" and "nd_key m = k" and "node_ok m"
    and "node_refs m \<subseteq> dom (om_get nodes)"
  shows "nodes_ok (om_insert k m nodes)"
proof -
  have "work_order (om_insert k m nodes)
    = work_order nodes \<union> (set_option (nd_parent m) \<union> set (nd_dependencies m)) \<times> {k}"
    using assms(2) by (auto simp: work_order_def split: if_splits)
  moreover have "acyclic \<dots>"
  proof (rule acyclicI, intro allI notI)
    let ?R = "work_order nodes"
    let ?S = "(set_option (nd_parent m) \<union> set (nd_dependencies m)) \<times> {k}"
    fix x assume cycle: "(x, x) \<in> (?R \<union> ?S)\<^sup>+"
    have sink: "(k, y) \<notin> ?R \<union> ?S" for y
      using assms(2,5) nodes_okD(3) [OF assms(1)]
      by (auto simp: work_order_def node_refs_def domI) (blast dest: domD)+
    have "(a, b) \<in> ?R\<^sup>+ \<or> b = k" if "(a, b) \<in> (?R \<union> ?S)\<^sup>+" for a b
      using that
    proof (induction rule: trancl_induct)
      case (step y z)
      then show ?case using sink by (auto intro: trancl_into_trancl)
    qed auto
    then have "(x, x) \<in> ?R\<^sup>+"
      using cycle sink by (metis tranclD)
    then show False
      using assms(1) by (auto simp: nodes_ok_def acyclic_def)
  qed
  ultimately have "acyclic (work_order (om_insert k m nodes))"
    by simp
  then show ?thesis
    using assms nodes_okD [OF assms(1)] by (auto simp: nodes_ok_def) blast+
qed


section \<open>Transitions keep the tree well formed\<close>

text \<open>What one transition does to a tree whose nodes are well formed.\<close>

definition fits :: "'s research_tree \<Rightarrow> nat \<Rightarrow> 's research_tree \<Rightarrow> bool" where
  "fits t steps u \<longleftrightarrow> nodes_ok (rt_nodes u) \<and> length (rt_nodes u) \<le> max_nodes (rt_limits u) \<and>
     rt_limits u = rt_limits t \<and> rt_identity u = rt_identity t \<and>
     rt_steps_used u = rt_steps_used t + steps \<and> rt_steps_used u \<le> max_steps (rt_limits u)"

lemmas node_ok_simps = node_ok_def good_refs_def

lemma length_insert_known:
  assumes "om_wf m" and "om_get m k = Some n"
  shows "length (om_insert k v m) = length m"
  using om.length_keys_put [OF assms(1), of k v] assms(2) by (auto simp: domI)

lemma length_insert_new:
  assumes "om_wf m" and "om_get m k = None"
  shows "length (om_insert k v m) = Suc (length m)"
proof -
  have "k \<notin> dom (om_get m)" using assms(2) by blast
  then show ?thesis using om.length_keys_put [OF assms(1), of k v] by simp
qed

lemma fits_update:
  assumes "fits t 0 t" and "om_get (rt_nodes t) k = Some n"
    and "nd_key m = nd_key n" and "nd_parent m = nd_parent n"
    and "nd_dependencies m = nd_dependencies n" and "node_ok m"
    and "set (nd_links m) \<subseteq> dom (om_get (rt_nodes t))"
  shows "fits t 0 (put_node k m t)"
proof -
  have ok: "nodes_ok (rt_nodes t)" using assms(1) by (simp add: fits_def)
  then have "om_wf (rt_nodes t)" by (simp add: nodes_ok_def)
  then have "length (om_insert k m (rt_nodes t)) = length (rt_nodes t)"
    by (rule length_insert_known) (rule assms(2))
  then show ?thesis
    using assms(1) nodes_ok_update [OF ok assms(2-7)] by (simp add: fits_def put_node_def)
qed

lemma fits_nodeD:
  assumes "fits t 0 t" and "om_get (rt_nodes t) k = Some n"
  shows "nd_key n = k" and "node_ok n" and "set (nd_links n) \<subseteq> dom (om_get (rt_nodes t))"
  using assms nodes_okD [of "rt_nodes t" k n] by (auto simp: fits_def node_refs_def)

lemma reassess_fits:
  assumes "reassess k es r a t = Inr (u, res)" and "fits t 0 t"
  shows "fits t 0 u"
proof -
  obtain n merged where n: "om_get (rt_nodes t) k = Some n" "nd_status n = Pending"
      "as_in_scope (nd_assessment n) = as_in_scope a"
      "merge_refs (nd_evidence_refs n) es = Inr merged"
      "check_text r 4096 ''rationale'' = Inr ()" "validate_assessment a = Inr ()"
    and u: "u = put_node k (n\<lparr>nd_evidence_refs := merged, nd_rationale := r,
      nd_assessment := a\<rparr>) t"
    using assms(1) by (auto simp: reassess_def get_node_def result_simps split: if_splits)
  have "distinct (nd_evidence_refs n)"
    using fits_nodeD(2) [OF assms(2) n(1)] by (simp add: node_ok_simps)
  then have "good_refs merged" "nd_evidence_refs n \<noteq> [] \<longrightarrow> merged \<noteq> []"
    using merge_refs_good [OF n(4)] by auto
  then show ?thesis
    unfolding u using fits_nodeD [OF assms(2) n(1)] n
    by (intro fits_update [OF assms(2) n(1)]) (auto simp: node_ok_simps)
qed

lemma start_node_fits:
  assumes "start_node rank k t = Inr (u, res)" and "fits t 0 t"
  shows "fits t 1 u"
proof -
  obtain n where n: "om_get (rt_nodes t) k = Some n" "node_ready t n"
      "rt_steps_used t < max_steps (rt_limits t)"
    and u: "u = (put_node k (n\<lparr>nd_status := Active\<rparr>) t)\<lparr>rt_steps_used := rt_steps_used t + 1\<rparr>"
    using assms(1) by (auto simp: start_node_def get_node_def result_simps split: if_splits)
  have "fits t 0 (put_node k (n\<lparr>nd_status := Active\<rparr>) t)"
    using fits_nodeD [OF assms(2) n(1)] n(2)
    by (intro fits_update [OF assms(2) n(1)]) (auto simp: node_ok_simps node_ready_def)
  then show ?thesis
    using n(3) by (simp add: u fits_def put_node_def)
qed

lemma record_outcome_fits:
  assumes "record_outcome k out es r t = Inr (u, res)" and "fits t 0 t"
  shows "fits t 0 u"
proof -
  obtain n merged where n: "om_get (rt_nodes t) k = Some n" "nd_status n = Active"
      "merge_refs (nd_evidence_refs n) es = Inr merged"
      "check_text r 4096 ''rationale'' = Inr ()" "out = Supports \<Longrightarrow> es \<noteq> []"
    and u: "u = put_node k (n\<lparr>nd_evidence_refs := merged, nd_rationale := r,
      nd_outcome := Some out, nd_status := outcome_status out\<rparr>) t"
    using assms(1) by (auto simp: record_outcome_def get_node_def result_simps split: if_splits)
  have "distinct (nd_evidence_refs n)"
    using fits_nodeD(2) [OF assms(2) n(1)] by (simp add: node_ok_simps)
  then have "good_refs merged" "out = Supports \<longrightarrow> merged \<noteq> []"
    using merge_refs_good [OF n(3)] n(5) by auto
  then show ?thesis
    unfolding u using fits_nodeD [OF assms(2) n(1)] n
    by (intro fits_update [OF assms(2) n(1)]) (cases out; auto simp: node_ok_simps)+
qed

lemma reopen_fits:
  assumes "reopen k es r t = Inr (u, res)" and "fits t 0 t"
  shows "fits t 0 u"
proof -
  obtain n merged where n: "om_get (rt_nodes t) k = Some n"
      "merge_refs (nd_evidence_refs n) es = Inr merged"
      "check_text r 4096 ''rationale'' = Inr ()"
    and u: "u = put_node k (n\<lparr>nd_evidence_refs := merged, nd_rationale := r,
      nd_outcome := None, nd_status := Pending\<rparr>) t"
    using assms(1) by (auto simp: reopen_def get_node_def result_simps split: if_splits)
  have "distinct (nd_evidence_refs n)"
    using fits_nodeD(2) [OF assms(2) n(1)] by (simp add: node_ok_simps)
  then have "good_refs merged"
    using merge_refs_good [OF n(2)] by auto
  then show ?thesis
    unfolding u using fits_nodeD [OF assms(2) n(1)] n
    by (intro fits_update [OF assms(2) n(1)]) (auto simp: node_ok_simps)
qed

lemma prune_fits:
  assumes "prune k r t = Inr (u, res)" and "fits t 0 t"
  shows "fits t 0 u"
proof -
  obtain n where n: "om_get (rt_nodes t) k = Some n" "nd_status n = Pending \<or> nd_status n = NBlocked"
      "check_text r 4096 ''rationale'' = Inr ()"
    and u: "u = put_node k (n\<lparr>nd_status := Pruned, nd_rationale := r\<rparr>) t"
    using assms(1) by (auto simp: prune_def get_node_def result_simps split: if_splits)
  show ?thesis
    unfolding u using fits_nodeD [OF assms(2) n(1)] n
    by (intro fits_update [OF assms(2) n(1)]) (auto simp: node_ok_simps)
qed

lemma proposal_refs_known:
  assumes "proposal_refs t k refs = Inr ()"
  shows "set refs \<subseteq> dom (om_get (rt_nodes t))"
  using assms by (auto simp: proposal_refs_def om_contains_def result_simps split: if_splits)

lemma merge_proposal_spec:
  assumes "merge_proposal p ls es n = Inr m" and "node_ok n"
  shows "node_ok m" and "nd_key m = nd_key n" and "nd_parent m = nd_parent n"
    and "nd_dependencies m = nd_dependencies n" and "nd_status m = nd_status n"
    and "set (nd_links m) \<subseteq> set (nd_links n) \<union> set ls \<union> set_option p"
proof -
  obtain l1 l2 ev where
    l1: "merge_refs (nd_links n) ls = Inr l1"
    and l2: "(case p of Some p \<Rightarrow> if nd_parent n \<noteq> Some p then merge_refs l1 [p] else Inr l1
       | None \<Rightarrow> Inr l1) = Inr l2"
    and ev: "merge_refs (nd_evidence_refs n) es = Inr ev"
    and m: "m = n\<lparr>nd_links := l2, nd_evidence_refs := ev\<rparr>"
    using assms(1) by (auto simp: merge_proposal_def result_simps)
  have good: "distinct (nd_links n)" "distinct (nd_evidence_refs n)"
    using assms(2) by (simp_all add: node_ok_simps)
  note l1' = merge_refs_good [OF l1 good(1)] and ev' = merge_refs_good [OF ev good(2)]
  have "good_refs l2 \<and> set l2 \<subseteq> set l1 \<union> set_option p"
    using l2 l1'(1) by (auto split: option.splits if_splits
        dest: merge_refs_good simp: good_refs_def)
  then show "node_ok m" and "set (nd_links m) \<subseteq> set (nd_links n) \<union> set ls \<union> set_option p"
    using assms(2) l1' ev' by (auto simp: m node_ok_def)
qed (use assms in \<open>auto simp: merge_proposal_def result_simps\<close>)


lemma propose_fits:
  assumes "propose k p ls ds es r a t = Inr (u, res)" and "fits t 0 t"
  shows "fits t 0 u"
proof -
  let ?norm = "sorted_list_of_set (set ds)"
  have checks: "check_text k 160 ''key'' = Inr ()" "check_text r 4096 ''rationale'' = Inr ()"
      "check_refs ds = Inr ()" "validate_assessment a = Inr ()"
      "proposal_refs t k ((case p of None \<Rightarrow> [] | Some p \<Rightarrow> [p]) @ ls @ ds) = Inr ()"
    using assms(1) by (auto simp: propose_def result_simps Let_def)
  have known: "set_option p \<union> set ls \<union> set ds \<subseteq> dom (om_get (rt_nodes t))"
    using proposal_refs_known [OF checks(5)] by (cases p) auto
  have few: "length ?norm \<le> max_references"
    using checks(3) length_sorted_list_of_set [of ds]
    by (auto simp: check_refs_def split: if_splits)
  show ?thesis
  proof (cases "om_get (rt_nodes t) k")
    case (Some n)
    then obtain m where m: "merge_proposal p ls es n = Inr m" and u: "u = put_node k m t"
      using assms(1) by (auto simp: propose_def result_simps Let_def split: if_splits)
    note spec = merge_proposal_spec [OF m fits_nodeD(2) [OF assms(2) Some]]
    show ?thesis
      unfolding u using fits_nodeD [OF assms(2) Some] spec known
      by (intro fits_update [OF assms(2) Some]) auto
  next
    case None
    then obtain l1 ev where l1: "merge_refs [] ls = Inr l1" and ev: "merge_refs [] es = Inr ev"
      and room: "length (rt_nodes t) < max_nodes (rt_limits t)"
      and u: "u = put_node k \<lparr>nd_key = k, nd_parent = p, nd_links = l1, nd_dependencies = ?norm,
         nd_evidence_refs = ev, nd_rationale = r, nd_assessment = a, nd_status = Pending,
         nd_outcome = None\<rparr> t"
      using assms(1) by (auto simp: propose_def result_simps Let_def split: if_splits)
    note good = merge_refs_good [OF l1] merge_refs_good [OF ev]
    have ok: "nodes_ok (rt_nodes t)" using assms(2) by (simp add: fits_def)
    then have wf: "om_wf (rt_nodes t)" by (simp add: nodes_ok_def)
    have "nodes_ok (rt_nodes u)"
      unfolding u put_node_def using known good few checks sorted_list_of_set_strict [of ds]
      by (auto intro!: nodes_ok_create [OF ok None] simp: node_ok_def node_refs_def)
    then show ?thesis
      using assms(2) room length_insert_new [OF wf None]
      by (simp add: fits_def u put_node_def)
  qed
qed

lemma transition_fits:
  assumes "tree_transition rank e t = Inr (u, res)" and "fits t 0 t"
  shows "fits t (starts [e]) u"
proof -
  have "starts [e] = (if is_started e then 1 else 0)" by (simp add: starts_def)
  then show ?thesis
    using assms
    by (cases e; auto simp: propose_fits reassess_fits record_outcome_fits
        reopen_fits prune_fits start_node_fits [unfolded One_nat_def])
qed

lemma starts_append [simp]: "starts (xs @ ys) = starts xs + starts ys"
  by (simp add: starts_def)

lemma tree_ok_fits: "tree_ok t \<Longrightarrow> fits (t\<lparr>rt_events := es\<rparr>) 0 (t\<lparr>rt_events := es\<rparr>)"
  by (simp add: tree_ok_def fits_def)

lemma tree_ok_apply:
  assumes "tree_ok t"
  shows "tree_ok (fst (tree_apply rank t e))"
proof (cases "tree_apply rank t e")
  case (Pair t' res)
  then show ?thesis
  proof (cases rule: apply_cases)
    case (refused err)
    then show ?thesis using assms Pair by simp
  next
    case (applied r staged)
    have "fits (t\<lparr>rt_events := []\<rparr>) (starts [e]) staged"
      using transition_fits [OF applied(3)] tree_ok_fits [OF assms] by blast
    then show ?thesis
      using applied(4,5) assms Pair by (auto simp: tree_ok_def fits_def active_count_def)
  qed
qed

lemma tree_ok_new:
  assumes "research_tree_new i l = Inr t"
  shows "tree_ok t"
  using assms
  by (auto simp: research_tree_new_def result_simps tree_ok_def nodes_ok_def work_order_def
      starts_def active_count_def acyclic_def max_events_def split: if_splits)

text \<open>A tree that was opened and then called, whatever the calls and their results.\<close>

definition tree_reachable :: "'s ranking \<Rightarrow> 's research_tree \<Rightarrow> bool" where
  "tree_reachable rank t \<longleftrightarrow>
     (\<exists>i l t0 es. research_tree_new i l = Inr t0 \<and> t = run_calls (tree_apply rank) t0 es)"

lemma reachable_ok: "tree_reachable rank t \<Longrightarrow> tree_ok t"
  unfolding tree_reachable_def
  using run_calls_inv [where I = tree_ok and f = "tree_apply rank"] tree_ok_new tree_ok_apply
  by blast

lemma replay_reachable:
  "tree_replay rank (tree_journal_of t) = Inr t \<longleftrightarrow> tree_reachable rank t"
proof
  have fold: "run_calls (tree_apply rank) t0 es = t'"
    if "fold_res (replay_step rank) t0 es = Inr t'" for t0 t' es
    using that
    by (induction es arbitrary: t0)
       (auto simp: result_simps replay_step_def split: prod.splits sum.splits)
  assume "tree_replay rank (tree_journal_of t) = Inr t"
  then show "tree_reachable rank t"
    unfolding tree_reachable_def
    by (auto simp: tree_replay_def tree_journal_of_def result_simps dest!: fold) metis
next
  assume "tree_reachable rank t"
  then obtain i l t0 es where new: "research_tree_new i l = Inr t0"
    and t: "t = run_calls (tree_apply rank) t0 es"
    by (auto simp: tree_reachable_def)
  have "tree_replay rank (tree_journal_of t0) = Inr t0"
    using new by (auto simp: tree_replay_def tree_journal_of_def research_tree_new_def
        result_simps split: if_splits)
  moreover have "admitted (\<lambda>t e. True) (tree_apply rank) c es" for c
    by (induction es arbitrary: c) auto
  ultimately show "tree_replay rank (tree_journal_of t) = Inr t"
    unfolding t by (rule tree.replay_calls)
qed

section \<open>Starting work\<close>

text \<open>
  The hints of the policy are node ids of the opportunities it was given.
\<close>

definition ranks_given :: "'s ranking \<Rightarrow> bool" where
  "ranks_given rank \<longleftrightarrow> (\<forall>os. set (rank os) \<subseteq> op_node_id ` set os)"

definition active_keys :: "'s research_tree \<Rightarrow> rstr list" where
  "active_keys t = map nd_key (filter (\<lambda>n. nd_status n = Active) (om_values (rt_nodes t)))"

lemma length_active_keys: "length (active_keys t) = active_count t"
  by (simp add: active_keys_def active_count_def)

lemma values_keys:
  assumes "nodes_ok nodes"
  shows "map nd_key (filter P (om_values nodes))
    = map fst (filter (\<lambda>(k, n). P n) nodes)"
proof -
  have "\<forall>(k, n)\<in>set nodes. nd_key n = k"
    using assms by (auto simp: nodes_ok_def dest: om_wf_distinct map_of_is_SomeI)
  then show ?thesis
    by (induction nodes) auto
qed

lemma active_keys_set:
  assumes "nodes_ok (rt_nodes t)"
  shows "distinct (active_keys t)"
    and "k \<in> set (active_keys t) \<longleftrightarrow>
      (\<exists>n. om_get (rt_nodes t) k = Some n \<and> nd_status n = Active)"
proof -
  have d: "distinct (om_keys (rt_nodes t))"
    using assms by (auto simp: nodes_ok_def om_wf_distinct)
  then show "distinct (active_keys t)"
    unfolding active_keys_def values_keys [OF assms] by (rule distinct_map_filter)
  show "k \<in> set (active_keys t) \<longleftrightarrow>
      (\<exists>n. om_get (rt_nodes t) k = Some n \<and> nd_status n = Active)"
    unfolding active_keys_def values_keys [OF assms]
    using d by (force intro: map_of_is_SomeI dest: map_of_SomeD)
qed

lemma active_count_card:
  assumes "nodes_ok (rt_nodes t)"
  shows "active_count t =
    card {k. \<exists>n. om_get (rt_nodes t) k = Some n \<and> nd_status n = Active}"
proof -
  have "{k. \<exists>n. om_get (rt_nodes t) k = Some n \<and> nd_status n = Active} = set (active_keys t)"
    using active_keys_set(2) [OF assms] by blast
  then show ?thesis
    using distinct_card [OF active_keys_set(1) [OF assms]] length_active_keys [of t] by simp
qed

text \<open>What starting a node does to the number of active nodes.\<close>

lemma active_count_started:
  assumes "nodes_ok (rt_nodes t)" and "om_get (rt_nodes t) k = Some n" and "nd_status n = Pending"
    and "nodes_ok (om_insert k (n\<lparr>nd_status := Active\<rparr>) (rt_nodes t))"
    and "rt_nodes u = om_insert k (n\<lparr>nd_status := Active\<rparr>) (rt_nodes t)"
  shows "active_count u = Suc (active_count t)"
proof -
  let ?A = "\<lambda>t. {k. \<exists>n. om_get (rt_nodes t) k = Some n \<and> nd_status n = Active}"
  have "?A u = insert k (?A t)" "k \<notin> ?A t"
    using assms(2,3,5) by auto
  moreover have "finite (?A t)"
    by (rule finite_subset [OF _ finite_dom_map_of [of "rt_nodes t"]]) blast
  ultimately show ?thesis
    using assms(1,4,5) by (simp add: active_count_card)
qed

lemma ranked_hint:
  assumes "ranks_given rank" and "nodes_ok (rt_nodes t)" and "h \<in> set (ranked rank t)"
  obtains n where "om_get (rt_nodes t) h = Some n" and "node_ready t n"
    and "rt_steps_used t < max_steps (rt_limits t)"
    and "length (rt_events t) + active_count t + 2 \<le> max_events"
proof -
  let ?os = "map opportunity_of (filter (node_ready t) (om_values (rt_nodes t)))"
  have given: "h \<in> set (rank ?os)" and room: "rt_steps_used t < max_steps (rt_limits t)"
      "length (rt_events t) + active_count t + 2 \<le> max_events"
    using assms(3) by (simp_all add: ranked_def not_less not_le split: if_splits)
  have "set (rank ?os) \<subseteq> op_node_id ` set ?os"
    using assms(1) unfolding ranks_given_def by (rule spec)
  then have "h \<in> op_node_id ` set ?os"
    using given by (rule subsetD)
  then have "h \<in> set (map nd_key (filter (node_ready t) (om_values (rt_nodes t))))"
    by (force simp: opportunity_of_def Let_def)
  then have "\<exists>n. (h, n) \<in> set (rt_nodes t) \<and> node_ready t n"
    unfolding values_keys [OF assms(2)] by auto
  then show thesis
    using that room assms(2) by (auto simp: nodes_ok_def dest: om_wf_distinct map_of_is_SomeI)
qed

lemma ranked_staged:
  "rt_steps_used t < max_steps (rt_limits t) \<Longrightarrow>
   length (rt_events t) + active_count t + 2 \<le> max_events \<Longrightarrow>
   ranked rank (t\<lparr>rt_events := []\<rparr>) = ranked rank t"
  by (simp add: ranked_def active_count_def node_ready_def [abs_def])


text \<open>
  \<open>apply\<close> accepts a start exactly when it names the first hint of \<open>ranked\<close>, although the
  transition itself ranks a copy of the tree whose journal is empty.
\<close>

lemma start_ready:
  assumes "tree_ok t" and "ranks_given rank" and "ranked rank t = k # hs"
  obtains n where "om_get (rt_nodes t) k = Some n" and "node_ready t n"
    and "tree_apply rank t (Started k) =
      (t\<lparr>rt_nodes := om_insert k (n\<lparr>nd_status := Active\<rparr>) (rt_nodes t),
         rt_steps_used := rt_steps_used t + 1, rt_events := rt_events t @ [Started k]\<rparr>,
       Inr (NodeUpdated k))"
proof -
  have ok: "nodes_ok (rt_nodes t)" using assms(1) by (simp add: tree_ok_def)
  obtain n where n: "om_get (rt_nodes t) k = Some n" "node_ready t n"
    and room: "rt_steps_used t < max_steps (rt_limits t)"
      "length (rt_events t) + active_count t + 2 \<le> max_events"
    using ranked_hint [OF assms(2) ok, of k] assms(3) by auto
  let ?s = "t\<lparr>rt_events := []\<rparr>"
  let ?u = "(put_node k (n\<lparr>nd_status := Active\<rparr>) ?s)\<lparr>rt_steps_used := rt_steps_used t + 1\<rparr>"
  have "node_ready ?s n" using n(2) by (simp add: node_ready_def)
  then have step: "start_node rank k ?s = Inr (?u, NodeUpdated k)"
    using n(1) room ranked_staged [OF room, of rank] assms(3)
    by (simp add: start_node_def get_node_def ok_or_def)
  have "fits ?s 1 ?u"
    using start_node_fits [OF step tree_ok_fits [OF assms(1)]] .
  then have "nodes_ok (rt_nodes ?u)" by (simp add: fits_def)
  then have "active_count ?u = Suc (active_count t)"
    using n ok by (intro active_count_started [of t k n]) (simp_all add: put_node_def node_ready_def)
  then have "tree_apply rank t (Started k) =
      (t\<lparr>rt_nodes := om_insert k (n\<lparr>nd_status := Active\<rparr>) (rt_nodes t),
         rt_steps_used := rt_steps_used t + 1, rt_events := rt_events t @ [Started k]\<rparr>,
       Inr (NodeUpdated k))"
    using room step by (simp add: tree_apply_def put_node_def)
  with n that show thesis by blast
qed

lemma started_first:
  assumes "tree_ok t" and "tree_apply rank t (Started k) = (t', Inr res)"
  shows "\<exists>hs. ranked rank t = k # hs"
  using assms(2)
proof (cases rule: apply_cases)
  case (applied r staged)
  let ?s = "t\<lparr>rt_events := []\<rparr>"
  have step: "start_node rank k ?s = Inr (staged, r)"
    using applied(3) by simp
  then obtain n hs where n: "om_get (rt_nodes t) k = Some n" "node_ready ?s n"
    and steps: "rt_steps_used t < max_steps (rt_limits t)"
    and first: "ranked rank ?s = k # hs"
    and staged: "staged = (put_node k (n\<lparr>nd_status := Active\<rparr>) ?s)
      \<lparr>rt_steps_used := rt_steps_used t + 1\<rparr>"
    by (auto simp: start_node_def get_node_def result_simps split: if_splits list.splits)
  have "fits ?s 1 staged"
    using start_node_fits [OF step tree_ok_fits [OF assms(1)]] .
  then have "active_count staged = Suc (active_count t)"
    using n assms(1)
    by (intro active_count_started [of t k n])
       (simp_all add: put_node_def node_ready_def tree_ok_def fits_def staged)
  then have "length (rt_events t) + active_count t + 2 \<le> max_events"
    using applied(4) by simp
  then show ?thesis
    using ranked_staged [OF steps] first by metis
qed simp

section \<open>Recording outcomes\<close>

lemma merge_refs_nil:
  assumes "good_refs vs"
  shows "merge_refs vs [] = Inr vs"
  using assms by (simp add: merge_refs_def good_refs_def)

lemma record_active:
  assumes "tree_ok t" and "om_get (rt_nodes t) k = Some n" and "nd_status n = Active"
    and "check_text r 4096 ''rationale'' = Inr ()" and "out \<noteq> Supports"
  shows "\<exists>t'. tree_apply rank t (Recorded k out [] r) = (t', Inr (NodeUpdated k)) \<and>
    set (active_keys t') = set (active_keys t) - {k}"
proof -
  have ok: "nodes_ok (rt_nodes t)" using assms(1) by (simp add: tree_ok_def)
  let ?s = "t\<lparr>rt_events := []\<rparr>"
  let ?m = "n\<lparr>nd_rationale := r, nd_outcome := Some out, nd_status := outcome_status out\<rparr>"
  have "good_refs (nd_evidence_refs n)"
    using nodes_okD(2) [OF ok assms(2)] by (simp add: node_ok_def)
  then have step: "record_outcome k out [] r ?s = Inr (put_node k ?m ?s, NodeUpdated k)"
    using assms(2-5) by (simp add: record_outcome_def get_node_def ok_or_def check_refs_def
        merge_refs_nil)
  have "fits ?s 0 (put_node k ?m ?s)"
    using record_outcome_fits [OF step tree_ok_fits [OF assms(1)]] .
  then have ok': "nodes_ok (rt_nodes (put_node k ?m ?s))" by (simp add: fits_def)
  have "outcome_status out \<noteq> Active" by (cases out) auto
  then have "x \<in> set (active_keys (put_node k ?m ?s)) \<longleftrightarrow> x \<in> set (active_keys t) - {k}" for x
    using active_keys_set(2) [OF ok, of x] active_keys_set(2) [OF ok', of x]
    by (cases "x = k") (simp_all add: put_node_def)
  then have keys: "set (active_keys (put_node k ?m ?s)) = set (active_keys t) - {k}"
    by blast
  then have "active_count (put_node k ?m ?s) + 1 = active_count t"
    using distinct_card [OF active_keys_set(1) [OF ok]]
      distinct_card [OF active_keys_set(1) [OF ok']] active_keys_set(2) [OF ok, of k] assms(2,3)
    by (simp add: length_active_keys) (metis One_nat_def Suc_pred card_gt_0_iff List.finite_set
        empty_iff)
  moreover have "active_count t \<le> max_events - length (rt_events t)"
      "length (rt_events t) + active_count t \<le> max_events"
    using assms(1) by (auto simp: tree_ok_def)
  ultimately have "length (rt_events t) < max_events"
      "length (rt_events t) + 1 + active_count (put_node k ?m ?s) \<le> max_events"
    by linarith+
  then show ?thesis
    using step keys by (simp add: tree_apply_def active_keys_def)
qed


lemma drain_active:
  assumes "tree_ok t" and "check_text r 4096 ''rationale'' = Inr ()" and "out \<noteq> Supports"
    and "distinct ks" and "set ks = set (active_keys t)"
  shows "active_count (run_calls (tree_apply rank) t (map (\<lambda>k. Recorded k out [] r) ks)) = 0 \<and>
    rt_events (run_calls (tree_apply rank) t (map (\<lambda>k. Recorded k out [] r) ks))
      = rt_events t @ map (\<lambda>k. Recorded k out [] r) ks"
  using assms(1,4,5)
proof (induction ks arbitrary: t)
  case Nil
  then show ?case by (simp flip: length_active_keys)
next
  case (Cons k ks)
  have "k \<in> set (active_keys t)" using Cons.prems(3) by auto
  then obtain n where n: "om_get (rt_nodes t) k = Some n" "nd_status n = Active"
    using Cons.prems(1) active_keys_set(2) [of t k] by (auto simp: tree_ok_def)
  obtain t' where t': "tree_apply rank t (Recorded k out [] r) = (t', Inr (NodeUpdated k))"
    and keys: "set (active_keys t') = set (active_keys t) - {k}"
    using record_active [OF Cons.prems(1) n assms(2,3), of rank] by blast
  have "tree_ok t'"
    using tree_ok_apply [OF Cons.prems(1), of rank "Recorded k out [] r"] t' by simp
  moreover have "set ks = set (active_keys t')"
    using keys Cons.prems(2,3) by auto
  moreover have "rt_events t' = rt_events t @ [Recorded k out [] r]"
    using t' by (cases rule: apply_cases) auto
  ultimately show ?case
    using Cons.IH [of t'] Cons.prems(2) t' by simp
qed

section \<open>What the context holds\<close>

definition ref_rel :: "(rstr, 's node) omap \<Rightarrow> (rstr \<times> rstr) set" where
  "ref_rel nodes = {(a, b). \<exists>n. om_get nodes a = Some n \<and> b \<in> node_refs n}"

definition context_ok ::
    "(rstr, 's node) omap \<Rightarrow> rstr \<Rightarrow> nat \<Rightarrow> 's node list \<Rightarrow> bool" where
  "context_ok nodes key limit ctx \<longleftrightarrow>
     distinct (map nd_key ctx) \<and> length ctx \<le> limit \<and>
     (\<forall>n\<in>set ctx. om_get nodes (nd_key n) = Some n \<and> (key, nd_key n) \<in> (ref_rel nodes)\<^sup>*)"

lemma set_node_links [simp]: "set (node_links n) = node_refs n"
  by (auto simp: node_links_def node_refs_def split: option.splits)

lemma context_ok_snoc:
  assumes "context_ok nodes key limit ctx" and "nodes_ok nodes" and "om_get nodes k = Some n"
    and "k \<notin> nd_key ` set ctx" and "length ctx < limit" and "(key, k) \<in> (ref_rel nodes)\<^sup>*"
  shows "context_ok nodes key limit (ctx @ [n])"
  using assms nodes_okD(1) [OF assms(2,3)] by (auto simp: context_ok_def)

lemma ancestors_spec:
  assumes "nodes_ok nodes" and "context_ok nodes key limit ctx" and "seen = nd_key ` set ctx"
    and "successively (\<lambda>a b. nd_parent a = Some (nd_key b)) ctx"
    and "\<forall>n\<in>set ctx. (nd_key (last ctx), nd_key n) \<in> (work_order nodes)\<^sup>*"
    and "ctx = [] \<Longrightarrow> ancestor = Some key" and "ctx \<noteq> [] \<Longrightarrow> nd_parent (last ctx) = ancestor"
    and "set_option ancestor \<subseteq> dom (om_get nodes)" and "0 < limit"
    and "ctx \<noteq> [] \<Longrightarrow> nd_key (hd ctx) = key"
  shows "\<exists>seen' ctx'. context_ancestors nodes limit ancestor seen ctx = Some (seen', ctx') \<and>
    context_ok nodes key limit ctx' \<and> prefix ctx ctx' \<and> ctx' \<noteq> [] \<and> nd_key (hd ctx') = key \<and>
    successively (\<lambda>a b. nd_parent a = Some (nd_key b)) ctx' \<and>
    (length ctx' = limit \<or> nd_parent (last ctx') = None \<and> seen' = nd_key ` set ctx')"
  using assms
proof (induction nodes limit ancestor seen ctx rule: context_ancestors.induct)
  case (1 nodes limit ancestor seen ctx)
  note ok = 1(2) and ctx = 1(3) and seen = 1(4) and succ = 1(5) and path = 1(6)
  note unfold = context_ancestors.simps [of nodes limit ancestor seen ctx]
  show ?case
  proof (cases ancestor)
    case None
    then have "ctx \<noteq> []" and "nd_parent (last ctx) = None" using 1(7,8) by auto
    with None show ?thesis using unfold ctx seen succ 1(11) by auto
  next
    case (Some k)
    then obtain n where n: "om_get nodes k = Some n"
      using 1(9) by auto
    have last: "ctx \<noteq> [] \<Longrightarrow> om_get nodes (nd_key (last ctx)) = Some (last ctx)"
      using ctx by (simp add: context_ok_def)
    have edge: "ctx \<noteq> [] \<Longrightarrow> (k, nd_key (last ctx)) \<in> work_order nodes"
      using last 1(8) Some by (auto simp: work_order_def)
    have fresh: "k \<notin> seen"
    proof
      assume "k \<in> seen"
      then have "ctx \<noteq> []" "(nd_key (last ctx), k) \<in> (work_order nodes)\<^sup>*"
        using seen path by auto
      then have "(k, k) \<in> (work_order nodes)\<^sup>+"
        using edge by (metis rtrancl_into_trancl2)
      then show False using ok by (auto simp: nodes_ok_def acyclic_def)
    qed
    show ?thesis
    proof (cases "length ctx = limit")
      case True
      then show ?thesis using unfold Some ctx succ 1(10,11) by auto
    next
      case False
      then have room: "length ctx < limit" using ctx by (simp add: context_ok_def)
      have reach: "(key, k) \<in> (ref_rel nodes)\<^sup>*"
      proof (cases "ctx = []")
        case True
        then show ?thesis using 1(7) Some by simp
      next
        case False
        then have "(key, nd_key (last ctx)) \<in> (ref_rel nodes)\<^sup>*"
          "(nd_key (last ctx), k) \<in> ref_rel nodes"
          using ctx last 1(8) Some by (auto simp: context_ok_def ref_rel_def node_refs_def)
        then show ?thesis by (rule rtrancl_into_rtrancl)
      qed
      have key: "nd_key n = k" using nodes_okD(1) [OF ok n] .
      have "context_ok nodes key limit (ctx @ [n])"
        using context_ok_snoc [OF ctx ok n _ room reach] fresh seen by blast
      moreover have "successively (\<lambda>a b. nd_parent a = Some (nd_key b)) (ctx @ [n])"
        using succ 1(8) Some key by (auto simp: successively_append_iff)
      moreover have "\<forall>m\<in>set (ctx @ [n]). (nd_key (last (ctx @ [n])), nd_key m) \<in> (work_order nodes)\<^sup>*"
      proof
        fix m assume m: "m \<in> set (ctx @ [n])"
        show "(nd_key (last (ctx @ [n])), nd_key m) \<in> (work_order nodes)\<^sup>*"
        proof (cases "m \<in> set ctx")
          case True
          then have "ctx \<noteq> []" by auto
          then have "(k, nd_key (last ctx)) \<in> work_order nodes" by (rule edge)
          moreover have "(nd_key (last ctx), nd_key m) \<in> (work_order nodes)\<^sup>*"
            using True path by blast
          ultimately show ?thesis using key by (simp add: converse_rtrancl_into_rtrancl)
        qed (use m in simp)
      qed
      moreover have "set_option (nd_parent n) \<subseteq> dom (om_get nodes)"
        using nodes_okD(3) [OF ok n] by (auto simp: node_refs_def)
      moreover have first: "nd_key (hd (ctx @ [n])) = key"
        using key 1(7,11) Some by (cases ctx) auto
      ultimately have "\<exists>seen' ctx'. context_ancestors nodes limit (nd_parent n) (insert k seen) (ctx @ [n])
          = Some (seen', ctx') \<and>
        context_ok nodes key limit ctx' \<and> prefix (ctx @ [n]) ctx' \<and> ctx' \<noteq> [] \<and>
        nd_key (hd ctx') = key \<and>
        successively (\<lambda>a b. nd_parent a = Some (nd_key b)) ctx' \<and>
        (length ctx' = limit \<or> nd_parent (last ctx') = None \<and> seen' = nd_key ` set ctx')"
        using 1(1) [OF Some _ n] fresh False ok seen key first 1(10) by simp
      then show ?thesis
        using unfold Some fresh False n by (auto dest: append_prefixD)
    qed
  qed
qed

lemma visit_spec:
  assumes "nodes_ok nodes" and "context_ok nodes key limit ctx" and "seen = nd_key ` set ctx"
    and "length ctx < limit" and "\<forall>k\<in>set keys. k \<in> dom (om_get nodes) \<and> (key, k) \<in> (ref_rel nodes)\<^sup>*"
  shows "\<exists>seen' ctx'. context_visit nodes limit keys seen ctx = Some (seen', ctx') \<and>
    context_ok nodes key limit ctx' \<and> prefix ctx ctx' \<and> seen' = nd_key ` set ctx' \<and>
    (length ctx' = limit \<or> set keys \<subseteq> seen')"
  using assms
proof (induction nodes limit keys seen ctx rule: context_visit.induct)
  case (1 nodes limit seen ctx)
  then show ?case by auto
next
  case (2 nodes limit k keys seen ctx)
  show ?case
  proof (cases "k \<in> seen")
    case True
    then obtain seen' ctx' where *: "context_visit nodes limit keys seen ctx = Some (seen', ctx')"
      "context_ok nodes key limit ctx'" "prefix ctx ctx'" "seen' = nd_key ` set ctx'"
      "length ctx' = limit \<or> set keys \<subseteq> seen'"
      using 2 by auto
    then have "k \<in> seen'" using True 2(5) by (auto dest: set_mono_prefix)
    with * True show ?thesis by auto
  next
    case False
    obtain n where n: "om_get nodes k = Some n" using 2 by auto
    have key: "nd_key n = k" using nodes_okD(1) [OF 2(3) n] .
    have snoc: "context_ok nodes key limit (ctx @ [n])"
      using context_ok_snoc [OF 2(4) 2(3) n] False 2(5-7) by simp
    show ?thesis
    proof (cases "length ctx + 1 = limit")
      case True
      then show ?thesis using False n snoc key 2(5) by auto
    next
      case more: False
      then obtain seen' ctx' where
        *: "context_visit nodes limit keys (insert k seen) (ctx @ [n]) = Some (seen', ctx')"
        "context_ok nodes key limit ctx'" "prefix (ctx @ [n]) ctx'" "seen' = nd_key ` set ctx'"
        "length ctx' = limit \<or> set keys \<subseteq> seen'"
        using 2(2) [OF False n] snoc 2(3,5-7) key by auto
      then have "k \<in> seen'" using key by (auto dest: set_mono_prefix)
      with * False n more show ?thesis by (auto dest: append_prefixD)
    qed
  qed
qed


lemma cursor_spec:
  assumes "nodes_ok nodes" and "context_ok nodes key limit ctx"
    and "length ctx = limit \<or> seen = nd_key ` set ctx"
    and "\<forall>i<cursor. i < length ctx \<longrightarrow> node_refs (ctx ! i) \<subseteq> nd_key ` set ctx"
  shows "\<exists>ctx'. context_cursor nodes limit cursor seen ctx = Some ctx' \<and>
    context_ok nodes key limit ctx' \<and> prefix ctx ctx' \<and>
    (length ctx' = limit \<or> (\<forall>n\<in>set ctx'. node_refs n \<subseteq> nd_key ` set ctx'))"
  using assms
proof (induction nodes limit cursor seen ctx rule: context_cursor.induct)
  case (1 nodes limit cursor seen ctx)
  note unfold = context_cursor.simps [of nodes limit cursor seen ctx]
  show ?case
  proof (cases "cursor < length ctx \<and> length ctx < limit")
    case False
    have "node_refs n \<subseteq> nd_key ` set ctx" if "length ctx \<noteq> limit" and "n \<in> set ctx" for n
    proof -
      have "length ctx \<le> cursor" using False that(1) 1(3) by (auto simp: context_ok_def)
      then show ?thesis
        using 1(5) that(2) by (metis in_set_conv_nth order_less_le_trans)
    qed
    then show ?thesis using unfold False 1(3) by auto
  next
    case True
    let ?n = "ctx ! cursor"
    have n: "om_get nodes (nd_key ?n) = Some ?n" "(key, nd_key ?n) \<in> (ref_rel nodes)\<^sup>*"
      using True 1(3) by (auto simp: context_ok_def)
    have "k \<in> dom (om_get nodes) \<and> (key, k) \<in> (ref_rel nodes)\<^sup>*" if "k \<in> node_refs ?n" for k
    proof -
      have "(nd_key ?n, k) \<in> ref_rel nodes" using n(1) that by (auto simp: ref_rel_def)
      then show ?thesis using n(2) nodes_okD(3) [OF 1(2) n(1)] that by (auto intro: rtrancl_into_rtrancl)
    qed
    then obtain seen' ctx' where visit:
        "context_visit nodes limit (node_links ?n) seen ctx = Some (seen', ctx')"
        "context_ok nodes key limit ctx'" "prefix ctx ctx'" "seen' = nd_key ` set ctx'"
        "length ctx' = limit \<or> node_refs ?n \<subseteq> seen'"
      using visit_spec [OF 1(2,3), of seen "node_links ?n"] 1(4) True by auto
    have "node_refs (ctx' ! i) \<subseteq> nd_key ` set ctx'"
      if "length ctx' \<noteq> limit" and "i < cursor + 1" for i
    proof -
      have same: "ctx' ! i = ctx ! i" using visit(3) that(2) True by (auto simp: prefix_def nth_append)
      have "set ctx \<subseteq> set ctx'" using visit(3) by (rule set_mono_prefix)
      moreover have "node_refs (ctx ! i) \<subseteq> nd_key ` set ctx \<union> nd_key ` set ctx'"
      proof (cases "i = cursor")
        case True
        then show ?thesis using visit(4,5) that by auto
      next
        case False
        then have "i < cursor" "i < length ctx" using that(2) True by auto
        then show ?thesis using 1(5) by blast
      qed
      ultimately show ?thesis unfolding same by blast
    qed
    note prefixes = this
    show ?thesis
    proof (cases "length ctx' = limit")
      case full: True
      then have "context_cursor nodes limit (cursor + 1) seen' ctx' = Some ctx'"
        by (simp add: context_cursor.simps)
      then show ?thesis using unfold True visit full by auto
    next
      case False
      then have "\<exists>ctx''. context_cursor nodes limit (cursor + 1) seen' ctx' = Some ctx'' \<and>
        context_ok nodes key limit ctx'' \<and> prefix ctx' ctx'' \<and>
        (length ctx'' = limit \<or> (\<forall>n\<in>set ctx''. node_refs n \<subseteq> nd_key ` set ctx''))"
        using 1(1) [OF True visit(1) refl] 1(2) visit(2,4) prefixes by blast
      then show ?thesis using unfold True visit(1,3) by (auto intro: prefix_order.trans)
    qed
  qed
qed

lemma tree_context_spec:
  assumes "nodes_ok (rt_nodes t)" and "1 \<le> limit" and "limit \<le> 32"
    and "om_contains (rt_nodes t) key"
  shows "\<exists>chain rest. tree_context t key limit = Some (Inr (chain @ rest)) \<and>
    context_ok (rt_nodes t) key limit (chain @ rest) \<and>
    chain \<noteq> [] \<and> nd_key (hd chain) = key \<and>
    successively (\<lambda>a b. nd_parent a = Some (nd_key b)) chain \<and>
    (length chain = limit \<or> nd_parent (last chain) = None) \<and>
    (length (chain @ rest) = limit \<or>
      (\<forall>n\<in>set (chain @ rest). node_refs n \<subseteq> nd_key ` set (chain @ rest)))"
proof -
  let ?nodes = "rt_nodes t"
  have "context_ok ?nodes key limit []" by (simp add: context_ok_def)
  then obtain seen chain where
    chain: "context_ancestors ?nodes limit (Some key) {} [] = Some (seen, chain)"
      "context_ok ?nodes key limit chain" "chain \<noteq> []" "nd_key (hd chain) = key"
      "successively (\<lambda>a b. nd_parent a = Some (nd_key b)) chain"
      "length chain = limit \<or> nd_parent (last chain) = None \<and> seen = nd_key ` set chain"
    using ancestors_spec [OF assms(1), of key limit "[]" "{}" "Some key"] assms(2,4)
    by (auto simp: om_contains_def)
  obtain ctx where ctx: "context_cursor ?nodes limit 0 seen chain = Some ctx"
      "context_ok ?nodes key limit ctx" "prefix chain ctx"
      "length ctx = limit \<or> (\<forall>n\<in>set ctx. node_refs n \<subseteq> nd_key ` set ctx)"
    using cursor_spec [OF assms(1) chain(2), of seen 0] chain(6) by auto
  obtain rest where rest: "ctx = chain @ rest" using ctx(3) by (auto simp: prefix_def)
  have "tree_context t key limit = Some (Inr (chain @ rest))"
    using assms(2-4) chain(1) ctx(1) rest by (simp add: tree_context_def)
  then show ?thesis
    using chain ctx(2,4) rest by blast
qed


section \<open>An example\<close>

definition tree_example_rank :: "unit ranking" where
  "tree_example_rank = map op_node_id"

definition tree_example_assessment :: "unit assessment" where
  "tree_example_assessment = \<lparr>as_surface = (), as_in_scope = True, as_requires_validation = False,
     as_priority = Fin (1 / 2), as_novelty = Fin 0, as_confidence = Fin 1, as_impact = Fin 1\<rparr>"

definition tree_example_events :: "unit tree_event list" where
  "tree_example_events =
     [Proposed ''a'' None [] [] [''note''] ''look'' tree_example_assessment,
      Proposed ''b'' (Some ''a'') [] [''a''] [] ''then'' tree_example_assessment,
      Started ''b'', Started ''a'', Recorded ''a'' Supports [''log''] ''seen'', Started ''b'',
      Proposed ''c'' None [''b''] [] [] ''beside'' tree_example_assessment]"

definition tree_example_empty :: "unit research_tree" where
  "tree_example_empty = \<lparr>rt_identity = \<lparr>scope_id = ''scope'', source_id = ''source''\<rparr>,
     rt_limits = \<lparr>max_nodes = 4, max_steps = 3\<rparr>, rt_nodes = [], rt_events = [],
     rt_steps_used = 0\<rparr>"

definition tree_example :: "unit research_tree" where
  "tree_example = run_calls (tree_apply tree_example_rank) tree_example_empty tree_example_events"

lemma tree_example_new: "research_tree_new (rt_identity tree_example_empty) (rt_limits tree_example_empty)
    = Inr tree_example_empty"
  by code_simp

lemma tree_example_reachable: "tree_reachable tree_example_rank tree_example"
  unfolding tree_reachable_def tree_example_def using tree_example_new by blast

lemma tree_example_ranks_given: "ranks_given tree_example_rank"
  by (auto simp: ranks_given_def tree_example_rank_def)


section \<open>Properties\<close>

text \<open>
  C18. Every node of a reachable tree is well typed. It is stored under its own key; key and
  rationale are within their bounds, links and evidence are distinct and at most 64, the
  scores lie in the unit interval; the outcome is one its status allows and support is
  asserted with evidence; active work is in scope; everything it refers to is in the tree,
  and parents and dependencies never form a cycle.
\<close>

theorem tree_nodes_typed:
  assumes "tree_reachable rank t"
  shows "acyclic (work_order (rt_nodes t)) \<and>
    (\<forall>k n. om_get (rt_nodes t) k = Some n \<longrightarrow>
       nd_key n = k \<and> node_ok n \<and> node_refs n \<subseteq> dom (om_get (rt_nodes t)))"
  using reachable_ok [OF assms] by (simp add: tree_ok_def nodes_ok_def)

theorem tree_nodes_typed_witness:
  "acyclic (work_order (rt_nodes tree_example)) \<and>
   node_ok (the (om_get (rt_nodes tree_example) ''b''))"
proof -
  have "om_get (rt_nodes tree_example) ''b'' \<noteq> None" by code_simp
  then show ?thesis using tree_nodes_typed [OF tree_example_reachable] by auto
qed

text \<open>
  The bounds of a reachable tree: at most \<open>max_nodes\<close> nodes, one step charged for each start
  in the journal and never more than \<open>max_steps\<close>, and a journal that with one slot for each
  active node fits in 4096 events.
\<close>

lemma tree_stays_bounded:
  assumes "tree_reachable rank t"
  shows "length (rt_nodes t) \<le> max_nodes (rt_limits t) \<and>
    rt_steps_used t = starts (rt_events t) \<and> rt_steps_used t \<le> max_steps (rt_limits t) \<and>
    length (rt_events t) + active_count t \<le> max_events"
  using reachable_ok [OF assms] by (simp add: tree_ok_def)

lemma tree_stays_bounded_witness:
  "starts (rt_events tree_example) = 2 \<and> rt_steps_used tree_example = 2 \<and>
   active_count tree_example = 1 \<and> length (rt_events tree_example) + 1 \<le> max_events"
proof -
  have "starts (rt_events tree_example) = 2" "active_count tree_example = 1" by code_simp+
  then show ?thesis using tree_stays_bounded [OF tree_example_reachable] by simp
qed

text \<open>
  C19. Active work can always be finished. However full the journal of a reachable tree and
  however exhausted its steps, recording an outcome that needs no evidence for each active
  node, one after the other, is accepted every time and leaves nothing active.
\<close>

theorem active_work_can_finish:
  assumes "tree_reachable rank t" and "check_text r 4096 ''rationale'' = Inr ()"
    and "out \<noteq> Supports"
  shows "let es = map (\<lambda>k. Recorded k out [] r) (active_keys t);
             t' = run_calls (tree_apply rank) t es
         in active_count t' = 0 \<and> rt_events t' = rt_events t @ es"
proof -
  have ok: "tree_ok t" using reachable_ok [OF assms(1)] .
  then have "distinct (active_keys t)"
    by (simp add: tree_ok_def active_keys_set(1))
  then show ?thesis
    using drain_active [OF ok assms(2,3), of "active_keys t" rank] by (simp add: Let_def)
qed

theorem active_work_can_finish_witness:
  "rt_events (run_calls (tree_apply tree_example_rank) tree_example [Recorded ''b'' Refutes [] ''no''])
     = rt_events tree_example @ [Recorded ''b'' Refutes [] ''no'']"
proof -
  have "active_keys tree_example = [''b'']" by code_simp
  moreover have "check_text ''no'' 4096 ''rationale'' = Inr ()" by code_simp
  ultimately show ?thesis
    using active_work_can_finish [OF tree_example_reachable, of "''no''" Refutes] by (simp add: Let_def)
qed

text \<open>
  C20. The journal is the tree: replaying the journal of a tree gives back that tree exactly
  when the tree can be reached from a new one by calls of \<open>apply\<close>, refused calls included.
\<close>

theorem journal_replays_tree:
  "tree_replay rank (tree_journal_of t) = Inr t \<longleftrightarrow> tree_reachable rank t"
  by (rule replay_reachable)

text \<open>
  C21. Selection and replay agree. \<open>select\<close> picks a node exactly when \<open>apply\<close> accepts a start of
  that node, with the same tree afterwards, provided the policy hands out node ids it was
  given: no other start is ever accepted, and \<open>select\<close> does not pick what \<open>apply\<close> refuses.
\<close>

theorem select_equals_accepted_start:
  assumes "tree_reachable rank t" and "ranks_given rank"
  shows "tree_apply rank t (Started k) = (t', Inr (NodeUpdated k)) \<longleftrightarrow>
    (\<exists>n. select_node rank t = (t', Inr (Some n)) \<and> nd_key n = k)"
proof -
  have ok: "tree_ok t" using reachable_ok [OF assms(1)] .
  have select: "select_node rank t = (u, Inr (Some (n\<lparr>nd_status := Active\<rparr>))) \<and> nd_key n = h"
    if "ranked rank t = h # hs" and "om_get (rt_nodes t) h = Some n"
      and "tree_apply rank t (Started h) = (u, Inr (NodeUpdated h))"
      and "rt_nodes u = om_insert h (n\<lparr>nd_status := Active\<rparr>) (rt_nodes t)" for h hs n u
    using that nodes_okD(1) [of "rt_nodes t" h n] ok
    by (auto simp: select_node_def ranked_def tree_ok_def split: if_splits)
  show ?thesis
  proof
    assume start: "tree_apply rank t (Started k) = (t', Inr (NodeUpdated k))"
    then obtain hs where first: "ranked rank t = k # hs"
      using started_first [OF ok] by blast
    obtain n where n: "om_get (rt_nodes t) k = Some n"
        "tree_apply rank t (Started k) =
          (t\<lparr>rt_nodes := om_insert k (n\<lparr>nd_status := Active\<rparr>) (rt_nodes t),
             rt_steps_used := rt_steps_used t + 1, rt_events := rt_events t @ [Started k]\<rparr>,
           Inr (NodeUpdated k))"
      by (rule start_ready [OF ok assms(2) first])
    have "rt_nodes t' = om_insert k (n\<lparr>nd_status := Active\<rparr>) (rt_nodes t)"
      using n(2) start by auto
    from select [OF first n(1) start this]
    show "\<exists>n. select_node rank t = (t', Inr (Some n)) \<and> nd_key n = k"
      by (intro exI [of _ "n\<lparr>nd_status := Active\<rparr>"]) simp
  next
    assume "\<exists>n. select_node rank t = (t', Inr (Some n)) \<and> nd_key n = k"
    then obtain n where sel: "select_node rank t = (t', Inr (Some n))" "nd_key n = k" by blast
    then obtain h hs where first: "ranked rank t = h # hs"
      by (auto simp: select_node_def split: if_splits list.splits)
    obtain m where m: "om_get (rt_nodes t) h = Some m"
        "tree_apply rank t (Started h) =
          (t\<lparr>rt_nodes := om_insert h (m\<lparr>nd_status := Active\<rparr>) (rt_nodes t),
             rt_steps_used := rt_steps_used t + 1, rt_events := rt_events t @ [Started h]\<rparr>,
           Inr (NodeUpdated h))" (is "_ = (?u, _)")
      by (rule start_ready [OF ok assms(2) first])
    have "rt_nodes ?u = om_insert h (m\<lparr>nd_status := Active\<rparr>) (rt_nodes t)" by simp
    note chosen = select [OF first m this]
    have "?u = t'" "h = k"
      using chosen sel by auto
    then show "tree_apply rank t (Started k) = (t', Inr (NodeUpdated k))"
      using m(2) by simp
  qed
qed

theorem select_equals_accepted_start_witness:
  "\<exists>t' n. select_node tree_example_rank tree_example = (t', Inr (Some n)) \<and> nd_key n = ''c''"
proof -
  have "snd (tree_apply tree_example_rank tree_example (Started ''c'')) = Inr (NodeUpdated ''c'')"
    by code_simp
  then show ?thesis
    using select_equals_accepted_start [OF tree_example_reachable tree_example_ranks_given, of "''c''"]
    by (metis prod.collapse)
qed

text \<open>
  What \<open>select\<close> activates: a node that was pending, in scope and with every dependency
  completed or refuted. It becomes active and nothing else of the graph changes; one start is
  journalled and one step is charged, within the limit.
\<close>

lemma select_starts_ready_work:
  assumes "tree_reachable rank t" and "ranks_given rank"
    and "select_node rank t = (t', Inr (Some n))"
  shows "\<exists>old. om_get (rt_nodes t) (nd_key n) = Some old \<and> node_ready t old \<and>
    n = old\<lparr>nd_status := Active\<rparr> \<and>
    om_get (rt_nodes t') = (om_get (rt_nodes t))(nd_key n \<mapsto> n) \<and>
    rt_events t' = rt_events t @ [Started (nd_key n)] \<and>
    rt_steps_used t' = rt_steps_used t + 1 \<and> rt_steps_used t' \<le> max_steps (rt_limits t)"
proof -
  have ok: "tree_ok t" using reachable_ok [OF assms(1)] .
  obtain h hs where first: "ranked rank t = h # hs"
    using assms(3) by (auto simp: select_node_def split: if_splits list.splits)
  obtain m where m: "om_get (rt_nodes t) h = Some m" "node_ready t m"
      "tree_apply rank t (Started h) =
        (t\<lparr>rt_nodes := om_insert h (m\<lparr>nd_status := Active\<rparr>) (rt_nodes t),
           rt_steps_used := rt_steps_used t + 1, rt_events := rt_events t @ [Started h]\<rparr>,
         Inr (NodeUpdated h))"
    using start_ready [OF ok assms(2) first] .
  have "rt_steps_used t < max_steps (rt_limits t)"
    using first by (auto simp: ranked_def split: if_splits)
  moreover have "nd_key m = h" using m(1) ok nodes_okD(1) by (auto simp: tree_ok_def)
  ultimately show ?thesis
    using assms(3) first m
    by (intro exI [of _ m]) (auto simp: select_node_def split: if_splits)
qed

lemma select_starts_ready_work_witness:
  "\<exists>t' n. select_node tree_example_rank tree_example = (t', Inr (Some n)) \<and>
    rt_steps_used t' = 3 \<and> nd_status n = Active"
proof -
  have "rt_steps_used tree_example = 2" by code_simp
  moreover have "map_sum (\<lambda>e. ()) (map_option nd_key) (snd (select_node tree_example_rank tree_example))
      = Inr (Some ''c'')" by code_simp
  then obtain t' n where "select_node tree_example_rank tree_example = (t', Inr (Some n))"
    by (cases "select_node tree_example_rank tree_example"; cases "snd (select_node tree_example_rank tree_example)") auto
  ultimately show ?thesis
    using select_starts_ready_work [OF tree_example_reachable tree_example_ranks_given, of t' n] by auto
qed

text \<open>
  C22. The context of a node never panics and is bounded by the limit. It begins with the node
  and its chain of parents, nearest first, which stops only at a root or at the limit. Every
  node in it is in the tree, occurs once and is linked to the requested node; when it is
  smaller than the limit it holds everything that is.
\<close>

theorem context_of_known_node:
  assumes "tree_reachable rank t" and "1 \<le> limit" and "limit \<le> 32"
    and "om_contains (rt_nodes t) key"
  shows "\<exists>chain rest. tree_context t key limit = Some (Inr (chain @ rest)) \<and>
    context_ok (rt_nodes t) key limit (chain @ rest) \<and>
    chain \<noteq> [] \<and> nd_key (hd chain) = key \<and>
    successively (\<lambda>a b. nd_parent a = Some (nd_key b)) chain \<and>
    (length chain = limit \<or> nd_parent (last chain) = None) \<and>
    (length (chain @ rest) = limit \<or>
      (\<forall>n\<in>set (chain @ rest). node_refs n \<subseteq> nd_key ` set (chain @ rest)))"
  using tree_context_spec [OF _ assms(2-4)] reachable_ok [OF assms(1)] by (simp add: tree_ok_def)

theorem context_of_known_node_witness:
  "\<exists>chain rest. tree_context tree_example ''b'' 2 = Some (Inr (chain @ rest)) \<and>
    map nd_key (chain @ rest) = [''b'', ''a''] \<and> nd_key (hd chain) = ''b''"
proof -
  have "om_contains (rt_nodes tree_example) ''b''" by code_simp
  then obtain chain rest where "tree_context tree_example ''b'' 2 = Some (Inr (chain @ rest))"
      "nd_key (hd chain) = ''b''"
    using context_of_known_node [OF tree_example_reachable, of 2 "''b''"] by auto
  moreover have "map_option (map_sum (\<lambda>e. ()) (map nd_key)) (tree_context tree_example ''b'' 2)
      = Some (Inr [''b'', ''a''])" by code_simp
  ultimately show ?thesis by auto
qed

end
