(* ===== verification/HostProtocol.thy ===== *)
theory HostProtocol
  imports OrdMap "HOL-Library.Word"
begin

text \<open>
  The wire contract of the headless host: \<open>code-host/src/protocol.rs\<close> and
  \<open>code-host/src/contract.rs\<close>. JSON values are the type variable \<open>'v\<close>; what \<open>serde_json\<close> and
  \<open>serde_ignored\<close> do with them, and how the file system canonicalises a path, are parameters.
\<close>

section \<open>Requests and responses\<close>

definition PROTOCOL_VERSION :: "32 word" where
  "PROTOCOL_VERSION = 2"

datatype 'v request_command =
    Ping
  | Catalog
  | Invoke (iv_plugin: rstr) (iv_operation: rstr) (iv_project: "rstr option") (iv_input: 'v)
  | Cancel rstr
  | Shutdown

record 'v request =
  rq_schema_version :: "32 word"
  rq_request_id :: rstr
  rq_command :: "'v request_command"

datatype 'v response =
    Progress "32 word" "rstr option" "64 word" rstr 'v
  | RResult "32 word" "rstr option" rstr 'v
  | RError "32 word" "rstr option" rstr rstr

definition response_progress :: "rstr \<Rightarrow> 64 word \<Rightarrow> rstr \<Rightarrow> 'v \<Rightarrow> 'v response" where
  "response_progress request_id sequence kind data =
     Progress PROTOCOL_VERSION (Some request_id) sequence kind data"

definition response_result :: "rstr option \<Rightarrow> rstr \<Rightarrow> 'v \<Rightarrow> 'v response" where
  "response_result request_id kind data = RResult PROTOCOL_VERSION request_id kind data"

definition response_error :: "rstr option \<Rightarrow> rstr \<Rightarrow> rstr \<Rightarrow> 'v response" where
  "response_error request_id code message = RError PROTOCOL_VERSION request_id code message"

fun with_request_id :: "rstr \<Rightarrow> 'v response \<Rightarrow> 'v response" where
  "with_request_id i (Progress v _ s k d) = Progress v (Some i) s k d"
| "with_request_id i (RResult v _ k d) = RResult v (Some i) k d"
| "with_request_id i (RError v _ c m) = RError v (Some i) c m"

fun response_id :: "'v response \<Rightarrow> rstr option" where
  "response_id (Progress _ i _ _ _) = i"
| "response_id (RResult _ i _ _) = i"
| "response_id (RError _ i _ _) = i"

fun response_version :: "'v response \<Rightarrow> 32 word" where
  "response_version (Progress v _ _ _ _) = v"
| "response_version (RResult v _ _ _) = v"
| "response_version (RError v _ _ _) = v"

fun is_terminal :: "'v response \<Rightarrow> bool" where
  "is_terminal (Progress _ _ _ _ _) = False"
| "is_terminal _ = True"

section \<open>Strict decoding of a request\<close>

text \<open>
  What the JSON libraries answer for one input line: the value, the request with the paths the
  deserialiser ignored, whether anything follows it, the request as a value again, and the keys
  of a value that is an object.
\<close>

record 'v wire =
  wire_value :: "rstr \<Rightarrow> rstr + 'v"
  wire_request :: "rstr \<Rightarrow> rstr + 'v request \<times> rstr list"
  wire_end :: "rstr \<Rightarrow> rstr + unit"
  wire_canonical :: "'v request \<Rightarrow> rstr + 'v"
  wire_keys :: "'v \<Rightarrow> rstr list option"

definition unknown_keys :: "'v wire \<Rightarrow> 'v \<Rightarrow> 'v request \<Rightarrow> rstr list" where
  "unknown_keys w original request =
     (case (wire_keys w original, wire_canonical w request) of
        (Some keys, Inr canonical) \<Rightarrow>
          (case wire_keys w canonical of
             Some known \<Rightarrow> filter (\<lambda>key. key \<notin> set known) keys
           | None \<Rightarrow> [])
      | _ \<Rightarrow> [])"

definition from_json_str :: "'v wire \<Rightarrow> rstr \<Rightarrow> rstr + 'v request" where
  "from_json_str w input =
     bind_res (wire_value w input) (\<lambda>original.
     bind_res (wire_request w input) (\<lambda>(request, ignored).
     bind_res (wire_end w input) (\<lambda>_.
       let ignored = ignored @ unknown_keys w original request
       in if ignored = [] then Inr request
          else Inl (''unknown request field(s): ''
                 @ join_with '', '' (remdups_adj (sort ignored))))))"

section \<open>Identifiers\<close>

definition portable_byte :: "char \<Rightarrow> bool" where
  "portable_byte c \<longleftrightarrow> is_ascii_alphanumeric c \<or> c \<in> {CHR ''-'', CHR ''_'', CHR ''.''}"

datatype registry_error =
    InvalidIdentifier rstr rstr
  | ProjectRoot rstr rstr
  | DuplicateProject rstr
  | UnknownProject rstr

text \<open>\<open>error.to_string()\<close>, given how the standard library prints a path with \<open>{:?}\<close>.\<close>

fun registry_error_text :: "(rstr \<Rightarrow> rstr) \<Rightarrow> registry_error \<Rightarrow> rstr" where
  "registry_error_text debug (InvalidIdentifier field value) =
     ''invalid '' @ field @ '' identifier: '' @ value"
| "registry_error_text debug (ProjectRoot path source) =
     ''project root '' @ debug path @ '': '' @ source"
| "registry_error_text debug (DuplicateProject i) = ''duplicate project registration: '' @ i"
| "registry_error_text debug (UnknownProject i) = ''unknown registered project: '' @ i"

definition validate_identifier :: "rstr \<Rightarrow> rstr \<Rightarrow> registry_error + unit" where
  "validate_identifier field value =
     (if value = [] \<or> 128 < length value \<or> \<not> list_all portable_byte value
      then Inl (InvalidIdentifier field value) else Inr ())"

definition validate_portable_value :: "rstr \<Rightarrow> rstr \<Rightarrow> nat \<Rightarrow> rstr + unit" where
  "validate_portable_value field value max_len =
     (if value = [] \<or> max_len < length value \<or> \<not> list_all portable_byte value
      then Inl (field @ '' is invalid'') else Inr ())"

section \<open>The project registry\<close>

record project_registration =
  pr_id :: rstr
  pr_root :: rstr

type_synonym project_registry = "(rstr, rstr) omap"

definition register_project ::
    "(rstr \<Rightarrow> rstr + rstr) \<Rightarrow> project_registry \<Rightarrow> project_registration \<Rightarrow>
     registry_error + project_registry"
where
  "register_project canonicalize projects r =
     bind_res (validate_identifier ''project_id'' (pr_id r)) (\<lambda>_.
       case canonicalize (pr_root r) of
         Inl source \<Rightarrow> Inl (ProjectRoot (pr_root r) source)
       | Inr root \<Rightarrow>
           if om_contains projects (pr_id r) then Inl (DuplicateProject (pr_id r))
           else Inr (om_insert (pr_id r) root projects))"

definition project_registry_new ::
    "(rstr \<Rightarrow> rstr + rstr) \<Rightarrow> project_registration list \<Rightarrow> registry_error + project_registry" where
  "project_registry_new canonicalize rs = fold_res (register_project canonicalize) [] rs"

definition resolve_project :: "project_registry \<Rightarrow> rstr \<Rightarrow> registry_error + rstr" where
  "resolve_project projects project_id =
     ok_or (om_get projects project_id) (UnknownProject project_id)"

definition registry_ids :: "project_registry \<Rightarrow> rstr list" where
  "registry_ids projects = om_keys projects"

section \<open>Session recipes\<close>

record 'v session_extension =
  se_id :: rstr
  se_config :: 'v

record 'v session_recipe =
  specialist_kind :: "rstr option"
  hard_constraints :: "rstr list"
  extensions :: "'v session_extension list"

fun check_extensions ::
    "('v \<Rightarrow> rstr + rstr) \<Rightarrow> rstr set \<Rightarrow> 'v session_extension list \<Rightarrow> rstr + unit" where
  "check_extensions to_vec ids [] = Inr ()"
| "check_extensions to_vec ids (e # es) =
     bind_res (validate_portable_value ''session extension id'' (se_id e) 64) (\<lambda>_.
       if se_id e \<in> ids
       then Inl (''remote session recipe repeats extension '' @ se_id e)
       else case to_vec (se_config e) of
           Inl error \<Rightarrow> Inl (''session extension is invalid: '' @ error)
         | Inr bytes \<Rightarrow>
             if 64 * 1024 < length bytes
             then Inl (''remote session extension '' @ se_id e @ '' exceeds 65536 bytes'')
             else check_extensions to_vec (insert (se_id e) ids) es)"

definition recipe_validate :: "('v \<Rightarrow> rstr + rstr) \<Rightarrow> 'v session_recipe \<Rightarrow> rstr + unit" where
  "recipe_validate to_vec r =
     bind_res (case specialist_kind r of
         Some kind \<Rightarrow> validate_portable_value ''specialist_kind'' kind 64
       | None \<Rightarrow> Inr ()) (\<lambda>_.
       if 2 < length (hard_constraints r)
           \<or> card (set (hard_constraints r)) \<noteq> length (hard_constraints r)
           \<or> list_ex (\<lambda>c. c \<notin> {''no_delete'', ''no_github_push''}) (hard_constraints r)
       then Inl ''coding session hard constraints are invalid''
       else if 8 < length (extensions r)
       then Inl ''remote session recipe has too many product extensions''
       else check_extensions to_vec {} (extensions r))"

section \<open>What accepted inputs look like\<close>

lemma validate_identifier_Inr_iff [result_simps]:
  "validate_identifier f v = Inr u \<longleftrightarrow>
     v \<noteq> [] \<and> length v \<le> 128 \<and> list_all portable_byte v"
  by (auto simp: validate_identifier_def)

lemma validate_portable_value_Inr_iff [result_simps]:
  "validate_portable_value f v n = Inr u \<longleftrightarrow>
     v \<noteq> [] \<and> length v \<le> n \<and> list_all portable_byte v"
  by (auto simp: validate_portable_value_def)

lemma check_extensions_Inr_iff:
  "check_extensions to_vec ids es = Inr u \<longleftrightarrow>
     distinct (map se_id es) \<and> set (map se_id es) \<inter> ids = {} \<and>
     (\<forall>e\<in>set es. validate_portable_value ''session extension id'' (se_id e) 64 = Inr () \<and>
        (\<exists>bytes. to_vec (se_config e) = Inr bytes \<and> length bytes \<le> 65536))"
  by (induction to_vec ids es rule: check_extensions.induct)
     (auto simp: result_simps split: sum.splits)

lemma registry_new_spec:
  assumes "project_registry_new canonicalize rs = Inr projects"
  shows "om_wf projects \<and> distinct (map pr_id rs) \<and>
    (\<forall>i root. om_get projects i = Some root \<longleftrightarrow>
       (\<exists>r\<in>set rs. pr_id r = i \<and> canonicalize (pr_root r) = Inr root))"
proof -
  have "om_wf projects \<and> distinct (map pr_id rs) \<and> set (map pr_id rs) \<inter> dom (om_get ps) = {} \<and>
      (\<forall>i root. om_get projects i = Some root \<longleftrightarrow> om_get ps i = Some root \<or>
         (\<exists>r\<in>set rs. pr_id r = i \<and> canonicalize (pr_root r) = Inr root))"
    if "fold_res (register_project canonicalize) ps rs = Inr projects" and "om_wf ps" for ps
    using that
  proof (induction rs arbitrary: ps)
    case (Cons r rs)
    obtain root where root: "canonicalize (pr_root r) = Inr root"
        "om_get ps (pr_id r) = None"
        "fold_res (register_project canonicalize) (om_insert (pr_id r) root ps) rs = Inr projects"
      using Cons.prems(1)
      by (auto simp: register_project_def [of canonicalize ps r] result_simps om_contains_def
          split: sum.splits if_splits)
    note IH = Cons.IH [OF root(3) om_wf_insert [OF Cons.prems(2)]]
    then show ?case using root(1,2) by (auto split: if_splits)
  qed auto
  from this [of "[]"] show ?thesis
    using assms by (simp add: project_registry_new_def)
qed

end
