(* ===== verification/Receipts.thy ===== *)
theory Receipts
  imports HostProtocol Machines
begin

text \<open>
  The durable request receipts of the host: \<open>code-host/src/idempotency.rs\<close>. A store is the
  directory of receipt files with the cached number of bytes in it; both methods run under the
  store's mutex. Everything the file system and the clock answer during one call is an argument
  of the call, so a call may fail at any point and leave a partly written file behind.
  \<open>serde_json\<close> and SHA-256 are parameters.
\<close>

section \<open>Data\<close>

datatype unavailable_reason = CaptureLimit | StoreCapacity

datatype 'v receipt_entry =
    EStarted "32 word" rstr
  | ECompleted "32 word" rstr "'v response list" "'v response"
  | EUnavailable "32 word" rstr unavailable_reason

datatype 'v reservation =
    Fresh rstr
  | Replay "'v response list" "'v response"
  | Ambiguous
  | Conflict
  | CapacityExhausted

record 'v codec =
  entry_vec :: "'v receipt_entry \<Rightarrow> rstr + rstr"
  entry_str :: "rstr \<Rightarrow> 'v receipt_entry option"
  value_vec :: "'v \<Rightarrow> rstr + rstr"
  sha256_hex :: "rstr \<Rightarrow> rstr"

record receipt_file =
  f_bytes :: rstr
  f_modified :: "nat option"

type_synonym disk = "(rstr, receipt_file) omap"

record store =
  st_disk :: disk
  st_usage :: "64 word option"
  st_capacity :: "64 word"

definition RECEIPT_VERSION :: "32 word" where
  "RECEIPT_VERSION = 2"

definition MAX_RECEIPT_BYTES :: "64 word" where
  "MAX_RECEIPT_BYTES = 16 * 1024 * 1024"

definition MAX_RECEIPT_STORE_BYTES :: "64 word" where
  "MAX_RECEIPT_STORE_BYTES = 512 * 1024 * 1024"

text \<open>Times are nanoseconds: one hour.\<close>

definition SETTLED_RECEIPT_RETENTION :: nat where
  "SETTLED_RECEIPT_RETENTION = 60 * 60 * 1000000000"

definition store_new :: "disk \<Rightarrow> store" where
  "store_new d = \<lparr>st_disk = d, st_usage = None, st_capacity = MAX_RECEIPT_STORE_BYTES\<rparr>"

text \<open>
  What the environment answers during one call. The directory listings are those of
  \<open>read_dir\<close> in \<open>store_usage\<close> and in the eviction, each entry a name or an error; a write
  returns the number of bytes that reached the file when it fails.
\<close>

datatype removal = Removed | RemovedByOther | RemoveFailed rstr

record io =
  io_mkdir :: "rstr option"
  io_usage_dir :: "rstr + (rstr + rstr) list"
  io_evict_dir :: "rstr + (rstr + rstr) list"
  io_stat :: "rstr \<Rightarrow> rstr option"
  io_hidden :: bool
  io_open :: "rstr option"
  io_read :: "rstr option"
  io_unreadable :: "rstr \<Rightarrow> bool"
  io_remove :: "rstr \<Rightarrow> removal"
  io_write :: "(nat \<times> rstr) option"
  io_sync_dir :: "rstr option"
  io_now :: nat
  io_stamp :: "nat option"

definition missing :: rstr where
  "missing = ''No such file or directory''"

section \<open>Lines and names\<close>

text \<open>\<open>str::lines\<close>: the newline of a line and a carriage return before it are not part of it.\<close>

definition strip_cr :: "rstr \<Rightarrow> rstr" where
  "strip_cr l = (if l \<noteq> [] \<and> last l = CHR 0x0D then butlast l else l)"

definition str_lines :: "rstr \<Rightarrow> rstr list" where
  "str_lines s = (let ps = split_char CHR 0x0A s; front = map strip_cr (butlast ps)
     in if last ps = [] then front else front @ [last ps])"

text \<open>\<open>Path::extension\<close> of a file name.\<close>

definition file_extension :: "rstr \<Rightarrow> rstr option" where
  "file_extension name =
     (let rest = dropWhile (\<lambda>c. c \<noteq> CHR ''.'') (rev name)
      in if name = ''..'' \<or> rest = [] \<or> tl rest = [] then None
         else Some (rev (takeWhile (\<lambda>c. c \<noteq> CHR ''.'') (rev name))))"

definition is_receipt :: "rstr \<Rightarrow> bool" where
  "is_receipt name \<longleftrightarrow> file_extension name = Some ''jsonl''"

definition receipt_path :: "'v codec \<Rightarrow> rstr \<Rightarrow> rstr" where
  "receipt_path c request_id = sha256_hex c request_id @ ''.jsonl''"

definition hash_json :: "'v codec \<Rightarrow> 'v \<Rightarrow> rstr + rstr" where
  "hash_json c value = bind_res (value_vec c value) (\<lambda>encoded. Inr (sha256_hex c encoded))"

definition entry_line :: "'v codec \<Rightarrow> 'v receipt_entry \<Rightarrow> rstr + rstr" where
  "entry_line c entry = bind_res (entry_vec c entry) (\<lambda>line. Inr (line @ [CHR 0x0A]))"

definition byte_len :: "rstr \<Rightarrow> 64 word" where
  "byte_len s = of_nat (length s)"

section \<open>Usage of the store\<close>

fun sum_usage :: "io \<Rightarrow> disk \<Rightarrow> (rstr + rstr) list \<Rightarrow> 64 word \<Rightarrow> rstr + 64 word" where
  "sum_usage io d [] u = Inr u"
| "sum_usage io d (Inl error # es) u = Inl error"
| "sum_usage io d (Inr name # es) u =
     (if \<not> is_receipt name then sum_usage io d es u
      else case (io_stat io name, om_get d name) of
          (Some error, _) \<Rightarrow> Inl error
        | (None, None) \<Rightarrow> Inl missing
        | (None, Some f) \<Rightarrow> sum_usage io d es (sat_add u (byte_len (f_bytes f))))"

definition store_usage :: "io \<Rightarrow> store \<Rightarrow> store \<times> (rstr + 64 word)" where
  "store_usage io s =
     (case st_usage s of
        Some u \<Rightarrow> (s, Inr u)
      | None \<Rightarrow>
          (case bind_res (io_usage_dir io) (\<lambda>es. sum_usage io (st_disk s) es 0) of
             Inl error \<Rightarrow> (s, Inl error)
           | Inr u \<Rightarrow> (s\<lparr>st_usage := Some u\<rparr>, Inr u)))"

definition receipt_is_settled :: "'v codec \<Rightarrow> rstr \<Rightarrow> bool" where
  "receipt_is_settled c contents =
     (case str_lines contents of
        _ # second # _ \<Rightarrow>
          (case entry_str c second of
             Some (ECompleted _ _ _ _) \<Rightarrow> True
           | Some (EUnavailable _ _ _) \<Rightarrow> True
           | _ \<Rightarrow> False)
      | _ \<Rightarrow> False)"

definition expired :: "io \<Rightarrow> receipt_file \<Rightarrow> bool" where
  "expired io f =
     (case f_modified f of
        None \<Rightarrow> False
      | Some modified \<Rightarrow>
          modified \<le> io_now io \<and> SETTLED_RECEIPT_RETENTION < io_now io - modified)"

definition evictable :: "'v codec \<Rightarrow> io \<Rightarrow> rstr \<Rightarrow> receipt_file \<Rightarrow> bool" where
  "evictable c io name f \<longleftrightarrow>
     expired io f \<and> \<not> io_unreadable io name \<and> receipt_is_settled c (f_bytes f)"

fun evict_loop ::
    "'v codec \<Rightarrow> io \<Rightarrow> (rstr + rstr) list \<Rightarrow> 64 word \<Rightarrow> store \<Rightarrow> store \<times> (rstr + 64 word)"
where
  "evict_loop c io [] u s = (s\<lparr>st_usage := Some u\<rparr>, Inr u)"
| "evict_loop c io (Inl error # es) u s = (s, Inl error)"
| "evict_loop c io (Inr name # es) u s =
     (if \<not> is_receipt name then evict_loop c io es u s
      else case (io_stat io name, om_get (st_disk s) name) of
          (Some error, _) \<Rightarrow> (s, Inl error)
        | (None, None) \<Rightarrow> (s, Inl missing)
        | (None, Some f) \<Rightarrow>
            if evictable c io name f
            then (case io_remove io name of
                RemoveFailed error \<Rightarrow> (s\<lparr>st_usage := None\<rparr>, Inl error)
              | _ \<Rightarrow> evict_loop c io es u (s\<lparr>st_disk := om_remove name (st_disk s)\<rparr>))
            else evict_loop c io es (sat_add u (byte_len (f_bytes f))) s)"

definition evict_settled_receipts ::
    "'v codec \<Rightarrow> io \<Rightarrow> store \<Rightarrow> store \<times> (rstr + 64 word)" where
  "evict_settled_receipts c io s =
     (case io_evict_dir io of
        Inl error \<Rightarrow> (s, Inl error)
      | Inr es \<Rightarrow> evict_loop c io es 0 s)"

section \<open>Reserving a request\<close>

definition existing_reservation ::
    "'v codec \<Rightarrow> io \<Rightarrow> receipt_file \<Rightarrow> rstr \<Rightarrow> rstr + 'v reservation" where
  "existing_reservation c io f request_hash =
     (case io_open io of
        Some error \<Rightarrow> Inl error
      | None \<Rightarrow>
          if MAX_RECEIPT_BYTES < byte_len (f_bytes f) then Inr Ambiguous
          else case io_read io of
              Some error \<Rightarrow> Inl error
            | None \<Rightarrow>
                (case str_lines (f_bytes f) of
                   [] \<Rightarrow> Inr Ambiguous
                 | first # rest \<Rightarrow>
                     (case entry_str c first of
                        Some (EStarted version stored_hash) \<Rightarrow>
                          if version \<noteq> RECEIPT_VERSION then Inr Ambiguous
                          else if stored_hash \<noteq> request_hash then Inr Conflict
                          else (case rest of
                              [second] \<Rightarrow>
                                (case entry_str c second of
                                   Some (ECompleted version completed_hash progress terminal) \<Rightarrow>
                                     if version \<noteq> RECEIPT_VERSION \<or> completed_hash \<noteq> request_hash
                                     then Inr Ambiguous
                                     else Inr (Replay progress terminal)
                                 | _ \<Rightarrow> Inr Ambiguous)
                            | _ \<Rightarrow> Inr Ambiguous)
                      | _ \<Rightarrow> Inr Ambiguous)))"

definition put_file :: "io \<Rightarrow> rstr \<Rightarrow> rstr \<Rightarrow> store \<Rightarrow> store" where
  "put_file io path bytes s =
     s\<lparr>st_disk := om_insert path \<lparr>f_bytes = bytes, f_modified = io_stamp io\<rparr> (st_disk s)\<rparr>"

text \<open>
  \<open>open(create_new)\<close>, \<open>write_all\<close>, \<open>sync_all\<close> and the synchronisation of the directory. The
  file may be there although \<open>exists\<close> did not see it.
\<close>

definition create_receipt ::
    "'v codec \<Rightarrow> io \<Rightarrow> rstr \<Rightarrow> rstr \<Rightarrow> 64 word \<Rightarrow> rstr \<Rightarrow> store \<Rightarrow>
     store \<times> (rstr + 'v reservation)"
where
  "create_receipt c io path line usage_bytes request_hash s =
     (case om_get (st_disk s) path of
        Some f \<Rightarrow> (s, existing_reservation c io f request_hash)
      | None \<Rightarrow>
          (case io_open io of
             Some error \<Rightarrow> (s, Inl error)
           | None \<Rightarrow>
               (case io_write io of
                  Some (n, error) \<Rightarrow>
                    ((put_file io path (take n line) s)\<lparr>st_usage := None\<rparr>, Inl error)
                | None \<Rightarrow>
                    (case io_sync_dir io of
                       Some error \<Rightarrow> ((put_file io path line s)\<lparr>st_usage := None\<rparr>, Inl error)
                     | None \<Rightarrow>
                         ((put_file io path line s)
                            \<lparr>st_usage := Some (usage_bytes + byte_len line)\<rparr>,
                          Inr (Fresh request_hash))))))"

text \<open>The capacity test: \<open>None\<close> when the line does not fit even after an eviction.\<close>

definition make_room ::
    "'v codec \<Rightarrow> io \<Rightarrow> store \<Rightarrow> 64 word \<Rightarrow> rstr \<Rightarrow> store \<times> (rstr + 64 word option)" where
  "make_room c io s usage_bytes line =
     (if sat_add usage_bytes (byte_len line) \<le> st_capacity s then (s, Inr (Some usage_bytes))
      else case evict_settled_receipts c io s of
          (s, Inl error) \<Rightarrow> (s, Inl error)
        | (s, Inr usage_bytes) \<Rightarrow>
            if sat_add usage_bytes (byte_len line) \<le> st_capacity s
            then (s, Inr (Some usage_bytes))
            else (s, Inr None))"

definition reserve ::
    "'v codec \<Rightarrow> io \<Rightarrow> store \<Rightarrow> rstr \<Rightarrow> 'v \<Rightarrow> store \<times> (rstr + 'v reservation)" where
  "reserve c io s request_id request =
     (case io_mkdir io of
        Some error \<Rightarrow> (s, Inl error)
      | None \<Rightarrow>
     (case store_usage io s of
        (s, Inl error) \<Rightarrow> (s, Inl error)
      | (s, Inr usage_bytes) \<Rightarrow>
          (let path = receipt_path c request_id
           in case hash_json c request of
                Inl error \<Rightarrow> (s, Inl error)
              | Inr request_hash \<Rightarrow>
     (case (io_hidden io, om_get (st_disk s) path) of
        (False, Some f) \<Rightarrow> (s, existing_reservation c io f request_hash)
      | _ \<Rightarrow>
          (case entry_line c (EStarted RECEIPT_VERSION request_hash) of
             Inl error \<Rightarrow> (s, Inl error)
           | Inr line \<Rightarrow>
               (case make_room c io s usage_bytes line of
                  (s, Inl error) \<Rightarrow> (s, Inl error)
                | (s, Inr None) \<Rightarrow> (s, Inr CapacityExhausted)
                | (s, Inr (Some usage_bytes)) \<Rightarrow>
                    create_receipt c io path line usage_bytes request_hash s))))))"

section \<open>Completing a request\<close>

definition fits_receipt :: "store \<Rightarrow> 64 word \<Rightarrow> 64 word \<Rightarrow> rstr \<Rightarrow> bool" where
  "fits_receipt s usage_bytes existing_bytes line \<longleftrightarrow>
     sat_add existing_bytes (byte_len line) \<le> MAX_RECEIPT_BYTES \<and>
     sat_add usage_bytes (byte_len line) \<le> st_capacity s"

definition completion_entry ::
    "rstr \<Rightarrow> unit + 'v response list \<Rightarrow> 'v response \<Rightarrow> 'v receipt_entry" where
  "completion_entry request_hash progress terminal =
     (case progress of
        Inr frames \<Rightarrow> ECompleted RECEIPT_VERSION request_hash frames terminal
      | Inl _ \<Rightarrow> EUnavailable RECEIPT_VERSION request_hash CaptureLimit)"

definition append_receipt ::
    "io \<Rightarrow> rstr \<Rightarrow> receipt_file \<Rightarrow> 64 word \<Rightarrow> rstr \<Rightarrow> store \<Rightarrow> store \<times> (rstr + unit)" where
  "append_receipt io path f usage_bytes line s =
     (case io_open io of
        Some error \<Rightarrow> (s, Inl error)
      | None \<Rightarrow>
          (case io_write io of
             Some (n, error) \<Rightarrow>
               ((put_file io path (f_bytes f @ take n line) s)\<lparr>st_usage := None\<rparr>, Inl error)
           | None \<Rightarrow>
               ((put_file io path (f_bytes f @ line) s)
                  \<lparr>st_usage := Some (usage_bytes + byte_len line)\<rparr>, Inr ())))"

definition complete ::
    "'v codec \<Rightarrow> io \<Rightarrow> store \<Rightarrow> rstr \<Rightarrow> rstr \<Rightarrow> unit + 'v response list \<Rightarrow> 'v response \<Rightarrow>
     store \<times> (rstr + unit)"
where
  "complete c io s request_id request_hash progress terminal =
     (let path = receipt_path c request_id
      in case store_usage io s of
        (s, Inl error) \<Rightarrow> (s, Inl error)
      | (s, Inr usage_bytes) \<Rightarrow>
     (case entry_line c (completion_entry request_hash progress terminal) of
        Inl error \<Rightarrow> (s, Inl error)
      | Inr line \<Rightarrow>
     (case (io_stat io path, om_get (st_disk s) path) of
        (Some error, _) \<Rightarrow> (s, Inl error)
      | (None, None) \<Rightarrow> (s, Inl missing)
      | (None, Some f) \<Rightarrow>
          if fits_receipt s usage_bytes (byte_len (f_bytes f)) line
          then append_receipt io path f usage_bytes line s
          else (case entry_line c
                  (EUnavailable RECEIPT_VERSION request_hash StoreCapacity) of
              Inl error \<Rightarrow> (s, Inl error)
            | Inr line \<Rightarrow>
                if fits_receipt s usage_bytes (byte_len (f_bytes f)) line
                then append_receipt io path f usage_bytes line s
                else (s, Inr ())))))"

section \<open>Histories of a store\<close>

text \<open>
  \<open>read_dir\<close> yields every entry of the directory once, unless an entry is an error.
\<close>

definition listing_ok :: "disk \<Rightarrow> (rstr + rstr) list \<Rightarrow> bool" where
  "listing_ok d es \<longleftrightarrow> distinct es \<and>
     ((\<forall>error. Inl error \<notin> set es) \<longrightarrow> (\<forall>k\<in>fst ` set d. Inr k \<in> set es))"

definition env_ok :: "io \<Rightarrow> disk \<Rightarrow> bool" where
  "env_ok io d \<longleftrightarrow>
     (case io_usage_dir io of Inl _ \<Rightarrow> True | Inr es \<Rightarrow> listing_ok d es) \<and>
     (case io_evict_dir io of Inl _ \<Rightarrow> True | Inr es \<Rightarrow> listing_ok d es)"

text \<open>
  The calls of any clients in any order, with whatever the environment answers; a restart is the
  end of the process and a new store over the same directory. \<open>P\<close> restricts the receipts that
  are completed and \<open>Q\<close> the environment of a reservation.
\<close>

inductive store_moves ::
    "'v codec \<Rightarrow> (rstr \<Rightarrow> bool) \<Rightarrow> (io \<Rightarrow> bool) \<Rightarrow> store \<Rightarrow> store \<Rightarrow> bool"
  for c :: "'v codec" and P :: "rstr \<Rightarrow> bool" and Q :: "io \<Rightarrow> bool"
where
  reserves: "env_ok io (st_disk s) \<Longrightarrow> Q io \<Longrightarrow> reserve c io s i v = (s', r) \<Longrightarrow>
     store_moves c P Q s s'"
| completes: "env_ok io (st_disk s) \<Longrightarrow> P (receipt_path c i) \<Longrightarrow>
     complete c io s i h p t = (s', q) \<Longrightarrow> store_moves c P Q s s'"
| restarts: "store_moves c P Q s (s\<lparr>st_usage := None\<rparr>)"

section \<open>Lines of a receipt\<close>

text \<open>
  What the code relies on: an encoded entry is a nonempty line that does not end with a carriage
  return, an encoded \<open>Started\<close> entry decodes to itself, and a digest is not empty. A vector
  holds at most \<open>isize::MAX\<close> bytes.
\<close>

definition codec_ok :: "'v codec \<Rightarrow> bool" where
  "codec_ok c \<longleftrightarrow>
     (\<forall>e l. entry_vec c e = Inr l \<longrightarrow>
        CHR 0x0A \<notin> set l \<and> l \<noteq> [] \<and> last l \<noteq> CHR 0x0D \<and> length l < 2 ^ 62) \<and>
     (\<forall>h l. entry_vec c (EStarted RECEIPT_VERSION h) = Inr l \<longrightarrow>
        entry_str c l = Some (EStarted RECEIPT_VERSION h)) \<and>
     (\<forall>x. sha256_hex c x \<noteq> [])"

lemma codec_okD:
  assumes "codec_ok c" and "entry_vec c e = Inr l"
  shows "CHR 0x0A \<notin> set l" and "l \<noteq> []" and "last l \<noteq> CHR 0x0D" and "length l < 2 ^ 62"
  using assms by (auto simp: codec_ok_def)

lemma split_char_last [simp]: "c \<notin> set l \<Longrightarrow> split_char c l = [l]"
  by (induction l) auto

lemma split_char_line: "c \<notin> set l \<Longrightarrow> split_char c (l @ c # r) = l # split_char c r"
  by (induction l) auto

lemma str_lines_Nil [simp]: "str_lines [] = []"
  by (simp add: str_lines_def)

lemma str_lines_line:
  assumes "CHR 0x0A \<notin> set l"
  shows "str_lines (l @ CHR 0x0A # r) = strip_cr l # str_lines r"
  using split_char_line [OF assms, of r] by (simp add: str_lines_def Let_def)

lemma str_lines_unended: "CHR 0x0A \<notin> set l \<Longrightarrow> length (str_lines l) \<le> 1"
  by (simp add: str_lines_def Let_def)

lemma entry_line_Inr:
  assumes "codec_ok c" and "entry_line c e = Inr line"
  obtains l where "entry_vec c e = Inr l" and "line = l @ [CHR 0x0A]"
    and "str_lines (line @ r) = l # str_lines r" and "length line \<le> 2 ^ 62"
proof -
  obtain l where l: "entry_vec c e = Inr l" "line = l @ [CHR 0x0A]"
    using assms(2) by (auto simp: entry_line_def result_simps)
  note ok = codec_okD [OF assms(1) l(1)]
  have "strip_cr l = l" using ok(3) by (simp add: strip_cr_def)
  then show thesis
    using that [OF l] str_lines_line [OF ok(1), of r] l(2) ok(4) by simp
qed

lemma receipt_path_is_receipt:
  assumes "codec_ok c"
  shows "is_receipt (receipt_path c i)"
proof -
  have "sha256_hex c i \<noteq> []" using assms by (simp add: codec_ok_def)
  then show ?thesis
    by (simp add: is_receipt_def receipt_path_def file_extension_def Let_def)
qed

text \<open>A receipt with at most one line is in progress: it was never completed.\<close>

definition in_progress :: "receipt_file \<Rightarrow> bool" where
  "in_progress f \<longleftrightarrow> length (str_lines (f_bytes f)) \<le> 1"

lemma in_progress_unsettled: "in_progress f \<Longrightarrow> \<not> receipt_is_settled c (f_bytes f)"
  by (auto simp: in_progress_def receipt_is_settled_def split: list.splits)

lemma started_in_progress:
  assumes "codec_ok c" and "entry_line c e = Inr (f_bytes f)"
  shows "in_progress f"
  using entry_line_Inr [OF assms, of "[]"] by (force simp: in_progress_def)

section \<open>What a call keeps\<close>

definition files_kept :: "'v codec \<Rightarrow> io \<Rightarrow> disk \<Rightarrow> disk \<Rightarrow> bool" where
  "files_kept c io d d' \<longleftrightarrow>
     (\<forall>p f. om_get d p = Some f \<longrightarrow> evictable c io p f \<or> om_get d' p = Some f)"

lemma files_kept_refl [simp]: "files_kept c io d d"
  by (simp add: files_kept_def)

lemma files_keptD:
  "files_kept c io d d' \<Longrightarrow> om_get d p = Some f \<Longrightarrow> \<not> evictable c io p f \<Longrightarrow> om_get d' p = Some f"
  by (auto simp: files_kept_def)

lemma store_usage_same [simp]:
  "st_disk (fst (store_usage io s)) = st_disk s"
  "st_capacity (fst (store_usage io s)) = st_capacity s"
  by (simp_all add: store_usage_def split: option.split sum.split)

lemma store_usage_disk:
  "store_usage io s = (s', r) \<Longrightarrow> st_disk s' = st_disk s \<and> st_capacity s' = st_capacity s"
  using store_usage_same [of io s] by simp

lemma evict_loop_entry:
  assumes "evict_loop c io (Inr name # es) u s = (s', r)"
  obtains (skipped) "\<not> is_receipt name" and "evict_loop c io es u s = (s', r)"
  | (stopped) error where "r = Inl error" and "s' = s \<or> s' = s\<lparr>st_usage := None\<rparr>"
  | (evicted) f where "is_receipt name" and "om_get (st_disk s) name = Some f"
      and "evictable c io name f"
      and "evict_loop c io es u (s\<lparr>st_disk := om_remove name (st_disk s)\<rparr>) = (s', r)"
  | (kept) f where "is_receipt name" and "om_get (st_disk s) name = Some f"
      and "\<not> evictable c io name f"
      and "evict_loop c io es (sat_add u (byte_len (f_bytes f))) s = (s', r)"
  using assms
  by (simp split: if_splits option.splits removal.splits) blast+

lemma evict_loop_keeps:
  assumes "evict_loop c io es u s = (s', r)" and "om_wf (st_disk s)"
  shows "om_wf (st_disk s') \<and> st_capacity s' = st_capacity s \<and>
    files_kept c io (st_disk s) (st_disk s')"
  using assms
proof (induction es arbitrary: u s)
  case (Cons e es)
  show ?case
  proof (cases e)
    case (Inl error)
    then show ?thesis using Cons.prems by auto
  next
    case (Inr name)
    from Cons.prems(1) [unfolded Inr] show ?thesis
    proof (cases rule: evict_loop_entry)
      case (evicted f)
      have "files_kept c io (st_disk s) (om_remove name (st_disk s))"
        using evicted(2,3) Cons.prems(2) by (auto simp: files_kept_def map_of_om_remove)
      then show ?thesis
        using Cons.IH [OF evicted(4)] Cons.prems(2) by (auto simp: files_kept_def)
    qed (use Cons in \<open>auto\<close>)
  qed
qed auto

lemma evict_keeps:
  assumes "evict_settled_receipts c io s = (s', r)" and "om_wf (st_disk s)"
  shows "om_wf (st_disk s') \<and> st_capacity s' = st_capacity s \<and>
    files_kept c io (st_disk s) (st_disk s')"
  using assms evict_loop_keeps [of c io _ 0 s s' r]
  by (auto simp: evict_settled_receipts_def split: sum.splits)

lemma create_receipt_keeps:
  assumes "create_receipt c io path line u h s = (s', r)" and "om_wf (st_disk s)"
  shows "om_wf (st_disk s') \<and> st_capacity s' = st_capacity s \<and>
    (\<forall>p f. om_get (st_disk s) p = Some f \<longrightarrow> om_get (st_disk s') p = Some f)"
  using assms by (auto simp: create_receipt_def put_file_def split: option.splits prod.splits)


lemma make_room_keeps:
  assumes "make_room c io s u line = (s', r)" and "om_wf (st_disk s)"
  shows "om_wf (st_disk s') \<and> st_capacity s' = st_capacity s \<and>
    files_kept c io (st_disk s) (st_disk s')"
  using assms evict_keeps [of c io s]
  by (auto simp: make_room_def split: if_splits prod.splits sum.splits)

text \<open>How a reservation comes about, with the stores on the way.\<close>

lemma reserve_cases:
  assumes "reserve c io s i v = (s', r)"
  obtains (failed) error where "r = Inl error" and "st_disk s' = st_disk s"
      and "st_capacity s' = st_capacity s" and "s' = fst (store_usage io s) \<or> s' = s"
  | (existing) u h f where "store_usage io s = (s', Inr u)" and "hash_json c v = Inr h"
      and "om_get (st_disk s) (receipt_path c i) = Some f"
      and "r = existing_reservation c io f h"
  | (no_room) s1 u h line where "store_usage io s = (s1, Inr u)" and "hash_json c v = Inr h"
      and "entry_line c (EStarted RECEIPT_VERSION h) = Inr line"
      and "make_room c io s1 u line = (s', Inr None) \<and> r = Inr CapacityExhausted
        \<or> (\<exists>error. make_room c io s1 u line = (s', Inl error) \<and> r = Inl error)"
  | (room) s1 u h line s2 u2 where "store_usage io s = (s1, Inr u)" and "hash_json c v = Inr h"
      and "entry_line c (EStarted RECEIPT_VERSION h) = Inr line"
      and "make_room c io s1 u line = (s2, Inr (Some u2))"
      and "create_receipt c io (receipt_path c i) line u2 h s2 = (s', r)"
proof (cases "store_usage io s")
  case (Pair s1 res)
  note usage = this
  have disk: "st_disk s1 = st_disk s" "st_capacity s1 = st_capacity s"
    using store_usage_disk [OF Pair] by auto
  show thesis
  proof (cases "io_mkdir io = None \<and> (\<exists>u h. res = Inr u \<and> hash_json c v = Inr h)")
    case False
    then show thesis
      using assms usage disk failed
      by (auto simp: reserve_def Let_def split: option.splits sum.splits)
  next
    case True
    then obtain u h where u: "io_mkdir io = None" "res = Inr u" "hash_json c v = Inr h" by blast
    let ?found = "\<not> io_hidden io \<and> om_get (st_disk s) (receipt_path c i) \<noteq> None"
    show thesis
    proof (cases ?found)
      case True
      then show thesis
        using assms usage disk u existing
        by (auto simp: reserve_def Let_def split: option.splits)
    next
      case False
      then have start: "reserve c io s i v =
          (case entry_line c (EStarted RECEIPT_VERSION h) of
             Inl error \<Rightarrow> (s1, Inl error)
           | Inr line \<Rightarrow>
               (case make_room c io s1 u line of
                  (s, Inl error) \<Rightarrow> (s, Inl error)
                | (s, Inr None) \<Rightarrow> (s, Inr CapacityExhausted)
                | (s, Inr (Some usage_bytes)) \<Rightarrow>
                    create_receipt c io (receipt_path c i) line usage_bytes h s))"
        using usage disk u
        by (cases "io_hidden io") (auto simp: reserve_def Let_def split: option.splits)
      show thesis
      proof (cases "entry_line c (EStarted RECEIPT_VERSION h)")
        case (Inl error)
        then show thesis using start assms usage disk failed by auto
      next
        case (Inr line)
        show thesis
        proof (cases "make_room c io s1 u line")
          case (Pair s2 res2)
          then show thesis
            using start assms usage u Inr no_room [of s1 u h line] room [of s1 u h line s2]
            by (auto split: sum.splits option.splits)
        qed
      qed
    qed
  qed
qed

lemma existing_not_fresh: "existing_reservation c io f h \<noteq> Inr (Fresh h')"
  by (auto simp: existing_reservation_def split: option.splits if_splits list.splits
      receipt_entry.splits)

lemma reserve_keeps:
  assumes "reserve c io s i v = (s', r)" and "om_wf (st_disk s)"
  shows "om_wf (st_disk s') \<and> st_capacity s' = st_capacity s \<and>
    files_kept c io (st_disk s) (st_disk s')"
  using assms(1)
proof (cases rule: reserve_cases)
  case (no_room s1 u h line)
  then show ?thesis
    using assms(2) store_usage_disk [OF no_room(1)] make_room_keeps [of c io s1 u line s']
    by auto
next
  case (room s1 u h line s2 u2)
  have "om_wf (st_disk s2) \<and> st_capacity s2 = st_capacity s \<and> files_kept c io (st_disk s) (st_disk s2)"
    using assms(2) store_usage_disk [OF room(1)] make_room_keeps [OF room(4)] by auto
  then show ?thesis
    using create_receipt_keeps [OF room(5)] by (auto simp: files_kept_def)
qed (use assms store_usage_disk in auto)

lemma complete_cases:
  assumes "complete c io s i h p t = (s', r)"
  obtains (unchanged) "st_disk s' = st_disk s" and "st_capacity s' = st_capacity s"
      and "s' = fst (store_usage io s)"
  | (appended) s1 u e line f where "store_usage io s = (s1, Inr u)"
      and "entry_line c e = Inr line" and "om_get (st_disk s) (receipt_path c i) = Some f"
      and "fits_receipt s1 u (byte_len (f_bytes f)) line"
      and "append_receipt io (receipt_path c i) f u line s1 = (s', r)"
proof (cases "store_usage io s")
  case (Pair s1 res)
  have disk: "st_disk s1 = st_disk s" "st_capacity s1 = st_capacity s"
    using store_usage_disk [OF Pair] by auto
  show thesis
  proof (rule ccontr)
    assume no: "\<not> thesis"
    then have "s' \<noteq> s1" using unchanged disk Pair by auto
    then show False
      using assms Pair disk appended no
      by (auto simp: complete_def Let_def split: sum.splits option.splits if_splits)
  qed
qed

lemma complete_keeps:
  assumes "complete c io s i h p t = (s', r)" and "om_wf (st_disk s)"
  shows "om_wf (st_disk s') \<and> st_capacity s' = st_capacity s \<and>
    (\<forall>q. q \<noteq> receipt_path c i \<longrightarrow> om_get (st_disk s') q = om_get (st_disk s) q)"
  using assms(1)
proof (cases rule: complete_cases)
  case unchanged
  then show ?thesis using assms(2) by simp
next
  case (appended s1 u e line f)
  then show ?thesis
    using assms(2) store_usage_disk [OF appended(1)]
    by (auto simp: append_receipt_def put_file_def split: option.splits prod.splits)
qed

section \<open>Receipts that stay\<close>

text \<open>
  A receipt is safe from the moves that do not complete it: it is in progress, or it was
  written too recently for every reservation.
\<close>

lemma receipt_stays:
  assumes "(store_moves c (\<lambda>q. q \<noteq> p) Q)\<^sup>*\<^sup>* s t" and "om_wf (st_disk s)"
    and "om_get (st_disk s) p = Some f" and "\<And>io. Q io \<Longrightarrow> \<not> evictable c io p f"
  shows "om_wf (st_disk t) \<and> om_get (st_disk t) p = Some f"
  using assms(1)
proof (induction rule: rtranclp_induct)
  case base
  then show ?case using assms by simp
next
  case (step t u)
  from step.hyps(2) step.IH show ?case
  proof (cases rule: store_moves.cases)
    case (reserves io i v r)
    then show ?thesis
      using reserve_keeps [OF reserves(3)] step.IH assms(4) [OF reserves(2)] files_keptD by blast
  next
    case (completes io i h pr tm q)
    then show ?thesis
      using complete_keeps [OF completes(3)] step.IH by metis
  qed auto
qed

lemma in_progress_not_evictable: "in_progress f \<Longrightarrow> \<not> evictable c io p f"
  by (simp add: evictable_def in_progress_unsettled)

text \<open>What a reservation answers when the receipt is there and stays.\<close>

lemma reserve_present:
  assumes "reserve c io s i v = (s', r)" and "om_wf (st_disk s)"
    and "om_get (st_disk s) (receipt_path c i) = Some f"
    and "\<not> evictable c io (receipt_path c i) f"
  shows "(\<exists>error. r = Inl error) \<or> r = Inr CapacityExhausted \<or>
    (\<exists>h. hash_json c v = Inr h \<and> r = existing_reservation c io f h)"
  using assms(1)
proof (cases rule: reserve_cases)
  case (room s1 u h line s2 u2)
  have "om_get (st_disk s2) (receipt_path c i) = Some f"
    using store_usage_disk [OF room(1)] make_room_keeps [OF room(4)] assms(2-4) files_keptD
    by fastforce
  then show ?thesis using room(2,5) by (auto simp: create_receipt_def)
qed (use assms(3) in auto)

lemma existing_in_progress:
  assumes "in_progress f" and "existing_reservation c io f h = Inr r"
  shows "r = Ambiguous \<or> r = Conflict"
  using assms
  by (auto simp: existing_reservation_def in_progress_def
      split: option.splits if_splits list.splits receipt_entry.splits)

text \<open>What a fresh reservation leaves behind.\<close>

lemma reserve_fresh:
  assumes "reserve c io s i v = (s', Inr (Fresh h))"
  shows "hash_json c v = Inr h" and "\<exists>f. om_get (st_disk s') (receipt_path c i) = Some f \<and>
    entry_line c (EStarted RECEIPT_VERSION h) = Inr (f_bytes f) \<and> f_modified f = io_stamp io"
  using assms
proof (atomize (full), cases rule: reserve_cases)
  case (existing u h' f)
  then show "hash_json c v = Inr h \<and> (\<exists>f. om_get (st_disk s') (receipt_path c i) = Some f \<and>
    entry_line c (EStarted RECEIPT_VERSION h) = Inr (f_bytes f) \<and> f_modified f = io_stamp io)"
    using existing_not_fresh by metis
next
  case (room s1 u h' line s2 u2)
  then show "hash_json c v = Inr h \<and> (\<exists>f. om_get (st_disk s') (receipt_path c i) = Some f \<and>
    entry_line c (EStarted RECEIPT_VERSION h) = Inr (f_bytes f) \<and> f_modified f = io_stamp io)"
    using existing_not_fresh [of c io]
    by (auto simp: create_receipt_def put_file_def split: option.splits prod.splits)
qed auto


section \<open>The bytes of a store\<close>

definition file_size :: "disk \<Rightarrow> rstr \<Rightarrow> nat" where
  "file_size d k = (case om_get d k of
     None \<Rightarrow> 0 | Some f \<Rightarrow> if is_receipt k then length (f_bytes f) else 0)"

definition receipt_bytes :: "disk \<Rightarrow> nat" where
  "receipt_bytes d = sum (file_size d) (fst ` set d)"

lemma file_size_update:
  "file_size (om_insert k f d) = (file_size d)(k := if is_receipt k then length (f_bytes f) else 0)"
  by (auto simp: file_size_def fun_eq_iff)

lemma file_size_missing: "k \<notin> fst ` set d \<Longrightarrow> file_size d k = 0"
  by (simp add: file_size_def map_of_eq_None_iff [THEN iffD2])

lemma receipt_bytes_superset:
  assumes "finite A" and "fst ` set d \<subseteq> A"
  shows "receipt_bytes d = sum (file_size d) A"
  unfolding receipt_bytes_def using assms
  by (intro sum.mono_neutral_left) (auto simp: file_size_missing)

lemma receipt_bytes_insert:
  assumes "is_receipt k"
  shows "receipt_bytes (om_insert k f d) + file_size d k = receipt_bytes d + length (f_bytes f)"
proof -
  let ?A = "insert k (fst ` set d)"
  have "receipt_bytes (om_insert k f d) = sum (file_size (om_insert k f d)) ?A"
    by (simp add: receipt_bytes_def)
  also have "\<dots> = length (f_bytes f) + sum (file_size d) (?A - {k})"
    using assms by (simp add: sum.remove [of ?A k] file_size_update)
  moreover have "receipt_bytes d = file_size d k + sum (file_size d) (?A - {k})"
    by (subst receipt_bytes_superset [of ?A]) (auto simp: sum.remove [of ?A k])
  ultimately show ?thesis by simp
qed

lemma file_size_le: "file_size d k \<le> receipt_bytes d"
  by (cases "k \<in> fst ` set d")
     (auto simp: receipt_bytes_def file_size_missing intro: member_le_sum)

lemma file_size_removed:
  "om_wf d \<Longrightarrow> file_size (om_remove k d) = (file_size d)(k := 0)"
  by (auto simp: file_size_def map_of_om_remove fun_eq_iff)

lemma receipt_bytes_mono:
  assumes "\<And>k. file_size d' k \<le> file_size d k"
  shows "receipt_bytes d' \<le> receipt_bytes d"
proof -
  let ?A = "fst ` set d \<union> fst ` set d'"
  have "receipt_bytes d' = sum (file_size d') ?A" "receipt_bytes d = sum (file_size d) ?A"
    by (intro receipt_bytes_superset; auto)+
  then show ?thesis using assms by (simp add: sum_mono)
qed

lemma unat_byte_len: "length l < 2 ^ 64 \<Longrightarrow> unat (byte_len l) = length l"
  by (simp add: byte_len_def unat_of_nat take_bit_nat_eq_self)

text \<open>Saturating sums that stay below the top are exact.\<close>

lemma sat_add_below:
  fixes a b c :: "64 word"
  assumes "sat_add a b \<le> c" and "unat c + 1 < 2 ^ 64"
  shows "unat a + unat b \<le> unat c" and "unat (a + b) = unat a + unat b"
proof -
  have "min (unat a + unat b) (2 ^ 64 - 1) \<le> unat c"
    using assms(1) unat_sat_add [of a b] by (simp add: word_le_nat_alt)
  then show le: "unat a + unat b \<le> unat c" using assms(2) by linarith
  then have "unat a + unat b < 2 ^ LENGTH(64)" using assms(2) by simp
  then show "unat (a + b) = unat a + unat b" by (simp add: unat_add_lem [symmetric])
qed

definition names_size :: "disk \<Rightarrow> (rstr + rstr) list \<Rightarrow> nat" where
  "names_size d es = sum_list (map (\<lambda>e. case e of Inl _ \<Rightarrow> 0 | Inr k \<Rightarrow> file_size d k) es)"

lemma names_size_Cons [simp]:
  "names_size d (Inr k # es) = file_size d k + names_size d es"
  "names_size d [] = 0"
  by (simp_all add: names_size_def)

lemma names_size_listing:
  assumes "listing_ok d0 es" and "\<forall>error. Inl error \<notin> set es" and "fst ` set d \<subseteq> fst ` set d0"
  shows "names_size d es = receipt_bytes d"
proof -
  let ?g = "\<lambda>e. case e of Inl _ \<Rightarrow> 0 | Inr k \<Rightarrow> file_size d k"
  let ?A = "projr ` set es"
  have inj: "inj_on projr (set es)"
    using assms(2) by (auto intro!: inj_onI) (metis sum.collapse(2) sum.exhaust_disc sum.disc_eq_case(1) isl_def)
  have "names_size d es = sum ?g (set es)"
    using assms(1) by (simp add: names_size_def listing_ok_def sum_list_distinct_conv_sum_set)
  also have "\<dots> = sum (file_size d) ?A"
    using assms(2) by (subst sum.reindex [OF inj]) (auto intro!: sum.cong split: sum.splits)
  also have "\<dots> = receipt_bytes d"
    using assms by (intro receipt_bytes_superset [symmetric])
      (force simp: listing_ok_def image_iff)+
  finally show ?thesis .
qed

lemma sum_usage_listing: "sum_usage io d es u = Inr u' \<Longrightarrow> Inl error \<notin> set es"
  by (induction io d es u rule: sum_usage.induct) (auto split: if_splits option.splits)

lemma sum_usage_exact:
  assumes "sum_usage io d es u = Inr u'" and "unat u + names_size d es < 2 ^ 64"
  shows "unat u' = unat u + names_size d es \<and> (\<forall>error. Inl error \<notin> set es)"
  using assms
proof (induction io d es u rule: sum_usage.induct)
  case (3 io d name es u)
  show ?case
  proof (cases "is_receipt name")
    case False
    then have "file_size d name = 0" by (simp add: file_size_def split: option.split)
    then show ?thesis using 3 False by auto
  next
    case True
    then obtain f where f: "io_stat io name = None" "om_get d name = Some f"
        "sum_usage io d es (sat_add u (byte_len (f_bytes f))) = Inr u'"
      using 3(3) by (auto split: option.splits)
    have size: "file_size d name = length (f_bytes f)" using f(2) True by (simp add: file_size_def)
    then have len: "unat (byte_len (f_bytes f)) = length (f_bytes f)"
      using 3(4) by (intro unat_byte_len) simp
    have u: "unat (sat_add u (byte_len (f_bytes f))) = unat u + length (f_bytes f)"
      using 3(4) size by (simp add: unat_sat_add len)
    show ?thesis
      using 3(2) [OF _ _ f(1,2)] True f(3) u 3(4) size by auto
  qed
qed auto


lemma evict_loop_others:
  assumes "evict_loop c io es u s = (s', r)" and "om_wf (st_disk s)"
  shows "om_wf (st_disk s') \<and> fst ` set (st_disk s') \<subseteq> fst ` set (st_disk s) \<and>
    (\<forall>k. file_size (st_disk s') k \<le> file_size (st_disk s) k) \<and>
    (\<forall>k. Inr k \<notin> set es \<longrightarrow> om_get (st_disk s') k = om_get (st_disk s) k) \<and>
    (\<forall>v. st_usage s' = Some v \<longrightarrow> st_usage s = Some v \<or> r = Inr v)"
  using assms
proof (induction es arbitrary: u s)
  case (Cons e es)
  show ?case
  proof (cases e)
    case (Inl error)
    then show ?thesis using Cons.prems by auto
  next
    case (Inr name)
    from Cons.prems(1) [unfolded Inr] show ?thesis
    proof (cases rule: evict_loop_entry)
      case (stopped error)
      then show ?thesis using Cons.prems(2) by auto
    next
      case (evicted f)
      let ?d = "om_remove name (st_disk s)"
      have sizes: "file_size ?d k \<le> file_size (st_disk s) k" for k
        using Cons.prems(2) by (simp add: file_size_removed)
      have gets: "om_get ?d k = om_get (st_disk s) k" if "k \<noteq> name" for k
        using that Cons.prems(2) by (simp add: map_of_om_remove)
      have keys: "fst ` set ?d \<subseteq> fst ` set (st_disk s)"
        by (rule image_mono [OF set_om_remove_subset])
      have wf: "om_wf ?d" using Cons.prems(2) by simp
      have same: "st_disk (s\<lparr>st_disk := ?d\<rparr>) = ?d" "st_usage (s\<lparr>st_disk := ?d\<rparr>) = st_usage s"
        by simp_all
      note IH0 = Cons.IH [OF evicted(4), unfolded same, OF wf]
      then have IH: "om_wf (st_disk s')" "fst ` set (st_disk s') \<subseteq> fst ` set ?d"
          "\<And>k. file_size (st_disk s') k \<le> file_size ?d k"
          "\<And>k. Inr k \<notin> set es \<Longrightarrow> om_get (st_disk s') k = om_get ?d k"
          "\<And>v. st_usage s' = Some v \<Longrightarrow> st_usage s = Some v \<or> r = Inr v"
        by blast+
      have "file_size (st_disk s') k \<le> file_size (st_disk s) k" for k
        using IH(3) [of k] sizes [of k] by linarith
      moreover have "om_get (st_disk s') k = om_get (st_disk s) k" if "Inr k \<notin> set (e # es)" for k
        using that IH(4) [of k] gets [of k] Inr by auto
      ultimately show ?thesis
        using IH(1,5) subset_trans [OF IH(2) keys] by blast
    qed (use Cons Inr in \<open>auto\<close>)
  qed
qed auto

lemma evict_loop_listing:
  "evict_loop c io es u s = (s', Inr v) \<Longrightarrow> \<forall>error. Inl error \<notin> set es"
proof (induction es arbitrary: u s)
  case (Cons e es)
  show ?case
  proof (cases e)
    case (Inl error)
    then show ?thesis using Cons.prems by simp
  next
    case (Inr name)
    from Cons.prems [unfolded Inr] show ?thesis
      by (cases rule: evict_loop_entry) (use Cons.IH Inr in auto)
  qed
qed simp

lemma evict_loop_exact:
  assumes "evict_loop c io es u s = (s', Inr u')" and "om_wf (st_disk s)" and "distinct es"
    and "unat u + names_size (st_disk s) es < 2 ^ 64"
  shows "unat u' = unat u + names_size (st_disk s') es \<and> (\<forall>error. Inl error \<notin> set es)"
  using assms
proof (induction es arbitrary: u s)
  case (Cons e es)
  show ?case
  proof (cases e)
    case (Inl error)
    then show ?thesis using Cons.prems(1) by simp
  next
    case (Inr name)
    have fresh: "Inr name \<notin> set es" "distinct es" using Cons.prems(3) Inr by auto
    from Cons.prems(1) [unfolded Inr] show ?thesis
    proof (cases rule: evict_loop_entry)
      case skipped
      then have "file_size d name = 0" for d by (simp add: file_size_def split: option.split)
      then show ?thesis using Cons skipped fresh Inr by auto
    next
      case (evicted f)
      let ?s = "s\<lparr>st_disk := om_remove name (st_disk s)\<rparr>"
      note others = evict_loop_others [OF evicted(4)]
      have wf: "om_wf (st_disk ?s)" using Cons.prems(2) by simp
      have "om_get (st_disk s') name = om_get (st_disk ?s) name" using others fresh wf by blast
      then have gone: "file_size (st_disk s') name = 0"
        using Cons.prems(2) by (simp add: file_size_def map_of_om_remove)
      have "names_size (st_disk ?s) es \<le> names_size (st_disk s) es"
        unfolding names_size_def using Cons.prems(2)
        by (intro sum_list_mono) (simp add: file_size_removed split: sum.split)
      then have "unat u + names_size (st_disk ?s) es < 2 ^ 64"
        using Cons.prems(4) Inr by simp
      then show ?thesis using Cons.IH [OF evicted(4) wf fresh(2)] gone Inr by simp
    next
      case (kept f)
      have "om_get (st_disk s') name = om_get (st_disk s) name"
        using evict_loop_others [OF kept(4) Cons.prems(2)] fresh by blast
      then have sizes: "file_size (st_disk s') name = length (f_bytes f)"
          "file_size (st_disk s) name = length (f_bytes f)"
        using kept(1,2) by (simp_all add: file_size_def)
      then have "unat (byte_len (f_bytes f)) = length (f_bytes f)"
        using Cons.prems(4) Inr by (intro unat_byte_len) simp
      then have "unat (sat_add u (byte_len (f_bytes f))) = unat u + length (f_bytes f)"
        using Cons.prems(4) Inr sizes by (simp add: unat_sat_add)
      then show ?thesis
        using Cons.IH [OF kept(4) Cons.prems(2) fresh(2)] Cons.prems(4) Inr sizes by simp
    qed auto
  qed
qed auto

section \<open>The capacity is never exceeded\<close>

definition within_capacity :: "store \<Rightarrow> bool" where
  "within_capacity s \<longleftrightarrow> om_wf (st_disk s) \<and> unat (st_capacity s) + 1 < 2 ^ 64 \<and>
     receipt_bytes (st_disk s) \<le> unat (st_capacity s) \<and>
     (\<forall>u. st_usage s = Some u \<longrightarrow> receipt_bytes (st_disk s) \<le> unat u)"

lemma store_usage_within:
  assumes "store_usage io s = (s', r)" and "within_capacity s" and "env_ok io (st_disk s)"
  shows "within_capacity s' \<and> (\<forall>u. r = Inr u \<longrightarrow> receipt_bytes (st_disk s) \<le> unat u)"
proof -
  have "receipt_bytes (st_disk s) = unat u"
    if "io_usage_dir io = Inr es" and "sum_usage io (st_disk s) es 0 = Inr u" for es u
  proof -
    let ?d = "st_disk s"
    have listing: "listing_ok ?d es" using assms(3) that(1) by (simp add: env_ok_def)
    have noerr: "Inl error \<notin> set es" for error
      using sum_usage_listing [OF that(2)] by blast
    have "names_size ?d es = receipt_bytes ?d"
      using names_size_listing [OF listing] noerr by blast
    then show ?thesis
      using sum_usage_exact [OF that(2)] assms(2) by (simp add: within_capacity_def)
  qed
  then show ?thesis
    using assms(1,2)
    by (auto simp: store_usage_def within_capacity_def result_simps
        split: option.splits sum.splits)
qed


lemma make_room_within:
  assumes "make_room c io s u line = (s', r)" and "within_capacity s" and "env_ok io (st_disk s)"
    and "receipt_bytes (st_disk s) \<le> unat u"
  shows "within_capacity s' \<and> (\<forall>v. r = Inr (Some v) \<longrightarrow>
    receipt_bytes (st_disk s') \<le> unat v \<and> sat_add v (byte_len line) \<le> st_capacity s')"
proof (cases "sat_add u (byte_len line) \<le> st_capacity s")
  case True
  then show ?thesis using assms by (auto simp: make_room_def)
next
  case False
  obtain s1 res where evict: "evict_settled_receipts c io s = (s1, res)"
    by (cases "evict_settled_receipts c io s")
  have wf: "om_wf (st_disk s)" using assms(2) by (simp add: within_capacity_def)
  have s': "s' = s1"
    using assms(1) evict False by (auto simp: make_room_def split: sum.splits if_splits)
  have exact: "within_capacity s1 \<and> (\<forall>v. res = Inr v \<longrightarrow> receipt_bytes (st_disk s1) \<le> unat v)"
  proof (cases "io_evict_dir io")
    case (Inl error)
    then show ?thesis using evict assms(2) by (auto simp: evict_settled_receipts_def)
  next
    case (Inr es)
    then have loop: "evict_loop c io es 0 s = (s1, res)"
      using evict by (simp add: evict_settled_receipts_def)
    note others = evict_loop_others [OF loop wf]
    have listing: "listing_ok (st_disk s) es" using assms(3) Inr by (simp add: env_ok_def)
    have less: "receipt_bytes (st_disk s1) \<le> receipt_bytes (st_disk s)"
      using others by (intro receipt_bytes_mono) blast
    have "receipt_bytes (st_disk s1) = unat v" if v: "res = Inr v" for v
    proof -
      have "names_size (st_disk s) es \<le> receipt_bytes (st_disk s)"
        using names_size_listing [OF listing, of "st_disk s"]
          evict_loop_listing [OF loop [unfolded v]] by simp
      then have "unat v = names_size (st_disk s1) es \<and> (\<forall>error. Inl error \<notin> set es)"
        using evict_loop_exact [OF loop [unfolded v] wf] listing assms(2)
        by (simp add: listing_ok_def within_capacity_def)
      then show ?thesis
        using names_size_listing [OF listing] others by metis
    qed
    then show ?thesis
      using less others assms(2) evict_keeps [OF evict wf]
      by (auto simp: within_capacity_def) 
  qed
  then show ?thesis
    using assms(1) evict False s'
    by (auto simp: make_room_def split: sum.splits if_splits)
qed


text \<open>Writing a line that was found to fit, whole or in part.\<close>

lemma write_within:
  assumes "within_capacity s" and "receipt_bytes (st_disk s) \<le> unat u"
    and "sat_add u (byte_len line) \<le> st_capacity s" and "length line < 2 ^ 64"
    and "is_receipt path" and "length bytes \<le> file_size (st_disk s) path + length line"
  shows "within_capacity ((put_file io path bytes s)\<lparr>st_usage := None\<rparr>)"
    and "within_capacity ((put_file io path bytes s)\<lparr>st_usage := Some (u + byte_len line)\<rparr>)"
proof -
  have top: "unat (st_capacity s) + 1 < 2 ^ 64" using assms(1) by (simp add: within_capacity_def)
  note sums = sat_add_below [OF assms(3) top] unat_byte_len [OF assms(4)]
  have "receipt_bytes (st_disk (put_file io path bytes s)) \<le> receipt_bytes (st_disk s) + length line"
    using receipt_bytes_insert [OF assms(5), of "\<lparr>f_bytes = bytes, f_modified = io_stamp io\<rparr>"
        "st_disk s"] assms(6) by (simp add: put_file_def)
  then show "within_capacity ((put_file io path bytes s)\<lparr>st_usage := None\<rparr>)"
    and "within_capacity ((put_file io path bytes s)\<lparr>st_usage := Some (u + byte_len line)\<rparr>)"
    using sums assms(1,2) by (auto simp: within_capacity_def put_file_def)
qed

lemma create_within:
  assumes "create_receipt c io path line u h s = (s', r)" and "within_capacity s"
    and "receipt_bytes (st_disk s) \<le> unat u" and "sat_add u (byte_len line) \<le> st_capacity s"
    and "length line < 2 ^ 64" and "is_receipt path"
  shows "within_capacity s'"
  using assms(1,2) write_within [OF assms(2-6), of line io]
    write_within [OF assms(2-6), of "take n line" io for n]
  by (auto simp: create_receipt_def split: option.splits prod.splits)

lemma reserve_within:
  assumes "reserve c io s i v = (s', r)" and "codec_ok c" and "within_capacity s"
    and "env_ok io (st_disk s)"
  shows "within_capacity s'"
proof -
  have usage: "within_capacity s1 \<and> env_ok io (st_disk s1) \<and>
      (\<forall>u. r1 = Inr u \<longrightarrow> receipt_bytes (st_disk s1) \<le> unat u)"
    if "store_usage io s = (s1, r1)" for s1 r1
    using store_usage_within [OF that assms(3,4)] store_usage_disk [OF that] assms(4) by simp
  from assms(1) show ?thesis
  proof (cases rule: reserve_cases)
    case (failed error)
    then show ?thesis
      using usage [of "fst (store_usage io s)" "snd (store_usage io s)"] assms(3) by auto
  next
    case (existing u h f)
    then show ?thesis using usage by blast
  next
    case (no_room s1 u h line)
    then show ?thesis
      using usage [OF no_room(1)] make_room_within [of c io s1 u line s'] by blast
  next
    case (room s1 u h line s2 u2)
    then have "within_capacity s2" "receipt_bytes (st_disk s2) \<le> unat u2"
        "sat_add u2 (byte_len line) \<le> st_capacity s2"
      using usage [OF room(1)] make_room_within [OF room(4)] by blast+
    moreover have "length line < 2 ^ 64"
      using entry_line_Inr [OF assms(2) room(3), of "[]"] by force
    ultimately show ?thesis
      using create_within [OF room(5)] receipt_path_is_receipt [OF assms(2)] by blast
  qed
qed

lemma complete_within:
  assumes "complete c io s i h p t = (s', r)" and "codec_ok c" and "within_capacity s"
    and "env_ok io (st_disk s)"
  shows "within_capacity s'"
  using assms(1)
proof (cases rule: complete_cases)
  case unchanged
  then show ?thesis
    using store_usage_within [of io s s' "snd (store_usage io s)"] assms(3,4)
    by (simp add: prod_eq_iff)
next
  case (appended s1 u e line f)
  have s1: "within_capacity s1" "receipt_bytes (st_disk s1) \<le> unat u"
    using store_usage_within [OF appended(1) assms(3,4)] store_usage_disk [OF appended(1)] by auto
  have fits: "sat_add u (byte_len line) \<le> st_capacity s1"
    using appended(4) by (simp add: fits_receipt_def)
  have len: "length line < 2 ^ 64"
    using entry_line_Inr [OF assms(2) appended(2), of "[]"] by force
  have receipt: "is_receipt (receipt_path c i)" using receipt_path_is_receipt [OF assms(2)] .
  have "file_size (st_disk s1) (receipt_path c i) = length (f_bytes f)"
    using appended(3) store_usage_disk [OF appended(1)] receipt by (simp add: file_size_def)
  then show ?thesis
    using appended(5) s1(1) write_within [OF s1 fits len receipt, of "f_bytes f @ line" io]
      write_within [OF s1 fits len receipt, of "f_bytes f @ take n line" io for n]
    by (auto simp: append_receipt_def split: option.splits prod.splits)
qed

lemma move_capacity:
  assumes "store_moves c P Q s t" and "om_wf (st_disk s)"
  shows "st_capacity t = st_capacity s"
  using assms by (cases rule: store_moves.cases) (auto dest: reserve_keeps complete_keeps)

interpretation receipts: state_machine "store_moves c P Q" "\<lambda>s. codec_ok c \<longrightarrow> within_capacity s"
proof
  fix s t :: store
  assume "store_moves c P Q s t" and "codec_ok c \<longrightarrow> within_capacity s"
  then show "codec_ok c \<longrightarrow> within_capacity t"
    by (cases rule: store_moves.cases)
       (auto dest: reserve_within complete_within simp: within_capacity_def [of "_\<lparr>st_usage := _\<rparr>"],
        simp_all add: within_capacity_def)
qed


section \<open>Completed receipts\<close>

lemma complete_recorded:
  assumes "complete c io s i h (Inr ps) t = (s', Inr ())"
    and "om_get (st_disk s) (receipt_path c i) = Some f"
    and "store_usage io s = (s1, Inr u)"
    and "entry_line c (ECompleted RECEIPT_VERSION h ps t) = Inr line"
    and "fits_receipt s1 u (byte_len (f_bytes f)) line" and "om_wf (st_disk s)"
  shows "om_wf (st_disk s') \<and> om_get (st_disk s') (receipt_path c i)
    = Some \<lparr>f_bytes = f_bytes f @ line, f_modified = io_stamp io\<rparr>"
  using assms store_usage_disk [OF assms(3)]
  by (auto simp: complete_def Let_def completion_entry_def append_receipt_def put_file_def
      split: option.splits prod.splits)

lemma existing_completed:
  assumes "codec_ok c" and "entry_line c (EStarted RECEIPT_VERSION h) = Inr started"
    and "entry_line c (ECompleted RECEIPT_VERSION h ps t) = Inr line"
    and "\<And>l. entry_vec c (ECompleted RECEIPT_VERSION h ps t) = Inr l \<Longrightarrow>
      entry_str c l = Some (ECompleted RECEIPT_VERSION h ps t)"
    and "f_bytes f = started @ line" and "sat_add (byte_len started) (byte_len line) \<le> MAX_RECEIPT_BYTES"
    and "existing_reservation c io f h' = Inr r"
  shows "r = (if h' = h then Replay ps t else Conflict)"
proof -
  obtain l where l: "entry_vec c (EStarted RECEIPT_VERSION h) = Inr l"
      "str_lines (started @ line) = l # str_lines line" "length started \<le> 2 ^ 62"
    using entry_line_Inr [OF assms(1,2), of line] by blast
  obtain m where m: "entry_vec c (ECompleted RECEIPT_VERSION h ps t) = Inr m"
      "str_lines line = [m]" "length line \<le> 2 ^ 62"
    using entry_line_Inr [OF assms(1,3), of "[]"] by (metis append_Nil2 str_lines_Nil)
  have dec: "entry_str c l = Some (EStarted RECEIPT_VERSION h)"
      "entry_str c m = Some (ECompleted RECEIPT_VERSION h ps t)"
    using assms(1) l(1) assms(4) [OF m(1)] by (auto simp: codec_ok_def)
  have "unat (MAX_RECEIPT_BYTES) + 1 < 2 ^ 64" by (simp add: MAX_RECEIPT_BYTES_def)
  from sat_add_below [OF assms(6) this]
  have "byte_len (f_bytes f) \<le> MAX_RECEIPT_BYTES"
    using assms(5) by (simp add: byte_len_def word_le_nat_alt)
  then have "\<not> MAX_RECEIPT_BYTES < byte_len (f_bytes f)" by simp
  then show ?thesis
    using assms(5,7) l(2) m(2) dec
    by (auto simp: existing_reservation_def split: option.splits if_splits)
qed

section \<open>An example\<close>

text \<open>
  A codec for hashes that fit on a line and one terminal response, and an environment in which
  nothing fails.
\<close>

definition example_terminal :: "unit response" where
  "example_terminal = response_result (Some ''r1'') ''plugin_result'' ()"

definition on_line :: "rstr \<Rightarrow> rstr + rstr" where
  "on_line l = (if CHR 0x0A \<notin> set l \<and> last l \<noteq> CHR 0x0D \<and> length l < 1000 then Inr l else Inl ''bad'')"

fun example_vec :: "unit receipt_entry \<Rightarrow> rstr + rstr" where
  "example_vec (EStarted v h) = on_line (CHR ''S'' # h)"
| "example_vec (ECompleted v h ps t) =
     (if ps = [] \<and> t = example_terminal then on_line (CHR ''C'' # h) else Inl ''bad'')"
| "example_vec (EUnavailable v h r) = on_line (CHR ''U'' # h)"

fun example_str :: "rstr \<Rightarrow> unit receipt_entry option" where
  "example_str [] = None"
| "example_str (x # h) =
     (if x = CHR ''S'' then Some (EStarted RECEIPT_VERSION h)
      else if x = CHR ''C'' then Some (ECompleted RECEIPT_VERSION h [] example_terminal)
      else if x = CHR ''U'' then Some (EUnavailable RECEIPT_VERSION h CaptureLimit)
      else None)"

definition example_codec :: "unit codec" where
  "example_codec = \<lparr>entry_vec = example_vec, entry_str = example_str,
     value_vec = (\<lambda>_. Inr ''null''), sha256_hex = (\<lambda>x. ''h'' @ x)\<rparr>"

definition example_io :: io where
  "example_io = \<lparr>io_mkdir = None, io_usage_dir = Inr [], io_evict_dir = Inr [],
     io_stat = (\<lambda>_. None), io_hidden = False, io_open = None, io_read = None,
     io_unreadable = (\<lambda>_. False), io_remove = (\<lambda>_. Removed), io_write = None,
     io_sync_dir = None, io_now = 10, io_stamp = Some 10\<rparr>"

definition example_store :: store where
  "example_store = store_new []"

definition started_store :: store where
  "started_store = fst (reserve example_codec example_io example_store ''r1'' ())"

definition finished_store :: store where
  "finished_store = fst (complete example_codec example_io started_store ''r1'' ''hnull'' (Inr [])
     example_terminal)"

lemma on_line_Inr: "on_line l = Inr m \<longleftrightarrow>
    m = l \<and> CHR 0x0A \<notin> set l \<and> last l \<noteq> CHR 0x0D \<and> length l < 1000"
  by (auto simp: on_line_def)

lemma example_vec_Inr:
  "example_vec e = Inr l \<Longrightarrow> l \<noteq> [] \<and> CHR 0x0A \<notin> set l \<and> last l \<noteq> CHR 0x0D \<and> length l < 1000"
  by (cases e) (auto simp: on_line_Inr split: if_splits)

lemma example_codec_ok: "codec_ok example_codec"
proof -
  have "length l < 2 ^ 62" if "example_vec e = Inr l" for e l
    using example_vec_Inr [OF that] by simp
  then show ?thesis
    using example_vec_Inr by (auto simp: codec_ok_def example_codec_def on_line_Inr)
qed

lemma example_env_ok: "env_ok example_io (st_disk example_store)"
  by (simp add: env_ok_def listing_ok_def example_io_def example_store_def store_new_def)

lemma example_fresh:
  "reserve example_codec example_io example_store ''r1'' () = (started_store, Inr (Fresh ''hnull''))"
proof -
  have "snd (reserve example_codec example_io example_store ''r1'' ()) = Inr (Fresh ''hnull'')"
    by code_simp
  then show ?thesis by (simp add: started_store_def prod_eq_iff)
qed


section \<open>Properties\<close>

text \<open>
  C23. Work that was started is never started twice. Once a reservation of a request id was
  fresh, no later reservation of it is fresh until the request is completed: whatever other
  calls, evictions, restarts and failures of the file system come in between, it is answered by
  a refusal or an error.
\<close>

theorem started_work_never_restarted:
  assumes "codec_ok c" and "om_wf (st_disk s)"
    and "reserve c io s i v = (s1, Inr (Fresh h))"
    and "(store_moves c (\<lambda>q. q \<noteq> receipt_path c i) (\<lambda>_. True))\<^sup>*\<^sup>* s1 s2"
    and "reserve c io' s2 i v' = (s3, r)"
  shows "r \<in> {Inr Ambiguous, Inr Conflict, Inr CapacityExhausted} \<or> (\<exists>error. r = Inl error)"
proof -
  obtain f where f: "om_get (st_disk s1) (receipt_path c i) = Some f"
      "entry_line c (EStarted RECEIPT_VERSION h) = Inr (f_bytes f)"
    using reserve_fresh(2) [OF assms(3)] by blast
  have live: "in_progress f" using started_in_progress [OF assms(1) f(2)] .
  have "om_wf (st_disk s1)" using reserve_keeps [OF assms(3,2)] by blast
  then have stays: "om_wf (st_disk s2)" "om_get (st_disk s2) (receipt_path c i) = Some f"
    using receipt_stays [OF assms(4) _ f(1)] in_progress_not_evictable [OF live] by blast+
  show ?thesis
    using reserve_present [OF assms(5) stays in_progress_not_evictable [OF live]]
      existing_in_progress [OF live, of c io'] by (cases r) (auto, metis)
qed

theorem started_work_never_restarted_witness:
  "snd (reserve example_codec example_io (started_store\<lparr>st_usage := None\<rparr>) ''r1'' ()) = Inr Ambiguous"
proof -
  let ?s = "started_store\<lparr>st_usage := None\<rparr>"
  have "om_wf (st_disk example_store)" by (simp add: example_store_def store_new_def)
  moreover have "(store_moves example_codec (\<lambda>q. q \<noteq> receipt_path example_codec ''r1'')
      (\<lambda>_. True))\<^sup>*\<^sup>* started_store ?s"
    by (rule r_into_rtranclp) (rule restarts)
  ultimately have "snd (reserve example_codec example_io ?s ''r1'' ())
      \<in> {Inr Ambiguous, Inr Conflict, Inr CapacityExhausted} \<or>
    (\<exists>error. snd (reserve example_codec example_io ?s ''r1'' ()) = Inl error)"
    using started_work_never_restarted [OF example_codec_ok _ example_fresh _ prod.collapse [symmetric]]
    by blast
  moreover have "case snd (reserve example_codec example_io ?s ''r1'' ()) of
      Inl _ \<Rightarrow> False | Inr x \<Rightarrow> x \<noteq> Conflict \<and> x \<noteq> CapacityExhausted"
    by code_simp
  ultimately show ?thesis by auto
qed

text \<open>
  C24. A completed request is answered from its receipt. When the completion of a started request
  found room for its entry, every reservation without an I/O error during the next hour replays
  exactly the recorded frames and response for the same work, and is a conflict for other work;
  other calls, evictions and restarts do not matter. JSON round trip of the recorded entry is
  a hypothesis.
\<close>

theorem completed_request_replays:
  assumes "codec_ok c" and "om_wf (st_disk s)"
    and "om_get (st_disk s) (receipt_path c i) = Some f"
    and "entry_line c (EStarted RECEIPT_VERSION h) = Inr (f_bytes f)"
    and "store_usage io s = (s0, Inr u)"
    and "entry_line c (ECompleted RECEIPT_VERSION h ps t) = Inr line"
    and "\<And>l. entry_vec c (ECompleted RECEIPT_VERSION h ps t) = Inr l \<Longrightarrow>
      entry_str c l = Some (ECompleted RECEIPT_VERSION h ps t)"
    and "fits_receipt s0 u (byte_len (f_bytes f)) line" and "io_stamp io = Some m"
    and "complete c io s i h (Inr ps) t = (s1, Inr ())"
    and "(store_moves c (\<lambda>q. q \<noteq> receipt_path c i)
      (\<lambda>io. io_now io \<le> m + SETTLED_RECEIPT_RETENTION))\<^sup>*\<^sup>* s1 s2"
    and "reserve c io' s2 i v' = (s3, Inr r)" and "hash_json c v' = Inr h'"
    and "io_now io' \<le> m + SETTLED_RECEIPT_RETENTION" and "\<not> io_hidden io'"
  shows "r = (if h' = h then Replay ps t else Conflict)"
proof -
  let ?f = "\<lparr>f_bytes = f_bytes f @ line, f_modified = io_stamp io\<rparr>"
  have young: "\<not> evictable c io2 (receipt_path c i) ?f"
    if "io_now io2 \<le> m + SETTLED_RECEIPT_RETENTION" for io2
    using that assms(9) by (auto simp: evictable_def expired_def)
  have "om_wf (st_disk s1) \<and> om_get (st_disk s1) (receipt_path c i) = Some ?f"
    using complete_recorded [OF assms(10,3,5,6,8,2)] .
  then have stays: "om_get (st_disk s2) (receipt_path c i) = Some ?f"
    using receipt_stays [OF assms(11)] young by blast
  obtain s2' u2 where usage: "store_usage io' s2 = (s2', Inr u2)" "io_mkdir io' = None"
    using assms(12) by (auto simp: reserve_def split: option.splits prod.splits sum.splits)
  then have "om_get (st_disk s2') (receipt_path c i) = Some ?f"
    using stays store_usage_disk by metis
  then have "existing_reservation c io' ?f h' = Inr r"
    using assms(12,13,15) usage by (simp add: reserve_def Let_def)
  then show ?thesis
    using existing_completed [OF assms(1,4,6,7), of ?f] assms(8) by (simp add: fits_receipt_def)
qed

theorem completed_request_replays_witness:
  "snd (reserve example_codec example_io (finished_store\<lparr>st_usage := None\<rparr>) ''r1'' ())
     = Inr (Replay [] example_terminal)"
proof -
  let ?s = "finished_store\<lparr>st_usage := None\<rparr>"
  obtain f where f: "om_get (st_disk started_store) (receipt_path example_codec ''r1'') = Some f"
      "entry_line example_codec (EStarted RECEIPT_VERSION ''hnull'') = Inr (f_bytes f)"
    using reserve_fresh(2) [OF example_fresh] by blast
  have bytes: "f_bytes f = ''Shnull'' @ [CHR 0x0A]"
  proof -
    have "map_option f_bytes (om_get (st_disk started_store) (receipt_path example_codec ''r1''))
        = Some (''Shnull'' @ [CHR 0x0A])" by code_simp
    then show ?thesis using f(1) by simp
  qed
  have usage: "store_usage example_io started_store = (started_store, Inr 7)" by code_simp
  have line: "entry_line example_codec (ECompleted RECEIPT_VERSION ''hnull'' [] example_terminal)
      = Inr (''Chnull'' @ [CHR 0x0A])" by code_simp
  have trip: "entry_str example_codec l = Some (ECompleted RECEIPT_VERSION ''hnull'' [] example_terminal)"
    if "entry_vec example_codec (ECompleted RECEIPT_VERSION ''hnull'' [] example_terminal) = Inr l"
    for l using that by (simp add: example_codec_def on_line_Inr)
  have fits: "fits_receipt started_store 7 (byte_len (f_bytes f)) (''Chnull'' @ [CHR 0x0A])"
    unfolding bytes by code_simp
  have finished: "complete example_codec example_io started_store ''r1'' ''hnull'' (Inr []) example_terminal
      = (finished_store, Inr ())"
  proof -
    have "snd (complete example_codec example_io started_store ''r1'' ''hnull'' (Inr [])
        example_terminal) = Inr ()" by code_simp
    then show ?thesis by (simp add: finished_store_def prod_eq_iff)
  qed
  have wf: "om_wf (st_disk started_store)"
    using reserve_keeps [OF example_fresh] by (simp add: example_store_def store_new_def)
  have moves: "(store_moves example_codec (\<lambda>q. q \<noteq> receipt_path example_codec ''r1'')
      (\<lambda>io. io_now io \<le> 10 + SETTLED_RECEIPT_RETENTION))\<^sup>*\<^sup>* finished_store ?s"
    by (rule r_into_rtranclp) (rule restarts)
  have "map_sum (\<lambda>e. ()) (\<lambda>r. ()) (snd (reserve example_codec example_io ?s ''r1'' ())) = Inr ()"
    by code_simp
  then obtain r where r: "reserve example_codec example_io ?s ''r1'' ()
      = (fst (reserve example_codec example_io ?s ''r1'' ()), Inr r)"
    by (cases "snd (reserve example_codec example_io ?s ''r1'' ())") (auto simp: prod_eq_iff)
  have "r = (if ''hnull'' = ''hnull'' then Replay [] example_terminal else Conflict)"
    by (rule completed_request_replays [OF example_codec_ok wf f usage line trip fits _ finished moves r])
       (simp_all add: example_io_def hash_json_def example_codec_def)
  then show ?thesis by (subst r) simp
qed

text \<open>
  Eviction never touches work in progress. A reservation changes or removes an existing
  receipt only when it has a terminal entry and was last modified more than an hour ago.
\<close>

lemma only_settled_receipts_evicted:
  assumes "reserve c io s i v = (s', r)" and "om_wf (st_disk s)"
    and "om_get (st_disk s) p = Some f" and "om_get (st_disk s') p \<noteq> Some f"
  shows "receipt_is_settled c (f_bytes f) \<and>
    (\<exists>m. f_modified f = Some m \<and> m + SETTLED_RECEIPT_RETENTION < io_now io)"
proof -
  have "evictable c io p f"
    using reserve_keeps [OF assms(1,2)] assms(3,4) files_keptD by blast
  then show ?thesis by (auto simp: evictable_def expired_def split: option.splits)
qed

text \<open>
  C25. The receipts never exceed the capacity. From any directory within 512 MiB, no sequence of
  calls, partial writes, failed evictions and restarts ever leaves more receipt bytes than that,
  although the usage is cached and sums saturate.
\<close>

theorem store_stays_within_capacity:
  assumes "codec_ok c" and "om_wf d" and "receipt_bytes d \<le> 512 * 1024 * 1024"
    and "(store_moves c P Q)\<^sup>*\<^sup>* (store_new d) s"
  shows "receipt_bytes (st_disk s) \<le> 512 * 1024 * 1024"
proof -
  have within: "within_capacity (store_new d)"
    using assms(2,3) by (simp add: within_capacity_def store_new_def MAX_RECEIPT_STORE_BYTES_def)
  have "within_capacity s \<and> st_capacity s = MAX_RECEIPT_STORE_BYTES"
    using assms(4)
  proof (induction rule: rtranclp_induct)
    case base
    show ?case using within by (simp add: store_new_def)
  next
    case (step t u)
    then have "within_capacity u" using receipts.inv_step [OF step.hyps(2)] assms(1) by blast
    moreover have "om_wf (st_disk t)" using step.IH by (simp add: within_capacity_def)
    ultimately show ?case using move_capacity [OF step.hyps(2)] step.IH by simp
  qed
  then have "receipt_bytes (st_disk s) \<le> unat MAX_RECEIPT_STORE_BYTES"
    unfolding within_capacity_def by metis
  then show ?thesis by (simp add: MAX_RECEIPT_STORE_BYTES_def)
qed

theorem store_stays_within_capacity_witness:
  "receipt_bytes (st_disk started_store) \<le> 512 * 1024 * 1024"
proof -
  have "store_moves example_codec (\<lambda>_. True) (\<lambda>_. True) (store_new []) started_store"
    using reserves [OF _ _ example_fresh] example_env_ok by (simp add: example_store_def)
  then show ?thesis
    using store_stays_within_capacity [OF example_codec_ok, of "[]" "\<lambda>_. True" "\<lambda>_. True"]
    by (simp add: receipt_bytes_def r_into_rtranclp)
qed

end
