(* ===== verification/CodeHost.thy ===== *)
theory CodeHost
  imports Receipts
begin

text \<open>
  The headless host: \<open>code-host/src/plugin.rs\<close>, \<open>host.rs\<close> and \<open>trajectory.rs\<close>. An invocation is
  split at its \<open>await\<close>s into steps, so that the steps of several invocations, cancellations and
  shutdowns interleave in any order. What a plugin does is an argument of the steps: the frames
  it emits and its result. JSON values, their construction by \<open>json!\<close> and the encoding of
  trajectory records are parameters. Plugins are registered through \<open>&mut self\<close>, so only
  while no invocation is under way; a restart begins with an empty registry.
\<close>

section \<open>Plugins\<close>

record manifest =
  mf_id :: rstr
  mf_version :: rstr
  mf_description :: rstr
  mf_operations :: "rstr set"
  mf_capabilities :: "rstr set"

datatype plugin_error =
    UnknownPlugin rstr
  | UnsupportedOperation rstr rstr
  | DuplicatePlugin rstr
  | InvalidManifest rstr
  | InvalidInput rstr
  | PluginCancelled
  | PluginFailed rstr

fun plugin_error_text :: "plugin_error \<Rightarrow> rstr" where
  "plugin_error_text (UnknownPlugin i) = ''unknown plugin: '' @ i"
| "plugin_error_text (UnsupportedOperation p operation) =
     ''plugin '' @ p @ '' does not support operation '' @ operation"
| "plugin_error_text (DuplicatePlugin i) = ''duplicate plugin: '' @ i"
| "plugin_error_text (InvalidManifest m) = ''invalid plugin manifest: '' @ m"
| "plugin_error_text (InvalidInput m) = ''invalid plugin input: '' @ m"
| "plugin_error_text PluginCancelled = ''plugin cancelled''"
| "plugin_error_text (PluginFailed m) = ''plugin failed: '' @ m"

definition validate_manifest :: "manifest \<Rightarrow> plugin_error + unit" where
  "validate_manifest m =
     (case validate_identifier ''plugin'' (mf_id m) of
        Inl error \<Rightarrow> Inl (InvalidManifest (registry_error_text id error))
      | Inr _ \<Rightarrow>
          if blank (mf_version m) \<or> blank (mf_description m)
          then Inl (InvalidManifest ''plugin version and description are required'')
          else if mf_operations m = {}
          then Inl (InvalidManifest ''plugin must advertise at least one operation'')
          else if \<exists>v\<in>mf_operations m \<union> mf_capabilities m. blank v \<or> 128 < length v
          then Inl (InvalidManifest
                 ''plugin operation and capability names must be bounded and non-empty'')
          else Inr ())"

type_synonym plugin_registry = "(rstr, manifest) omap"

definition register_plugin :: "plugin_registry \<Rightarrow> manifest \<Rightarrow> plugin_error + plugin_registry" where
  "register_plugin plugins m =
     bind_res (validate_manifest m) (\<lambda>_.
       if om_contains plugins (mf_id m) then Inl (DuplicatePlugin (mf_id m))
       else Inr (om_insert (mf_id m) m plugins))"

definition catalog :: "plugin_registry \<Rightarrow> manifest list" where
  "catalog plugins = om_values plugins"

text \<open>The checks of \<open>PluginRegistry::invoke\<close> before the plugin itself runs.\<close>

definition dispatch :: "plugin_registry \<Rightarrow> rstr \<Rightarrow> rstr \<Rightarrow> plugin_error + manifest" where
  "dispatch plugins plugin_id operation =
     bind_res (ok_or (om_get plugins plugin_id) (UnknownPlugin plugin_id)) (\<lambda>m.
       if operation \<notin> mf_operations m then Inl (UnsupportedOperation plugin_id operation)
       else Inr m)"

section \<open>Captured progress\<close>

definition MAX_REPLAY_FRAMES :: nat where
  "MAX_REPLAY_FRAMES = 4096"

definition MAX_REPLAY_BYTES :: nat where
  "MAX_REPLAY_BYTES = 8 * 1024 * 1024"

record 'v captured =
  cp_frames :: "'v response list"
  cp_bytes :: nat
  cp_overflowed :: bool

definition captured_empty :: "'v captured" where
  "captured_empty = \<lparr>cp_frames = [], cp_bytes = 0, cp_overflowed = False\<rparr>"

definition frame_bytes :: "('v response \<Rightarrow> rstr + rstr) \<Rightarrow> 'v response \<Rightarrow> nat" where
  "frame_bytes to_vec frame =
     (case to_vec frame of Inl _ \<Rightarrow> MAX_REPLAY_BYTES + 1 | Inr value \<Rightarrow> length value)"

definition capture_frame ::
    "('v response \<Rightarrow> rstr + rstr) \<Rightarrow> 'v captured \<Rightarrow> 'v response \<Rightarrow> 'v captured" where
  "capture_frame to_vec c frame =
     (if cp_overflowed c then c
      else let bytes = frame_bytes to_vec frame
        in if MAX_REPLAY_FRAMES \<le> length (cp_frames c) \<or> MAX_REPLAY_BYTES < cp_bytes c + bytes
           then \<lparr>cp_frames = [], cp_bytes = 0, cp_overflowed = True\<rparr>
           else c\<lparr>cp_bytes := cp_bytes c + bytes, cp_frames := cp_frames c @ [frame]\<rparr>)"

fun frame_key :: "'v response \<Rightarrow> 64 word" where
  "frame_key (Progress _ _ sequence _ _) = sequence"
| "frame_key _ = - 1"

definition capture_finish :: "'v captured \<Rightarrow> unit + 'v response list" where
  "capture_finish c =
     (if cp_overflowed c then Inl () else Inr (sort_key frame_key (cp_frames c)))"

section \<open>The trajectory\<close>

datatype trajectory_status = TStarted | TCompleted | TFailed | TCancelled

record trajectory_record =
  tj_schema_version :: "32 word"
  tj_sequence :: "64 word"
  tj_timestamp_ms :: "64 word"
  tj_request_id :: rstr
  tj_plugin :: rstr
  tj_operation :: rstr
  tj_status :: trajectory_status
  tj_error :: "rstr option"

record trajectory_codec =
  tj_vec :: "trajectory_record \<Rightarrow> rstr + rstr"
  tj_str :: "rstr \<Rightarrow> rstr + trajectory_record"

text \<open>What the file system and the clock answer to one \<open>record\<close>.\<close>

record tio =
  tio_mkdir :: "rstr option"
  tio_read :: "rstr option"
  tio_open :: "rstr option"
  tio_write :: "(nat \<times> rstr) option"
  tio_now :: "64 word"

text \<open>The trajectory file, when it exists, and the next sequence number, when it is known.\<close>

record trajectory =
  tr_file :: "rstr option"
  tr_next :: "64 word option"

fun scan_lines :: "trajectory_codec \<Rightarrow> rstr list \<Rightarrow> 64 word \<Rightarrow> rstr + 64 word" where
  "scan_lines c [] n = Inr n"
| "scan_lines c (line # ls) n =
     (if blank line then scan_lines c ls n
      else bind_res (tj_str c line) (\<lambda>r.
        scan_lines c ls (max n (sat_add (tj_sequence r) 1))))"

definition scan_next_sequence ::
    "trajectory_codec \<Rightarrow> tio \<Rightarrow> trajectory \<Rightarrow> rstr + 64 word" where
  "scan_next_sequence c io t =
     (case tr_file t of
        None \<Rightarrow> Inr 0
      | Some contents \<Rightarrow>
          (case tio_read io of
             Some error \<Rightarrow> Inl error
           | None \<Rightarrow> scan_lines c (str_lines contents) 0))"

definition append_trajectory ::
    "trajectory_codec \<Rightarrow> tio \<Rightarrow> trajectory \<Rightarrow> trajectory_record \<Rightarrow> trajectory \<times> (rstr + unit)" where
  "append_trajectory c io t r =
     (case tio_open io of
        Some error \<Rightarrow> (t, Inl error)
      | None \<Rightarrow>
          (let contents = (case tr_file t of None \<Rightarrow> [] | Some bytes \<Rightarrow> bytes)
           in case tj_vec c r of
                Inl error \<Rightarrow> (t\<lparr>tr_file := Some contents\<rparr>, Inl error)
              | Inr line \<Rightarrow>
                  (let line = line @ [CHR 0x0A]
                   in case tio_write io of
                        Some (n, error) \<Rightarrow>
                          (t\<lparr>tr_file := Some (contents @ take n line)\<rparr>, Inl error)
                      | None \<Rightarrow> (t\<lparr>tr_file := Some (contents @ line)\<rparr>, Inr ()))))"

definition record_trajectory ::
    "trajectory_codec \<Rightarrow> tio \<Rightarrow> trajectory \<Rightarrow> trajectory_record \<Rightarrow> trajectory \<times> (rstr + unit)" where
  "record_trajectory c io t r =
     (case tio_mkdir io of
        Some error \<Rightarrow> (t, Inl error)
      | None \<Rightarrow>
          (case (case tr_next t of Some n \<Rightarrow> Inr n | None \<Rightarrow> scan_next_sequence c io t) of
             Inl error \<Rightarrow> (t, Inl error)
           | Inr n \<Rightarrow>
               append_trajectory c io (t\<lparr>tr_next := Some (sat_add n 1)\<rparr>)
                 (r\<lparr>tj_sequence := n\<rparr>)))"

section \<open>The host\<close>

text \<open>
  JSON values as the host builds them with \<open>json!\<close>, and the size of an encoded frame.
\<close>

record 'v host_json =
  js_pong :: 'v
  js_catalog :: "manifest list \<Rightarrow> 'v"
  js_cancelled :: "rstr \<Rightarrow> bool \<Rightarrow> 'v"
  js_shutdown :: "nat \<Rightarrow> 'v"
  js_contract :: "rstr \<Rightarrow> rstr \<Rightarrow> rstr option \<Rightarrow> 'v \<Rightarrow> 'v"
  js_frame :: "'v response \<Rightarrow> rstr + rstr"

text \<open>
  Cancellation tokens are the numbers of their invocations: \<open>ho_active\<close> holds the registered
  ones by request id and \<open>ho_cancelled\<close> those that were cancelled.
\<close>

record host =
  ho_projects :: project_registry
  ho_plugins :: plugin_registry
  ho_active :: "(rstr, nat) omap"
  ho_cancelled :: "nat set"
  ho_trajectory :: trajectory
  ho_store :: store

definition host_new :: "project_registry \<Rightarrow> disk \<Rightarrow> rstr option \<Rightarrow> host" where
  "host_new projects d file =
     \<lparr>ho_projects = projects, ho_plugins = [], ho_active = [], ho_cancelled = {},
      ho_trajectory = \<lparr>tr_file = file, tr_next = None\<rparr>, ho_store = store_new d\<rparr>"

definition host_register_plugin :: "host \<Rightarrow> manifest \<Rightarrow> host \<times> (plugin_error + unit)" where
  "host_register_plugin h m =
     (case register_plugin (ho_plugins h) m of
        Inl error \<Rightarrow> (h, Inl error)
      | Inr plugins \<Rightarrow> (h\<lparr>ho_plugins := plugins\<rparr>, Inr ()))"

definition portable_request_id :: "rstr \<Rightarrow> bool" where
  "portable_request_id value \<longleftrightarrow> value \<noteq> [] \<and> length value \<le> 128 \<and>
     list_all (\<lambda>c. portable_byte c \<or> c = CHR '':'') value"

text \<open>
  Where an invocation is. \<open>PRelease\<close> and \<open>PFinish\<close> have their outcome and still have to leave
  \<open>active\<close>; the answer of \<open>PDone\<close> was recorded earlier when the flag is set.
\<close>

datatype 'v after = Answer "'v response" | Replaying "'v response list" "'v response"

datatype 'v phase =
    PReserve
  | PRelease "'v after"
  | PReplay "'v response list" "'v response"
  | PStart rstr
  | PRun rstr
  | PFinish rstr "plugin_error + 'v"
  | PRecord rstr trajectory_status "'v response"
  | PComplete rstr "'v response"
  | PDone bool "'v response"

record 'v invocation =
  in_request_id :: rstr
  in_plugin :: rstr
  in_operation :: rstr
  in_project :: "rstr option"
  in_root :: "rstr option"
  in_input :: 'v
  in_output :: bool
  in_phase :: "'v phase"
  in_next :: "64 word"
  in_pending :: "'v response list"
  in_captured :: "'v captured"
  in_sent :: "'v response list"

abbreviation set_phase :: "'v phase \<Rightarrow> 'v invocation \<Rightarrow> 'v invocation" where
  "set_phase p i \<equiv> i\<lparr>in_phase := p\<rparr>"

definition deactivate :: "rstr \<Rightarrow> host \<Rightarrow> host" where
  "deactivate request_id h = h\<lparr>ho_active := om_remove request_id (ho_active h)\<rparr>"

text \<open>\<open>invoke\<close> up to the reservation: the project is resolved and the invocation registered.\<close>

definition invoke_begin ::
    "host \<Rightarrow> nat \<Rightarrow> rstr \<Rightarrow> rstr \<Rightarrow> rstr \<Rightarrow> rstr option \<Rightarrow> 'v \<Rightarrow> bool \<Rightarrow>
     host \<times> ('v response + 'v invocation)"
where
  "invoke_begin h n request_id plugin operation project_id input output =
     (case (case project_id of
              None \<Rightarrow> Inr None
            | Some i \<Rightarrow> bind_res (resolve_project (ho_projects h) i) (\<lambda>root. Inr (Some root))) of
        Inl error \<Rightarrow>
          (h, Inl (response_error (Some request_id) ''unknown_project''
                 (registry_error_text id error)))
      | Inr root \<Rightarrow>
          if om_contains (ho_active h) request_id
          then (h, Inl (response_error (Some request_id) ''duplicate_request_id''
                 ''an invocation with this request_id is already active''))
          else (h\<lparr>ho_active := om_insert request_id n (ho_active h)\<rparr>,
                Inr \<lparr>in_request_id = request_id, in_plugin = plugin, in_operation = operation,
                     in_project = project_id, in_root = root, in_input = input,
                     in_output = output, in_phase = PReserve, in_next = 0, in_pending = [],
                     in_captured = captured_empty, in_sent = []\<rparr>))"


text \<open>The reservation of the request id and what is answered without running the plugin.\<close>

definition reservation_phase :: "rstr \<Rightarrow> rstr + 'v reservation \<Rightarrow> 'v phase" where
  "reservation_phase request_id r =
     (case r of
        Inr (Fresh request_hash) \<Rightarrow> PStart request_hash
      | Inr (Replay progress terminal) \<Rightarrow> PRelease (Replaying progress terminal)
      | Inr Ambiguous \<Rightarrow> PRelease (Answer (response_error (Some request_id) ''ambiguous_request''
          ''this request may already have executed; the agent will not run it twice''))
      | Inr Conflict \<Rightarrow> PRelease (Answer (response_error (Some request_id) ''request_id_conflict''
          ''request_id was already used for different work''))
      | Inr CapacityExhausted \<Rightarrow>
          PRelease (Answer (response_error (Some request_id) ''receipt_capacity_exhausted''
            ''durable request receipt storage is full; the agent will not run untracked work''))
      | Inl error \<Rightarrow>
          PRelease (Answer (response_error (Some request_id) ''receipt_failed'' error)))"

definition request_contract :: "'v host_json \<Rightarrow> 'v invocation \<Rightarrow> 'v" where
  "request_contract js i =
     js_contract js (in_plugin i) (in_operation i) (in_project i) (in_input i)"

definition invoke_reserve ::
    "'v codec \<Rightarrow> 'v host_json \<Rightarrow> io \<Rightarrow> host \<Rightarrow> 'v invocation \<Rightarrow> host \<times> 'v invocation" where
  "invoke_reserve c js io h i =
     (case reserve c io (ho_store h) (in_request_id i) (request_contract js i) of
        (s, r) \<Rightarrow> (h\<lparr>ho_store := s\<rparr>, set_phase (reservation_phase (in_request_id i) r) i))"

text \<open>
  \<open>self.active.lock().await.remove(request_id)\<close>, then the answer or the recorded frames.
\<close>

definition invoke_release :: "'v after \<Rightarrow> host \<Rightarrow> 'v invocation \<Rightarrow> host \<times> 'v invocation" where
  "invoke_release a h i =
     (deactivate (in_request_id i) h,
      set_phase (case a of
          Answer response \<Rightarrow> PDone False response
        | Replaying progress terminal \<Rightarrow>
            if in_output i then PReplay progress terminal else PDone True terminal) i)"

text \<open>One frame is sent again; the receiver may be gone.\<close>

definition invoke_replay ::
    "bool \<Rightarrow> 'v response list \<Rightarrow> 'v response \<Rightarrow> 'v invocation \<Rightarrow> 'v invocation" where
  "invoke_replay delivered progress terminal i =
     (case progress of
        [] \<Rightarrow> set_phase (PDone True terminal) i
      | frame # rest \<Rightarrow>
          if delivered then set_phase (PReplay rest terminal) (i\<lparr>in_sent := in_sent i @ [frame]\<rparr>)
          else set_phase (PDone False (response_error (Some (in_request_id i))
                 ''replay_disconnected'' ''remote request replay channel closed'')) i)"

definition invocation_record ::
    "tio \<Rightarrow> 'v invocation \<Rightarrow> trajectory_status \<Rightarrow> rstr option \<Rightarrow> trajectory_record"
where
  "invocation_record tio i status error =
     \<lparr>tj_schema_version = PROTOCOL_VERSION, tj_sequence = 0, tj_timestamp_ms = tio_now tio,
      tj_request_id = in_request_id i, tj_plugin = in_plugin i,
      tj_operation = in_operation i, tj_status = status, tj_error = error\<rparr>"

definition host_record ::
    "trajectory_codec \<Rightarrow> tio \<Rightarrow> host \<Rightarrow> 'v invocation \<Rightarrow> trajectory_status \<Rightarrow> rstr option \<Rightarrow>
     host \<times> (rstr + unit)"
where
  "host_record tc tio h i status error =
     (case record_trajectory tc tio (ho_trajectory h) (invocation_record tio i status error) of
        (t, r) \<Rightarrow> (h\<lparr>ho_trajectory := t\<rparr>, r))"

definition invoke_start ::
    "trajectory_codec \<Rightarrow> tio \<Rightarrow> rstr \<Rightarrow> host \<Rightarrow> 'v invocation \<Rightarrow> host \<times> 'v invocation" where
  "invoke_start tc tio request_hash h i =
     (case host_record tc tio h i TStarted None of
        (h, Inl error) \<Rightarrow>
          (h, set_phase (PRelease (Answer (response_error (Some (in_request_id i))
                 ''trajectory_failed'' error))) i)
      | (h, Inr _) \<Rightarrow> (h, set_phase (PRun request_hash) i))"

text \<open>
  \<open>ProgressReporter::emit\<close>: a frame gets the next sequence number, then it is captured and sent.
  Several emits of one plugin overlap, so the two parts are separate steps.
\<close>

definition emit_begin ::
    "rstr \<Rightarrow> 'v \<Rightarrow> 'v invocation \<Rightarrow> 'v invocation \<times> (plugin_error + unit)" where
  "emit_begin kind data i =
     (case validate_identifier ''progress kind'' kind of
        Inl error \<Rightarrow> (i, Inl (PluginFailed (registry_error_text id error)))
      | Inr _ \<Rightarrow>
          if \<not> in_output i
          then (i, Inl (PluginFailed ''worker progress channel is unavailable''))
          else (i\<lparr>in_next := in_next i + 1,
                  in_pending := in_pending i
                    @ [response_progress (in_request_id i) (in_next i) kind data]\<rparr>, Inr ()))"

definition emit_end ::
    "'v host_json \<Rightarrow> bool \<Rightarrow> 'v response \<Rightarrow> 'v invocation \<Rightarrow>
     'v invocation \<times> (plugin_error + unit)"
where
  "emit_end js delivered frame i =
     (let i = i\<lparr>in_pending := remove1 frame (in_pending i),
                in_captured := capture_frame (js_frame js) (in_captured i) frame\<rparr>
      in if delivered then (i\<lparr>in_sent := in_sent i @ [frame]\<rparr>, Inr ())
         else (i, Inl (PluginFailed ''worker progress channel closed'')))"

text \<open>The result of \<open>PluginRegistry::invoke\<close>, given what the plugin answers.\<close>

definition invoke_result ::
    "plugin_error + 'v \<Rightarrow> rstr \<Rightarrow> host \<Rightarrow> 'v invocation \<Rightarrow> 'v invocation" where
  "invoke_result answer request_hash h i =
     set_phase (PFinish request_hash
       (bind_res (dispatch (ho_plugins h) (in_plugin i) (in_operation i)) (\<lambda>_. answer))) i"

fun error_code :: "plugin_error \<Rightarrow> rstr" where
  "error_code (InvalidInput _) = ''invalid_input''"
| "error_code (UnknownPlugin _) = ''unknown_plugin''"
| "error_code (UnsupportedOperation _ _) = ''unsupported_operation''"
| "error_code _ = ''plugin_failed''"

definition result_response ::
    "rstr \<Rightarrow> plugin_error + 'v \<Rightarrow> trajectory_status \<times> 'v response" where
  "result_response request_id r =
     (case r of
        Inr data \<Rightarrow> (TCompleted, response_result (Some request_id) ''plugin_result'' data)
      | Inl PluginCancelled \<Rightarrow>
          (TCancelled, response_error (Some request_id) ''cancelled''
             ''plugin invocation cancelled'')
      | Inl error \<Rightarrow>
          (TFailed, response_error (Some request_id) (error_code error)
             (plugin_error_text error)))"

definition invoke_finish ::
    "rstr \<Rightarrow> plugin_error + 'v \<Rightarrow> host \<Rightarrow> 'v invocation \<Rightarrow> host \<times> 'v invocation" where
  "invoke_finish request_hash r h i =
     (case result_response (in_request_id i) r of
        (status, response) \<Rightarrow>
          (deactivate (in_request_id i) h, set_phase (PRecord request_hash status response) i))"

text \<open>The message of an error response; the plugin's answer is never a progress frame.\<close>

fun response_message :: "'v response \<Rightarrow> rstr option" where
  "response_message (RError _ _ _ message) = Some message"
| "response_message _ = None"

definition invoke_record ::
    "trajectory_codec \<Rightarrow> tio \<Rightarrow> rstr \<Rightarrow> trajectory_status \<Rightarrow> 'v response \<Rightarrow> host \<Rightarrow>
     'v invocation \<Rightarrow> host \<times> 'v invocation"
where
  "invoke_record tc tio request_hash status response h i =
     (case host_record tc tio h i status (response_message response) of
        (h, Inl error) \<Rightarrow>
          (h, set_phase (PDone False (response_error (Some (in_request_id i))
                 ''trajectory_failed'' error)) i)
      | (h, Inr _) \<Rightarrow> (h, set_phase (PComplete request_hash response) i))"

definition invoke_complete ::
    "'v codec \<Rightarrow> io \<Rightarrow> rstr \<Rightarrow> 'v response \<Rightarrow> host \<Rightarrow> 'v invocation \<Rightarrow> host \<times> 'v invocation" where
  "invoke_complete c io request_hash response h i =
     (case complete c io (ho_store h) (in_request_id i) request_hash
         (capture_finish (in_captured i)) response of
        (s, Inl error) \<Rightarrow>
          (h\<lparr>ho_store := s\<rparr>, set_phase (PDone False (response_error (Some (in_request_id i))
             ''receipt_failed'' error)) i)
      | (s, Inr _) \<Rightarrow> (h\<lparr>ho_store := s\<rparr>, set_phase (PDone False response) i))"

section \<open>Requests\<close>

definition cancel_request :: "rstr \<Rightarrow> host \<Rightarrow> host \<times> bool" where
  "cancel_request target h =
     (case om_get (ho_active h) target of
        Some n \<Rightarrow> (h\<lparr>ho_cancelled := insert n (ho_cancelled h)\<rparr>, True)
      | None \<Rightarrow> (h, False))"

definition shutdown_host :: "host \<Rightarrow> host \<times> nat" where
  "shutdown_host h =
     (h\<lparr>ho_cancelled := ho_cancelled h \<union> set (om_values (ho_active h))\<rparr>, length (ho_active h))"

text \<open>
  \<open>handle_inner\<close>: an immediate response, or the invocation \<open>n\<close> begins. The channel for progress
  is there for \<open>handle_stream\<close> only.
\<close>

definition handle_inner ::
    "'v host_json \<Rightarrow> host \<Rightarrow> nat \<Rightarrow> 'v request \<Rightarrow> bool \<Rightarrow> host \<times> ('v response + 'v invocation)"
where
  "handle_inner js h n rq output =
     (let request_id = rq_request_id rq
      in if rq_schema_version rq \<noteq> PROTOCOL_VERSION
         then (h, Inl (response_error (Some request_id) ''unsupported_schema''
                ''schema_version must be 2''))
         else if \<not> portable_request_id request_id
         then (h, Inl (response_error (Some request_id) ''invalid_request_id''
                ''request_id must be a bounded portable identifier''))
         else case rq_command rq of
             Ping \<Rightarrow> (h, Inl (response_result (Some request_id) ''pong'' (js_pong js)))
           | Catalog \<Rightarrow>
               (h, Inl (response_result (Some request_id) ''catalog''
                      (js_catalog js (catalog (ho_plugins h)))))
           | Cancel target \<Rightarrow>
               (case cancel_request target h of
                  (h, cancelled) \<Rightarrow>
                    (h, Inl (response_result (Some request_id) ''cancelled''
                           (js_cancelled js target cancelled))))
           | Shutdown \<Rightarrow>
               (case shutdown_host h of
                  (h, cancelled) \<Rightarrow>
                    (h, Inl (response_result (Some request_id) ''shutdown''
                           (js_shutdown js cancelled))))
           | Invoke plugin operation project_id input \<Rightarrow>
               invoke_begin h n request_id plugin operation project_id input output)"

section \<open>The host at work\<close>

text \<open>
  The invocations by number, finished ones included. A restart is the end of the process: the
  invocations and the registered plugins are gone, the directory with the receipts and the
  trajectory file stay. \<open>register_plugin\<close> takes the host exclusively (\<open>&mut self\<close>), so plugins
  are registered while no invocation is under way.
\<close>

record 'v system =
  sy_host :: host
  sy_invocations :: "nat \<Rightarrow> 'v invocation option"

definition host_restart :: "host \<Rightarrow> host" where
  "host_restart h = h\<lparr>ho_plugins := [], ho_active := [], ho_cancelled := {},
     ho_trajectory := (ho_trajectory h)\<lparr>tr_next := None\<rparr>,
     ho_store := (ho_store h)\<lparr>st_usage := None\<rparr>\<rparr>"

definition put_invocation :: "nat \<Rightarrow> host \<times> 'v invocation \<Rightarrow> 'v system \<Rightarrow> 'v system" where
  "put_invocation n hi s =
     s\<lparr>sy_host := fst hi, sy_invocations := (sy_invocations s)(n \<mapsto> snd hi)\<rparr>"

text \<open>
  Phases in which the invocation is registered in \<open>active\<close>, in which it owns a fresh receipt, and
  in which its plugin was called. Tasks the plugin spawned may emit after it returned.
\<close>

fun registered :: "'v phase \<Rightarrow> bool" where
  "registered PReserve = True"
| "registered (PRelease a) = True"
| "registered (PStart rh) = True"
| "registered (PRun rh) = True"
| "registered (PFinish rh r) = True"
| "registered _ = False"

fun owned_hash :: "'v phase \<Rightarrow> rstr option" where
  "owned_hash (PStart rh) = Some rh"
| "owned_hash (PRun rh) = Some rh"
| "owned_hash (PFinish rh r) = Some rh"
| "owned_hash (PRecord rh st resp) = Some rh"
| "owned_hash (PComplete rh resp) = Some rh"
| "owned_hash _ = None"

fun plugin_called :: "'v phase \<Rightarrow> bool" where
  "plugin_called (PRun rh) = True"
| "plugin_called (PFinish rh r) = True"
| "plugin_called (PRecord rh st resp) = True"
| "plugin_called (PComplete rh resp) = True"
| "plugin_called _ = False"

fun is_done :: "'v phase \<Rightarrow> bool" where
  "is_done (PDone replayed response) = True"
| "is_done _ = False"

inductive host_step ::
    "'v codec \<Rightarrow> trajectory_codec \<Rightarrow> 'v host_json \<Rightarrow> 'v system \<Rightarrow> 'v system \<Rightarrow> bool"
  for c :: "'v codec" and tc :: trajectory_codec and js :: "'v host_json"
where
  registering: "\<forall>n i. sy_invocations s n = Some i \<longrightarrow> is_done (in_phase i) \<Longrightarrow>
     host_register_plugin (sy_host s) m = (h, r) \<Longrightarrow>
     host_step c tc js s (s\<lparr>sy_host := h\<rparr>)"
| answered: "sy_invocations s n = None \<Longrightarrow>
     handle_inner js (sy_host s) n rq output = (h, Inl response) \<Longrightarrow>
     host_step c tc js s (s\<lparr>sy_host := h\<rparr>)"
| begun: "sy_invocations s n = None \<Longrightarrow>
     handle_inner js (sy_host s) n rq output = (h, Inr i) \<Longrightarrow>
     host_step c tc js s (put_invocation n (h, i) s)"
| reserved: "sy_invocations s n = Some i \<Longrightarrow> in_phase i = PReserve \<Longrightarrow>
     host_step c tc js s (put_invocation n (invoke_reserve c js io (sy_host s) i) s)"
| released: "sy_invocations s n = Some i \<Longrightarrow> in_phase i = PRelease a \<Longrightarrow>
     host_step c tc js s (put_invocation n (invoke_release a (sy_host s) i) s)"
| replayed: "sy_invocations s n = Some i \<Longrightarrow> in_phase i = PReplay ps t \<Longrightarrow>
     host_step c tc js s (put_invocation n (sy_host s, invoke_replay delivered ps t i) s)"
| started: "sy_invocations s n = Some i \<Longrightarrow> in_phase i = PStart rh \<Longrightarrow>
     host_step c tc js s (put_invocation n (invoke_start tc tio rh (sy_host s) i) s)"
| emitting: "sy_invocations s n = Some i \<Longrightarrow> plugin_called (in_phase i) \<Longrightarrow>
     dispatch (ho_plugins (sy_host s)) (in_plugin i) (in_operation i) = Inr m \<Longrightarrow>
     emit_begin kind data i = (i', r) \<Longrightarrow>
     host_step c tc js s (put_invocation n (sy_host s, i') s)"
| emitted: "sy_invocations s n = Some i \<Longrightarrow> plugin_called (in_phase i) \<Longrightarrow>
     frame \<in> set (in_pending i) \<Longrightarrow> emit_end js delivered frame i = (i', r) \<Longrightarrow>
     host_step c tc js s (put_invocation n (sy_host s, i') s)"
| ran: "sy_invocations s n = Some i \<Longrightarrow> in_phase i = PRun rh \<Longrightarrow>
     host_step c tc js s (put_invocation n (sy_host s, invoke_result answer rh (sy_host s) i) s)"
| finished: "sy_invocations s n = Some i \<Longrightarrow> in_phase i = PFinish rh r \<Longrightarrow>
     host_step c tc js s (put_invocation n (invoke_finish rh r (sy_host s) i) s)"
| recorded: "sy_invocations s n = Some i \<Longrightarrow> in_phase i = PRecord rh status response \<Longrightarrow>
     host_step c tc js s
       (put_invocation n (invoke_record tc tio rh status response (sy_host s) i) s)"
| completed: "sy_invocations s n = Some i \<Longrightarrow> in_phase i = PComplete rh response \<Longrightarrow>
     host_step c tc js s (put_invocation n (invoke_complete c io rh response (sy_host s) i) s)"
| restarted: "host_step c tc js s
     \<lparr>sy_host = host_restart (sy_host s), sy_invocations = (\<lambda>_. None)\<rparr>"


section \<open>What a step does\<close>

text \<open>
  An operation on an invocation keeps its request id; it keeps \<open>active\<close>, or unregisters the
  invocation; it keeps the receipts, or is one call on the store.
\<close>

definition unregisters :: "host \<Rightarrow> 'v invocation \<Rightarrow> host \<times> 'v invocation \<Rightarrow> bool" where
  "unregisters h i hi \<longleftrightarrow> registered (in_phase i) \<and> \<not> registered (in_phase (snd hi)) \<and>
     ho_active (fst hi) = om_remove (in_request_id i) (ho_active h)"

definition stays_registered :: "host \<Rightarrow> 'v invocation \<Rightarrow> host \<times> 'v invocation \<Rightarrow> bool" where
  "stays_registered h i hi \<longleftrightarrow> registered (in_phase i) = registered (in_phase (snd hi)) \<and>
     ho_active (fst hi) = ho_active h"

definition same_owner :: "host \<Rightarrow> 'v invocation \<Rightarrow> host \<times> 'v invocation \<Rightarrow> bool" where
  "same_owner h i hi \<longleftrightarrow> ho_store (fst hi) = ho_store h \<and>
     (owned_hash (in_phase (snd hi)) = None \<or> owned_hash (in_phase (snd hi)) = owned_hash (in_phase i))"

lemma invoke_reserve_facts:
  assumes "in_phase i = PReserve"
  shows "in_request_id (snd (invoke_reserve c js io h i)) = in_request_id i"
    and "stays_registered h i (invoke_reserve c js io h i)"
  using assms
  by (auto simp: invoke_reserve_def stays_registered_def reservation_phase_def
      split: prod.splits sum.splits reservation.splits)

lemma invoke_release_facts:
  assumes "in_phase i = PRelease a"
  shows "in_request_id (snd (invoke_release a h i)) = in_request_id i"
    and "unregisters h i (invoke_release a h i)" and "same_owner h i (invoke_release a h i)"
  using assms
  by (auto simp: invoke_release_def unregisters_def same_owner_def deactivate_def split: after.splits)

lemma invoke_replay_facts:
  assumes "in_phase i = PReplay ps t"
  shows "in_request_id (invoke_replay b ps t i) = in_request_id i"
    and "stays_registered h i (h, invoke_replay b ps t i)"
    and "same_owner h i (h, invoke_replay b ps t i)"
  using assms
  by (auto simp: invoke_replay_def stays_registered_def same_owner_def split: list.splits)

lemma host_record_facts:
  assumes "host_record tc tio h i st e = (h', r)"
  shows "ho_active h' = ho_active h" and "ho_store h' = ho_store h"
  using assms by (auto simp: host_record_def split: prod.splits)

lemma invoke_start_facts:
  assumes "in_phase i = PStart rh"
  shows "in_request_id (snd (invoke_start tc tio rh h i)) = in_request_id i"
    and "stays_registered h i (invoke_start tc tio rh h i)"
    and "same_owner h i (invoke_start tc tio rh h i)"
  using assms
  by (auto simp: invoke_start_def stays_registered_def same_owner_def host_record_facts
      split: prod.splits sum.splits)

lemma emit_facts:
  "emit_begin kind data i = (i', r) \<Longrightarrow> in_request_id i' = in_request_id i \<and> in_phase i' = in_phase i"
  "emit_end js b frame i = (i', r) \<Longrightarrow> in_request_id i' = in_request_id i \<and> in_phase i' = in_phase i"
  by (auto simp: emit_begin_def emit_end_def Let_def split: sum.splits if_splits)

lemma invoke_result_facts:
  assumes "in_phase i = PRun rh"
  shows "in_request_id (invoke_result a rh h i) = in_request_id i"
    and "stays_registered h i (h, invoke_result a rh h i)"
    and "same_owner h i (h, invoke_result a rh h i)"
  using assms by (auto simp: invoke_result_def stays_registered_def same_owner_def)

lemma invoke_finish_facts:
  assumes "in_phase i = PFinish rh r"
  shows "in_request_id (snd (invoke_finish rh r h i)) = in_request_id i"
    and "unregisters h i (invoke_finish rh r h i)" and "same_owner h i (invoke_finish rh r h i)"
  using assms
  by (auto simp: invoke_finish_def unregisters_def same_owner_def deactivate_def split: prod.splits)

lemma invoke_record_facts:
  assumes "in_phase i = PRecord rh st resp"
  shows "in_request_id (snd (invoke_record tc tio rh st resp h i)) = in_request_id i"
    and "stays_registered h i (invoke_record tc tio rh st resp h i)"
    and "same_owner h i (invoke_record tc tio rh st resp h i)"
  using assms
  by (auto simp: invoke_record_def stays_registered_def same_owner_def host_record_facts
      split: prod.splits sum.splits)

lemma invoke_complete_facts:
  assumes "in_phase i = PComplete rh resp"
  shows "in_request_id (snd (invoke_complete c io rh resp h i)) = in_request_id i"
    and "stays_registered h i (invoke_complete c io rh resp h i)"
    and "owned_hash (in_phase (snd (invoke_complete c io rh resp h i))) = None"
  using assms
  by (auto simp: invoke_complete_def stays_registered_def split: prod.splits sum.splits)

section \<open>The registered invocations\<close>

definition active_ok :: "'v system \<Rightarrow> bool" where
  "active_ok s \<longleftrightarrow> om_wf (ho_active (sy_host s)) \<and>
     (\<forall>r n. om_get (ho_active (sy_host s)) r = Some n \<longleftrightarrow>
        (\<exists>i. sy_invocations s n = Some i \<and> in_request_id i = r \<and> registered (in_phase i)))"

lemma put_invocation_sel [simp]:
  "sy_host (put_invocation n hi s) = fst hi"
  "sy_invocations (put_invocation n hi s) = (sy_invocations s)(n \<mapsto> snd hi)"
  by (simp_all add: put_invocation_def)

lemma active_ok_stays:
  assumes "active_ok s" and "sy_invocations s n = Some i"
    and "stays_registered (sy_host s) i hi" and "in_request_id (snd hi) = in_request_id i"
  shows "active_ok (put_invocation n hi s)"
  using assms by (auto simp: active_ok_def stays_registered_def)

lemma active_ok_unregisters:
  assumes "active_ok s" and "sy_invocations s n = Some i"
    and "unregisters (sy_host s) i hi" and "in_request_id (snd hi) = in_request_id i"
  shows "active_ok (put_invocation n hi s)"
proof -
  let ?r = "in_request_id i"
  have wf: "om_wf (ho_active (sy_host s))" using assms(1) by (simp add: active_ok_def)
  have own: "om_get (ho_active (sy_host s)) ?r = Some n"
    using assms(1-3) by (auto simp: active_ok_def unregisters_def)
  show ?thesis
    using assms own wf
    by (auto simp: active_ok_def unregisters_def map_of_om_remove split: if_splits)
       (metis option.inject)+
qed


lemma host_register_facts:
  assumes "host_register_plugin h m = (h', r)"
  shows "ho_active h' = ho_active h" and "ho_store h' = ho_store h"
    and "ho_trajectory h' = ho_trajectory h"
  using assms by (auto simp: host_register_plugin_def split: sum.splits)

lemma handle_inner_answered:
  assumes "handle_inner js h n rq output = (h', Inl response)"
  shows "ho_active h' = ho_active h" and "ho_store h' = ho_store h"
    and "ho_trajectory h' = ho_trajectory h"
  using assms
  by (auto simp: handle_inner_def Let_def cancel_request_def shutdown_host_def invoke_begin_def
      split: if_splits request_command.splits option.splits sum.splits)

lemma handle_inner_begun:
  assumes "handle_inner js h n rq output = (h', Inr i)"
  shows "om_get (ho_active h) (rq_request_id rq) = None \<and> in_request_id i = rq_request_id rq \<and>
    in_phase i = PReserve \<and> h' = h\<lparr>ho_active := om_insert (rq_request_id rq) n (ho_active h)\<rparr> \<and>
    in_captured i = captured_empty \<and> in_pending i = [] \<and> in_next i = 0"
  using assms
  by (auto simp: handle_inner_def Let_def cancel_request_def shutdown_host_def invoke_begin_def
      om_contains_def split: if_splits request_command.splits option.splits sum.splits)

lemma active_ok_begun:
  assumes "active_ok s" and "sy_invocations s n = None"
    and "handle_inner js (sy_host s) n rq output = (h, Inr i)"
  shows "active_ok (put_invocation n (h, i) s)"
proof -
  note b = handle_inner_begun [OF assms(3)]
  have "in_request_id j \<noteq> rq_request_id rq"
    if j: "sy_invocations s m = Some j" "registered (in_phase j)" for m j
  proof -
    have "om_get (ho_active (sy_host s)) (in_request_id j) = Some m"
      using assms(1) j unfolding active_ok_def by blast
    then show ?thesis using b by auto
  qed
  then show ?thesis
    using assms(1,2) b by (auto simp: active_ok_def split: if_splits)
qed

lemma active_ok_step:
  assumes "host_step c tc js s t" and "active_ok s"
  shows "active_ok t"
  using assms
proof (cases rule: host_step.cases)
  case (registering m h r)
  then show ?thesis
    using assms(2) host_register_facts(1) [OF registering(3)] by (simp add: active_ok_def)
next
  case (answered n rq out h response)
  then show ?thesis
    using assms(2) handle_inner_answered(1) [OF answered(3)] by (simp add: active_ok_def)
next
  case (begun n rq out h i)
  then show ?thesis using active_ok_begun [OF assms(2)] by simp
next
  case (emitting n i m kind data i' r)
  then show ?thesis
    using active_ok_stays [OF assms(2) emitting(2), of "(sy_host s, i')"] emit_facts(1) [OF emitting(5)]
    by (auto simp: stays_registered_def)
next
  case (emitted n i frame delivered i' r)
  then show ?thesis
    using active_ok_stays [OF assms(2) emitted(2), of "(sy_host s, i')"] emit_facts(2) [OF emitted(5)]
    by (auto simp: stays_registered_def)
next
  case restarted
  then show ?thesis by (simp add: active_ok_def host_restart_def)
qed (simp_all add: active_ok_stays active_ok_unregisters invoke_reserve_facts invoke_release_facts
    invoke_replay_facts invoke_start_facts invoke_result_facts invoke_finish_facts
    invoke_record_facts invoke_complete_facts)

section \<open>Fresh receipts have one owner\<close>

definition owned :: "'v codec \<Rightarrow> disk \<Rightarrow> 'v invocation \<Rightarrow> rstr \<Rightarrow> bool" where
  "owned c d i rh \<longleftrightarrow> (\<exists>f. om_get d (receipt_path c (in_request_id i)) = Some f \<and>
     entry_line c (EStarted RECEIPT_VERSION rh) = Inr (f_bytes f))"

definition receipts_ok :: "'v codec \<Rightarrow> 'v system \<Rightarrow> bool" where
  "receipts_ok c s \<longleftrightarrow> om_wf (st_disk (ho_store (sy_host s))) \<and>
     (\<forall>n i rh. sy_invocations s n = Some i \<and> owned_hash (in_phase i) = Some rh \<longrightarrow>
        owned c (st_disk (ho_store (sy_host s))) i rh) \<and>
     (\<forall>n m i j. n \<noteq> m \<and> sy_invocations s n = Some i \<and> sy_invocations s m = Some j \<and>
        owned_hash (in_phase i) \<noteq> None \<and> owned_hash (in_phase j) \<noteq> None \<longrightarrow>
        receipt_path c (in_request_id i) \<noteq> receipt_path c (in_request_id j))"

lemma receipts_ok_host:
  assumes "ho_store h = ho_store (sy_host s)" and "receipts_ok c s"
  shows "receipts_ok c (s\<lparr>sy_host := h\<rparr>)"
  using assms(2) unfolding receipts_ok_def by (simp add: assms(1)) blast

lemma receipts_ok_same:
  assumes "receipts_ok c s" and "sy_invocations s n = Some i"
    and "same_owner (sy_host s) i hi" and "in_request_id (snd hi) = in_request_id i"
  shows "receipts_ok c (put_invocation n hi s)"
  using assms by (auto simp: receipts_ok_def same_owner_def owned_def) metis+

text \<open>A call on the store by one invocation does not touch the receipts others own.\<close>

lemma owned_stays:
  assumes "codec_ok c" and "owned c d i rh" and "files_kept c io d d'"
  shows "owned c d' i rh"
proof -
  obtain f where f: "om_get d (receipt_path c (in_request_id i)) = Some f"
      "entry_line c (EStarted RECEIPT_VERSION rh) = Inr (f_bytes f)"
    using assms(2) by (auto simp: owned_def)
  then show ?thesis
    using files_keptD [OF assms(3) f(1) in_progress_not_evictable [OF started_in_progress [OF assms(1) f(2)]]]
    by (auto simp: owned_def)
qed

lemma fresh_not_owned:
  assumes "codec_ok c" and "reserve c io s i v = (s', Inr (Fresh h))" and "om_wf (st_disk s)"
    and "owned c (st_disk s) j rh"
  shows "receipt_path c (in_request_id j) \<noteq> receipt_path c i"
proof
  assume same: "receipt_path c (in_request_id j) = receipt_path c i"
  obtain f where f: "om_get (st_disk s) (receipt_path c i) = Some f"
      "entry_line c (EStarted RECEIPT_VERSION rh) = Inr (f_bytes f)"
    using assms(4) same by (auto simp: owned_def)
  have "\<not> evictable c io (receipt_path c i) f"
    by (rule in_progress_not_evictable [OF started_in_progress [OF assms(1) f(2)]])
  from reserve_present [OF assms(2,3) f(1) this]
  have "\<exists>ha. existing_reservation c io f ha = Inr (Fresh h)" by fastforce
  then show False using existing_not_fresh by blast
qed


lemma receipts_ok_reserved:
  assumes "receipts_ok c s" and "codec_ok c" and "sy_invocations s n = Some i"
    and "in_phase i = PReserve"
  shows "receipts_ok c (put_invocation n (invoke_reserve c js io (sy_host s) i) s)"
proof -
  let ?st = "ho_store (sy_host s)"
  obtain st r where res: "reserve c io ?st (in_request_id i) (request_contract js i) = (st, r)"
    by (cases "reserve c io ?st (in_request_id i) (request_contract js i)")
  let ?i = "set_phase (reservation_phase (in_request_id i) r) i"
  have op: "invoke_reserve c js io (sy_host s) i = ((sy_host s)\<lparr>ho_store := st\<rparr>, ?i)"
    using res by (simp add: invoke_reserve_def)
  have wf: "om_wf (st_disk ?st)" using assms(1) by (simp add: receipts_ok_def)
  note keeps = reserve_keeps [OF res wf]
  have others: "owned c (st_disk st) j rh"
    if "sy_invocations s m = Some j" "owned_hash (in_phase j) = Some rh" for m j rh
    using owned_stays [OF assms(2)] keeps that assms(1) unfolding receipts_ok_def by blast
  have fresh: "owned c (st_disk st) ?i rh \<and> r = Inr (Fresh rh)"
    if "owned_hash (in_phase ?i) = Some rh" for rh
  proof -
    have "r = Inr (Fresh rh)"
      using that by (auto simp: reservation_phase_def split: sum.splits reservation.splits)
    moreover from this have "reserve c io ?st (in_request_id i) (request_contract js i)
        = (st, Inr (Fresh rh))" using res by simp
    from reserve_fresh(2) [OF this] have "owned c (st_disk st) ?i rh"
      by (auto simp: owned_def)
    ultimately show ?thesis by blast
  qed
  have apart: "receipt_path c (in_request_id j) \<noteq> receipt_path c (in_request_id i)"
    if "owned_hash (in_phase ?i) \<noteq> None" "sy_invocations s m = Some j"
      "owned_hash (in_phase j) \<noteq> None" for m j
    using that fresh fresh_not_owned [OF assms(2) _ wf] res assms(1)
    unfolding receipts_ok_def by blast
  show ?thesis
    unfolding op receipts_ok_def using keeps others fresh apart assms(1)
    by (auto simp: receipts_ok_def) (metis option.distinct(1))+
qed

lemma receipts_ok_completed:
  assumes "receipts_ok c s" and "sy_invocations s n = Some i"
    and "in_phase i = PComplete rh resp"
  shows "receipts_ok c (put_invocation n (invoke_complete c io rh resp (sy_host s) i) s)"
proof -
  let ?st = "ho_store (sy_host s)"
  obtain st r where com: "complete c io ?st (in_request_id i) rh (capture_finish (in_captured i)) resp
      = (st, r)" by (cases "complete c io ?st (in_request_id i) rh (capture_finish (in_captured i)) resp")
  define p where "p = PDone False (case r of
      Inl error \<Rightarrow> response_error (Some (in_request_id i)) ''receipt_failed'' error | Inr _ \<Rightarrow> resp)"
  have op: "invoke_complete c io rh resp (sy_host s) i
      = ((sy_host s)\<lparr>ho_store := st\<rparr>, set_phase p i)" "owned_hash p = None"
    using com by (simp_all add: invoke_complete_def p_def split: sum.splits)
  have wf: "om_wf (st_disk ?st)" using assms(1) by (simp add: receipts_ok_def)
  note keeps = complete_keeps [OF com wf]
  have "owned c (st_disk st) j h"
    if "m \<noteq> n" "sy_invocations s m = Some j" "owned_hash (in_phase j) = Some h" for m j h
  proof -
    have "receipt_path c (in_request_id j) \<noteq> receipt_path c (in_request_id i)"
      using assms that unfolding receipts_ok_def by (metis option.distinct(1) owned_hash.simps(5))
    moreover have "owned c (st_disk ?st) j h"
      using assms(1) that unfolding receipts_ok_def by blast
    ultimately show ?thesis using keeps by (simp add: owned_def)
  qed
  then show ?thesis
    unfolding op(1) receipts_ok_def using keeps op(2) assms(1)
    by (auto simp: receipts_ok_def)
qed

lemma receipts_ok_step:
  assumes "host_step c tc js s t" and "codec_ok c" and "receipts_ok c s"
  shows "receipts_ok c t"
  using assms(1)
proof (cases rule: host_step.cases)
  case (registering m h r)
  then show ?thesis
    using receipts_ok_host [OF host_register_facts(2) [OF registering(3)]] assms(3) by simp
next
  case (answered n rq out h response)
  then show ?thesis
    using receipts_ok_host [OF handle_inner_answered(2) [OF answered(3)]] assms(3) by simp
next
  case (begun n rq out h i)
  then show ?thesis
    using assms(3) handle_inner_begun [OF begun(3)] by (auto simp: receipts_ok_def)
next
  case (reserved n i io)
  then show ?thesis using receipts_ok_reserved [OF assms(3,2)] by simp
next
  case (completed n i rh response io)
  then show ?thesis using receipts_ok_completed [OF assms(3)] by simp
next
  case (emitting n i m kind data i' r)
  then show ?thesis
    using receipts_ok_same [OF assms(3) emitting(2), of "(sy_host s, i')"] emit_facts(1) [OF emitting(5)]
    by (auto simp: same_owner_def)
next
  case (emitted n i frame delivered i' r)
  then show ?thesis
    using receipts_ok_same [OF assms(3) emitted(2), of "(sy_host s, i')"] emit_facts(2) [OF emitted(5)]
    by (auto simp: same_owner_def)
next
  case restarted
  then show ?thesis using assms(3) by (simp add: receipts_ok_def host_restart_def)
qed (simp_all add: receipts_ok_same [OF assms(3)] invoke_release_facts
    invoke_replay_facts invoke_start_facts invoke_result_facts invoke_finish_facts
    invoke_record_facts)


text \<open>Both invariants, and the store they rest on, over whole histories.\<close>

definition host_ok :: "'v codec \<Rightarrow> 'v system \<Rightarrow> bool" where
  "host_ok c s \<longleftrightarrow> active_ok s \<and> receipts_ok c s"

interpretation hosts: state_machine "host_step c tc js" "\<lambda>s. codec_ok c \<longrightarrow> host_ok c s"
  by unfold_locales (auto simp: host_ok_def active_ok_step receipts_ok_step)

definition system_new :: "project_registry \<Rightarrow> disk \<Rightarrow> rstr option \<Rightarrow> 'v system" where
  "system_new projects d file =
     \<lparr>sy_host = host_new projects d file, sy_invocations = (\<lambda>_. None)\<rparr>"

lemma host_ok_new: "om_wf d \<Longrightarrow> host_ok c (system_new projects d file)"
  by (simp add: host_ok_def active_ok_def receipts_ok_def system_new_def host_new_def store_new_def)

lemma host_ok_reachable:
  assumes "codec_ok c" and "om_wf d" and "(host_step c tc js)\<^sup>*\<^sup>* (system_new projects d file) s"
  shows "host_ok c s"
  using hosts.inv_reachable [OF assms(3)] host_ok_new [OF assms(2)] assms(1) by blast

section \<open>Answers\<close>

text \<open>An answer carries the request id and the protocol version, and is terminal.\<close>

definition answer_ok :: "rstr \<Rightarrow> 'v response \<Rightarrow> bool" where
  "answer_ok request_id r \<longleftrightarrow>
     response_id r = Some request_id \<and> response_version r = PROTOCOL_VERSION \<and> is_terminal r"

lemma answer_ok_simps [simp]:
  "answer_ok i (response_error (Some i) code m)"
  "answer_ok i (response_result (Some i) kind data)"
  by (simp_all add: answer_ok_def response_error_def response_result_def)

fun phase_answers :: "'v phase \<Rightarrow> 'v response set" where
  "phase_answers (PRelease (Answer r)) = {r}"
| "phase_answers (PRecord rh st r) = {r}"
| "phase_answers (PComplete rh r) = {r}"
| "phase_answers (PDone replayed r) = (if replayed then {} else {r})"
| "phase_answers _ = {}"

definition answers_ok :: "'v system \<Rightarrow> bool" where
  "answers_ok s \<longleftrightarrow> (\<forall>n i r. sy_invocations s n = Some i \<and> r \<in> phase_answers (in_phase i) \<longrightarrow>
     answer_ok (in_request_id i) r)"

lemma answers_ok_put:
  assumes "answers_ok s"
    and "\<And>r. r \<in> phase_answers (in_phase (snd hi)) \<Longrightarrow> answer_ok (in_request_id (snd hi)) r"
  shows "answers_ok (put_invocation n hi s)"
  using assms by (auto simp: answers_ok_def)

lemma handle_inner_answer:
  "handle_inner js h n rq output = (h', Inl response) \<Longrightarrow> answer_ok (rq_request_id rq) response"
  by (auto simp: handle_inner_def Let_def cancel_request_def shutdown_host_def invoke_begin_def
      split: if_splits request_command.splits option.splits sum.splits)

lemma answers_ok_step:
  assumes "host_step c tc js s t" and "answers_ok s"
  shows "answers_ok t"
proof -
  have old: "answer_ok (in_request_id i) r"
    if "sy_invocations s n = Some i" "r \<in> phase_answers (in_phase i)" for n i r
    using assms(2) that by (auto simp: answers_ok_def)
  from assms(1) show ?thesis
  proof (cases rule: host_step.cases)
    case (begun n rq out h i)
    then show ?thesis
      using handle_inner_begun [OF begun(3)] by (auto intro!: answers_ok_put [OF assms(2)])
  next
    case (reserved n i io)
    then show ?thesis
      by (auto intro!: answers_ok_put [OF assms(2)] simp: invoke_reserve_def reservation_phase_def
          split: prod.splits sum.splits reservation.splits)
  next
    case (released n i a)
    then show ?thesis
      using old [of n i]
      by (auto intro!: answers_ok_put [OF assms(2)] simp: invoke_release_def split: after.splits)
  next
    case (replayed n i ps tm delivered)
    then show ?thesis
      by (auto intro!: answers_ok_put [OF assms(2)] simp: invoke_replay_def split: list.splits)
  next
    case (started n i rh tio)
    then show ?thesis
      by (auto intro!: answers_ok_put [OF assms(2)] simp: invoke_start_def
          split: prod.splits sum.splits)
  next
    case (emitting n i m kind data i' r)
    then show ?thesis
      using old [OF emitting(2)] emit_facts(1) [OF emitting(5)]
      by (auto intro!: answers_ok_put [OF assms(2)])
  next
    case (emitted n i frame delivered i' r)
    then show ?thesis
      using old [OF emitted(2)] emit_facts(2) [OF emitted(5)]
      by (auto intro!: answers_ok_put [OF assms(2)])
  next
    case (finished n i rh r)
    then show ?thesis
      by (auto intro!: answers_ok_put [OF assms(2)] simp: invoke_finish_def result_response_def
          split: prod.splits sum.splits plugin_error.splits)
  next
    case (recorded n i rh status response tio)
    then show ?thesis
      using old [OF recorded(2)]
      by (auto intro!: answers_ok_put [OF assms(2)] simp: invoke_record_def
          split: prod.splits sum.splits)
  next
    case (completed n i rh response io)
    then show ?thesis
      using old [OF completed(2)]
      by (auto intro!: answers_ok_put [OF assms(2)] simp: invoke_complete_def
          split: prod.splits sum.splits)
  qed (use assms(2) in \<open>auto simp: answers_ok_def invoke_result_def\<close>)
qed

interpretation answers: state_machine "host_step c tc js" answers_ok
  by unfold_locales (rule answers_ok_step)

section \<open>Captured frames\<close>

definition frames_size :: "('v response \<Rightarrow> rstr + rstr) \<Rightarrow> 'v response list \<Rightarrow> nat" where
  "frames_size to_vec fs = sum_list (map (frame_bytes to_vec) fs)"

lemma capture_fold:
  "let c = foldl (capture_frame to_vec) captured_empty fs
   in (cp_overflowed c \<longleftrightarrow> MAX_REPLAY_FRAMES < length fs \<or> MAX_REPLAY_BYTES < frames_size to_vec fs) \<and>
      (\<not> cp_overflowed c \<longrightarrow> cp_frames c = fs \<and> cp_bytes c = frames_size to_vec fs)"
proof (induction fs rule: rev_induct)
  case Nil
  then show ?case by (simp add: captured_empty_def frames_size_def MAX_REPLAY_FRAMES_def MAX_REPLAY_BYTES_def)
next
  case (snoc f fs)
  then show ?case by (auto simp: Let_def capture_frame_def frames_size_def)
qed


section \<open>Sequence numbers of the trajectory\<close>

text \<open>
  What the code relies on: an encoded record is one nonblank line, and decodes to itself.
\<close>

definition trajectory_codec_ok :: "trajectory_codec \<Rightarrow> bool" where
  "trajectory_codec_ok tc \<longleftrightarrow> (\<forall>r l. tj_vec tc r = Inr l \<longrightarrow>
     CHR 0x0A \<notin> set l \<and> l \<noteq> [] \<and> last l \<noteq> CHR 0x0D \<and> \<not> blank l \<and> tj_str tc l = Inr r)"

text \<open>The records whose encodings are the lines of the file.\<close>

definition file_records :: "trajectory_codec \<Rightarrow> rstr option \<Rightarrow> trajectory_record list \<Rightarrow> bool" where
  "file_records tc file rs \<longleftrightarrow> (\<exists>ls. list_all2 (\<lambda>r l. tj_vec tc r = Inr l) rs ls \<and>
     (case file of None \<Rightarrow> [] | Some bytes \<Rightarrow> bytes) = concat (map (\<lambda>l. l @ [CHR 0x0A]) ls))"

lemma lines_of_records:
  assumes "trajectory_codec_ok tc" and "list_all2 (\<lambda>r l. tj_vec tc r = Inr l) rs ls"
  shows "str_lines (concat (map (\<lambda>l. l @ [CHR 0x0A]) ls)) = ls"
  using assms(2)
proof (induction rule: list_all2_induct)
  case (Cons r rs l ls)
  then have l: "CHR 0x0A \<notin> set l" "strip_cr l = l"
    using assms(1) by (auto simp: trajectory_codec_ok_def strip_cr_def)
  then show ?case
    using str_lines_line [OF l(1), of "concat (map (\<lambda>l. l @ [CHR 0x0A]) ls)"] Cons.IH by simp
qed simp

lemma scan_records:
  assumes "trajectory_codec_ok tc" and "list_all2 (\<lambda>r l. tj_vec tc r = Inr l) rs ls"
  shows "scan_lines tc ls n = Inr (foldl (\<lambda>n r. max n (sat_add (tj_sequence r) 1)) n rs)"
  using assms(2)
proof (induction arbitrary: n rule: list_all2_induct)
  case (Cons r rs l ls)
  then have "\<not> blank l" "tj_str tc l = Inr r"
    using assms(1) by (auto simp: trajectory_codec_ok_def)
  then show ?case using Cons.IH by simp
qed simp

text \<open>
  The invariant of the trajectory: increasing sequence numbers, all below the next one, which
  is at most the number of calls so far.
\<close>

definition numbered :: "trajectory_record list \<Rightarrow> nat \<Rightarrow> bool" where
  "numbered rs n \<longleftrightarrow> sorted_wrt (<) (map tj_sequence rs) \<and> (\<forall>r\<in>set rs. unat (tj_sequence r) < n)"

definition trajectory_ok :: "trajectory_codec \<Rightarrow> nat \<Rightarrow> trajectory \<Rightarrow> bool" where
  "trajectory_ok tc k t \<longleftrightarrow> (\<exists>rs. file_records tc (tr_file t) rs \<and> numbered rs k \<and>
     (\<forall>n. tr_next t = Some n \<longrightarrow> unat n \<le> k \<and> numbered rs (unat n)))"

lemma scanned_next:
  assumes "numbered rs k" and "k < 2 ^ 64 - 1"
  shows "unat (foldl (\<lambda>n r. max n (sat_add (tj_sequence r) 1)) 0 rs) \<le> k \<and>
    numbered rs (unat (foldl (\<lambda>n r. max n (sat_add (tj_sequence r) 1)) 0 rs))"
  using assms(1)
proof (induction rs rule: rev_induct)
  case (snoc r rs)
  let ?n = "foldl (\<lambda>n r. max n (sat_add (tj_sequence r) 1)) 0 rs"
  have IH: "unat ?n \<le> k" "numbered rs (unat ?n)"
    using snoc by (auto simp: numbered_def sorted_wrt_append)
  have r: "unat (tj_sequence r) < k" using snoc.prems by (simp add: numbered_def)
  have "unat (sat_add (tj_sequence r) 1) = Suc (unat (tj_sequence r))"
    using r assms(2) by (simp add: unat_sat_add)
  moreover have "unat (max ?n (sat_add (tj_sequence r) 1)) = max (unat ?n) (unat (sat_add (tj_sequence r) 1))"
    by (simp add: max_def word_le_nat_alt)
  ultimately show ?case
    using IH r snoc.prems by (auto simp: numbered_def)
qed (simp add: numbered_def)

text \<open>A write that is not torn writes the whole line or nothing of it.\<close>

definition whole_write :: "tio \<Rightarrow> bool" where
  "whole_write io \<longleftrightarrow> (case tio_write io of None \<Rightarrow> True | Some (n, _) \<Rightarrow> n = 0)"

lemma file_records_append:
  assumes "file_records tc file rs" and "tj_vec tc r = Inr l"
  shows "file_records tc (Some ((case file of None \<Rightarrow> [] | Some bytes \<Rightarrow> bytes) @ l @ [CHR 0x0A]))
    (rs @ [r])"
proof -
  obtain ls where "list_all2 (\<lambda>r l. tj_vec tc r = Inr l) rs ls"
      "(case file of None \<Rightarrow> [] | Some bytes \<Rightarrow> bytes) = concat (map (\<lambda>l. l @ [CHR 0x0A]) ls)"
    using assms(1) by (auto simp: file_records_def)
  then show ?thesis
    using assms(2) unfolding file_records_def
    by (intro exI [of _ "ls @ [l]"]) (simp add: list_all2_appendI)
qed

lemma append_trajectory_file:
  assumes "append_trajectory tc io t r = (t', res)" and "whole_write io"
  shows "tr_next t' = tr_next t \<and> (tr_file t' = tr_file t
    \<or> tr_file t' = Some (case tr_file t of None \<Rightarrow> [] | Some bytes \<Rightarrow> bytes)
    \<or> (\<exists>l. tj_vec tc r = Inr l \<and>
         tr_file t' = Some ((case tr_file t of None \<Rightarrow> [] | Some bytes \<Rightarrow> bytes) @ l @ [CHR 0x0A])))"
  using assms
  by (auto simp: append_trajectory_def whole_write_def Let_def
      split: option.splits sum.splits prod.splits)

lemma numbered_mono: "numbered rs m \<Longrightarrow> m \<le> n \<Longrightarrow> numbered rs n"
  by (auto simp: numbered_def)

lemma record_trajectory_ok:
  assumes "trajectory_codec_ok tc" and "trajectory_ok tc k t" and "whole_write io"
    and "k < 2 ^ 64 - 1" and "record_trajectory tc io t r = (t', res)"
  shows "trajectory_ok tc (Suc k) t'"
proof -
  obtain rs where rs: "file_records tc (tr_file t) rs" "numbered rs k"
      "\<And>n. tr_next t = Some n \<Longrightarrow> unat n \<le> k \<and> numbered rs (unat n)"
    using assms(2) by (auto simp: trajectory_ok_def)
  obtain ls where ls: "list_all2 (\<lambda>r l. tj_vec tc r = Inr l) rs ls"
      "(case tr_file t of None \<Rightarrow> [] | Some bytes \<Rightarrow> bytes) = concat (map (\<lambda>l. l @ [CHR 0x0A]) ls)"
    using rs(1) by (auto simp: file_records_def)
  have scan: "unat n \<le> k \<and> numbered rs (unat n)" if n: "scan_next_sequence tc io t = Inr n" for n
  proof (cases "tr_file t")
    case None
    then have "rs = []" using ls by (cases ls) auto
    then show ?thesis using n None by (simp add: scan_next_sequence_def numbered_def)
  next
    case (Some bytes)
    then have "scan_lines tc ls 0 = Inr n"
      using n ls lines_of_records [OF assms(1) ls(1)]
      by (auto simp: scan_next_sequence_def split: option.splits)
    then show ?thesis
      using scan_records [OF assms(1) ls(1), of 0] scanned_next [OF rs(2) assms(4)] by simp
  qed
  have written: "trajectory_ok tc (Suc k) t2"
    if "append_trajectory tc io (t\<lparr>tr_next := Some (sat_add n 1)\<rparr>) (r\<lparr>tj_sequence := n\<rparr>) = (t2, res2)"
      and n: "unat n \<le> k" "numbered rs (unat n)" for n t2 res2
  proof -
    let ?t = "t\<lparr>tr_next := Some (sat_add n 1)\<rparr>" and ?r = "r\<lparr>tj_sequence := n\<rparr>"
    have bump: "unat (sat_add n 1) = Suc (unat n)"
      using n(1) assms(4) by (simp add: unat_sat_add)
    have same: "trajectory_ok tc (Suc k) t3"
      if "tr_next t3 = Some (sat_add n 1)" "file_records tc (tr_file t3) us"
        "numbered us (Suc (unat n))" for t3 us
      using that bump n(1) numbered_mono [OF that(3), of "Suc k"]
      unfolding trajectory_ok_def by (intro exI [of _ us]) simp
    have kept: "file_records tc (Some (case tr_file t of None \<Rightarrow> [] | Some bytes \<Rightarrow> bytes)) rs"
      using ls by (auto simp: file_records_def)
    have added: "numbered (rs @ [?r]) (Suc (unat n))"
      using n(2) by (auto simp: numbered_def sorted_wrt_append word_less_nat_alt)
    have old: "numbered rs (Suc (unat n))" using numbered_mono [OF n(2)] by simp
    from append_trajectory_file [OF that(1) assms(3)] show ?thesis
      using same [of t2 rs] same [of t2 "rs @ [?r]"] rs(1) kept old added
        file_records_append [OF rs(1), of ?r] by auto
  qed
  have unchanged: "trajectory_ok tc (Suc k) t"
    using rs numbered_mono [OF rs(2), of "Suc k"] unfolding trajectory_ok_def
    by (intro exI [of _ rs]) (auto intro: le_SucI)
  show ?thesis
    using assms(5) written scan rs(3) unchanged
    by (auto simp: record_trajectory_def split: option.splits sum.splits)
qed


text \<open>The calls on a trajectory, with restarts of the process between them.\<close>

fun trajectory_call ::
    "trajectory_codec \<Rightarrow> trajectory \<Rightarrow> (tio \<times> trajectory_record) option \<Rightarrow> trajectory" where
  "trajectory_call tc t None = t\<lparr>tr_next := None\<rparr>"
| "trajectory_call tc t (Some (io, r)) = fst (record_trajectory tc io t r)"

lemma trajectory_calls_ok:
  assumes "trajectory_codec_ok tc" and "trajectory_ok tc k t"
    and "list_all (\<lambda>call. case call of None \<Rightarrow> True | Some (io, _) \<Rightarrow> whole_write io) calls"
    and "k + length calls < 2 ^ 64"
  shows "trajectory_ok tc (k + length calls) (foldl (trajectory_call tc) t calls)"
  using assms(2-4)
proof (induction calls arbitrary: k t)
  case (Cons call calls)
  have "trajectory_ok tc (Suc k) (trajectory_call tc t call)"
  proof (cases call)
    case None
    then show ?thesis
      using Cons.prems(1) numbered_mono
      by (fastforce simp: trajectory_ok_def)
  next
    case (Some p)
    obtain io r where p: "p = (io, r)" by (cases p)
    obtain t' res where "record_trajectory tc io t r = (t', res)"
      by (cases "record_trajectory tc io t r")
    then show ?thesis
      using record_trajectory_ok [OF assms(1) Cons.prems(1), of io r t' res] Cons.prems(2,3) Some p
      by simp
  qed
  then show ?case
    using Cons.IH [of "Suc k" "trajectory_call tc t call"] Cons.prems(2,3) by simp
qed simp

section \<open>A torn line\<close>

text \<open>
  A host that has not yet read a trajectory file in which a nonblank line does not decode.
\<close>

definition torn :: "trajectory_codec \<Rightarrow> trajectory \<Rightarrow> bool" where
  "torn tc t \<longleftrightarrow> tr_next t = None \<and> (\<exists>bytes line error. tr_file t = Some bytes \<and>
     line \<in> set (str_lines bytes) \<and> \<not> blank line \<and> tj_str tc line = Inl error)"

text \<open>
  A call of \<open>record\<close> that gets to its write, which ends early: some of the record's bytes are
  written and some are not. (A write that loses no more than the newline is not meant: its line
  decodes.)
\<close>

definition written_in_part :: "trajectory_codec \<Rightarrow> tio \<Rightarrow> trajectory \<Rightarrow> trajectory_record \<Rightarrow> bool" where
  "written_in_part tc io t r \<longleftrightarrow> tio_mkdir io = None \<and> tio_open io = None \<and>
     (\<exists>n l k error. (case tr_next t of Some n \<Rightarrow> Inr n | None \<Rightarrow> scan_next_sequence tc io t) = Inr n \<and>
        tj_vec tc (r\<lparr>tj_sequence := n\<rparr>) = Inr l \<and>
        tio_write io = Some (k, error) \<and> 0 < k \<and> k < length l)"

text \<open>What the code relies on: a JSON object that is cut short is not a JSON text.\<close>

definition cut_short_fails :: "trajectory_codec \<Rightarrow> bool" where
  "cut_short_fails tc \<longleftrightarrow> (\<forall>r l k. tj_vec tc r = Inr l \<longrightarrow> 0 < k \<longrightarrow> k < length l \<longrightarrow>
     \<not> blank (take k l) \<and> (\<exists>error. tj_str tc (take k l) = Inl error))"

lemma str_lines_unended_line: "CHR 0x0A \<notin> set l \<Longrightarrow> l \<noteq> [] \<Longrightarrow> str_lines l = [l]"
  by (simp add: str_lines_def)

lemma str_lines_tail:
  assumes "\<forall>l\<in>set ls. CHR 0x0A \<notin> set l" and "CHR 0x0A \<notin> set tail" and "tail \<noteq> []"
  shows "tail \<in> set (str_lines (concat (map (\<lambda>l. l @ [CHR 0x0A]) ls) @ tail))"
  using assms(1)
proof (induction ls)
  case Nil
  then show ?case using assms(2,3) by (simp add: str_lines_unended_line)
next
  case (Cons l ls)
  then show ?case
    using str_lines_line [of l "concat (map (\<lambda>l. l @ [CHR 0x0A]) ls) @ tail"] by simp
qed

lemma record_in_part:
  assumes "trajectory_codec_ok tc" and "cut_short_fails tc" and "file_records tc (tr_file t) rs"
    and "written_in_part tc io t r" and "record_trajectory tc io t r = (t', res)"
  shows "(\<exists>error. res = Inl error) \<and> torn tc (t'\<lparr>tr_next := None\<rparr>)"
proof -
  obtain n l k error where w: "tio_mkdir io = None" "tio_open io = None"
      "(case tr_next t of Some n \<Rightarrow> Inr n | None \<Rightarrow> scan_next_sequence tc io t) = Inr n"
      "tj_vec tc (r\<lparr>tj_sequence := n\<rparr>) = Inr l" "tio_write io = Some (k, error)" "0 < k" "k < length l"
    using assms(4) by (auto simp: written_in_part_def)
  define old where "old = (case tr_file t of None \<Rightarrow> [] | Some bytes \<Rightarrow> bytes)"
  have t': "t' = t\<lparr>tr_next := Some (sat_add n 1), tr_file := Some (old @ take k l)\<rparr>" "res = Inl error"
    using assms(5) w by (auto simp: record_trajectory_def append_trajectory_def Let_def old_def)
  obtain ls where ls: "list_all2 (\<lambda>r l. tj_vec tc r = Inr l) rs ls"
      "old = concat (map (\<lambda>l. l @ [CHR 0x0A]) ls)"
    using assms(3) by (auto simp: file_records_def old_def)
  have "\<forall>l\<in>set ls. CHR 0x0A \<notin> set l"
    using ls(1) assms(1)
    by (auto simp: list_all2_conv_all_nth in_set_conv_nth trajectory_codec_ok_def) metis
  moreover have "CHR 0x0A \<notin> set (take k l)"
    using assms(1) w(4) by (auto simp: trajectory_codec_ok_def dest!: in_set_takeD)
  moreover have "take k l \<noteq> []" using w(6,7) by auto
  ultimately have line: "take k l \<in> set (str_lines (old @ take k l))"
    unfolding ls(2) by (rule str_lines_tail)
  have cut: "\<not> blank (take k l) \<and> (\<exists>error. tj_str tc (take k l) = Inl error)"
    using assms(2) w(4,6,7) unfolding cut_short_fails_def by blast
  show ?thesis
    unfolding torn_def t' using line cut by simp blast
qed

lemma scan_torn:
  assumes "line \<in> set ls" and "\<not> blank line" and "tj_str tc line = Inl error"
  shows "\<exists>e. scan_lines tc ls n = Inl e"
  using assms
proof (induction ls arbitrary: n)
  case (Cons l ls)
  then show ?case
    by (cases "blank l"; cases "tj_str tc l") auto
qed simp

lemma record_torn:
  assumes "torn tc t"
  shows "\<exists>error. record_trajectory tc io t r = (t, Inl error)"
proof -
  obtain bytes line error where t: "tr_next t = None" "tr_file t = Some bytes"
      "line \<in> set (str_lines bytes)" "\<not> blank line" "tj_str tc line = Inl error"
    using assms by (auto simp: torn_def)
  obtain e where "scan_next_sequence tc io t = Inl e"
    using t(2) scan_torn [OF t(3-5), of 0]
    by (cases "tio_read io") (auto simp: scan_next_sequence_def)
  then show ?thesis using t(1) by (cases "tio_mkdir io") (auto simp: record_trajectory_def)
qed

definition idle :: "trajectory_codec \<Rightarrow> 'v system \<Rightarrow> bool" where
  "idle tc s \<longleftrightarrow> torn tc (ho_trajectory (sy_host s)) \<and>
     (\<forall>n i. sy_invocations s n = Some i \<longrightarrow> \<not> plugin_called (in_phase i))"

lemma idle_put:
  assumes "idle tc s" and "ho_trajectory (fst hi) = ho_trajectory (sy_host s)"
    and "\<not> plugin_called (in_phase (snd hi))"
  shows "idle tc (put_invocation n hi s)"
  using assms by (auto simp: idle_def)

lemma idle_step:
  assumes "host_step c tc js s t" and "idle tc s"
  shows "idle tc t"
proof -
  have torn: "torn tc (ho_trajectory (sy_host s))" using assms(2) by (simp add: idle_def)
  have quiet: "\<not> plugin_called (in_phase i)" if "sy_invocations s n = Some i" for n i
    using assms(2) that by (auto simp: idle_def)
  from assms(1) show ?thesis
  proof (cases rule: host_step.cases)
    case (registering m h r)
    then show ?thesis using assms(2) host_register_facts(3) [OF registering(3)] by (simp add: idle_def)
  next
    case (answered n rq out h response)
    then show ?thesis using assms(2) handle_inner_answered(3) [OF answered(3)] by (simp add: idle_def)
  next
    case (begun n rq out h i)
    then show ?thesis
      using handle_inner_begun [OF begun(3)] by (auto intro!: idle_put [OF assms(2)])
  next
    case (reserved n i io)
    then show ?thesis
      by (auto intro!: idle_put [OF assms(2)] simp: invoke_reserve_def reservation_phase_def
          split: prod.splits sum.splits reservation.splits)
  next
    case (released n i a)
    then show ?thesis
      by (auto intro!: idle_put [OF assms(2)] simp: invoke_release_def deactivate_def
          split: after.splits)
  next
    case (replayed n i ps tm delivered)
    then show ?thesis
      by (auto intro!: idle_put [OF assms(2)] simp: invoke_replay_def split: list.splits)
  next
    case (started n i rh tio)
    let ?rec = "invocation_record tio i TStarted None"
    obtain e where "record_trajectory tc tio (ho_trajectory (sy_host s)) ?rec
        = (ho_trajectory (sy_host s), Inl e)"
      using record_torn [OF torn] by blast
    then show ?thesis
      using started(1)
      by (auto intro!: idle_put [OF assms(2)] simp: invoke_start_def host_record_def)
  next
    case restarted
    then show ?thesis using torn by (simp add: idle_def host_restart_def torn_def)
  qed (use quiet in \<open>force+\<close>)
qed

interpretation idle_hosts: state_machine "host_step c tc js" "idle tc"
  by unfold_locales (rule idle_step)


section \<open>An example\<close>

definition host_example_json :: "unit host_json" where
  "host_example_json = \<lparr>js_pong = (), js_catalog = (\<lambda>_. ()), js_cancelled = (\<lambda>_ _. ()),
     js_shutdown = (\<lambda>_. ()), js_contract = (\<lambda>_ _ _ _. ()), js_frame = (\<lambda>_. Inr ''{}'')\<rparr>"

definition host_example_request :: "rstr \<Rightarrow> unit request" where
  "host_example_request request_id = \<lparr>rq_schema_version = PROTOCOL_VERSION,
     rq_request_id = request_id, rq_command = Invoke ''echo'' ''echo'' None ()\<rparr>"

definition echo_manifest :: manifest where
  "echo_manifest = \<lparr>mf_id = ''echo'', mf_version = ''1'', mf_description = ''echo'',
     mf_operations = {''echo''}, mf_capabilities = {}\<rparr>"

text \<open>A trajectory codec for the records of two invocations.\<close>

definition example_record ::
    "rstr \<Rightarrow> trajectory_status \<Rightarrow> rstr option \<Rightarrow> 64 word \<Rightarrow> trajectory_record" where
  "example_record request_id status error n =
     \<lparr>tj_schema_version = PROTOCOL_VERSION, tj_sequence = n, tj_timestamp_ms = 7,
     tj_request_id = request_id, tj_plugin = ''echo'', tj_operation = ''echo'', tj_status = status,
     tj_error = error\<rparr>"

definition example_records :: "(trajectory_record \<times> rstr) list" where
  "example_records =
     [(example_record ''r1'' TStarted None 0, ''zero''),
      (example_record ''r1'' TStarted None 1, ''one''),
      (example_record ''r2'' TStarted None 1, ''two''),
      (example_record ''r1'' TCompleted None 2, ''three''),
      (example_record ''r2'' TCancelled (Some ''plugin invocation cancelled'') 3, ''four'')]"

definition example_trajectory_codec :: trajectory_codec where
  "example_trajectory_codec = \<lparr>
     tj_vec = (\<lambda>r. case map_of example_records r of Some l \<Rightarrow> Inr l | None \<Rightarrow> Inl ''bad''),
     tj_str = (\<lambda>l. case map_of (map prod.swap example_records) l of
                 Some r \<Rightarrow> Inr r | None \<Rightarrow> Inl ''bad'')\<rparr>"

definition example_tio :: tio where
  "example_tio = \<lparr>tio_mkdir = None, tio_read = None, tio_open = None, tio_write = None,
     tio_now = 7\<rparr>"

lemma example_records_ok:
  "list_all (\<lambda>(r, l). CHR 0x0A \<notin> set l \<and> l \<noteq> [] \<and> last l \<noteq> CHR 0x0D \<and> \<not> blank l
     \<and> tj_str example_trajectory_codec l = Inr r
     \<and> list_all (\<lambda>k. \<not> blank (take k l) \<and> tj_str example_trajectory_codec (take k l) = Inl ''bad'')
         [1..<length l]) example_records"
  by code_simp

lemma example_record_line:
  assumes "tj_vec example_trajectory_codec r = Inr l"
  shows "(r, l) \<in> set example_records"
proof -
  have "map_of example_records r = Some l"
    using assms by (simp add: example_trajectory_codec_def split: option.splits)
  then show ?thesis by (rule map_of_SomeD)
qed

lemma example_trajectory_codec_ok: "trajectory_codec_ok example_trajectory_codec"
  using example_records_ok example_record_line unfolding list_all_iff trajectory_codec_ok_def by fast

lemma example_cut_short: "cut_short_fails example_trajectory_codec"
  unfolding cut_short_fails_def
proof (intro allI impI)
  fix r l k
  assume "tj_vec example_trajectory_codec r = Inr l" and k: "0 < k" "k < length l"
  then have "list_all (\<lambda>k. \<not> blank (take k l)
      \<and> tj_str example_trajectory_codec (take k l) = Inl ''bad'') [1..<length l]"
    using example_records_ok example_record_line unfolding list_all_iff [of _ example_records] by fast
  moreover have "k \<in> set [1..<length l]" using k by simp
  ultimately show "\<not> blank (take k l) \<and> (\<exists>error. tj_str example_trajectory_codec (take k l) = Inl error)"
    unfolding list_all_iff by blast
qed

text \<open>The steps of the example: a request begins, and an invocation takes its next step.\<close>

definition example_register :: "unit system \<Rightarrow> unit system" where
  "example_register s = s\<lparr>sy_host := fst (host_register_plugin (sy_host s) echo_manifest)\<rparr>"

definition example_begin :: "nat \<Rightarrow> rstr \<Rightarrow> unit system \<Rightarrow> unit system" where
  "example_begin n r s =
     (case handle_inner host_example_json (sy_host s) n (host_example_request r) True of
        (h, Inr i) \<Rightarrow> put_invocation n (h, i) s
      | (h, Inl _) \<Rightarrow> s\<lparr>sy_host := h\<rparr>)"

fun example_next :: "plugin_error + unit \<Rightarrow> host \<Rightarrow> unit invocation \<Rightarrow> unit phase \<Rightarrow>
    host \<times> unit invocation" where
  "example_next answer h i PReserve = invoke_reserve example_codec host_example_json example_io h i"
| "example_next answer h i (PRelease a) = invoke_release a h i"
| "example_next answer h i (PReplay ps t) = (h, invoke_replay True ps t i)"
| "example_next answer h i (PStart rh) = invoke_start example_trajectory_codec example_tio rh h i"
| "example_next answer h i (PRun rh) = (h, invoke_result answer rh h i)"
| "example_next answer h i (PFinish rh r) = invoke_finish rh r h i"
| "example_next answer h i (PRecord rh st r) =
     invoke_record example_trajectory_codec example_tio rh st r h i"
| "example_next answer h i (PComplete rh r) = invoke_complete example_codec example_io rh r h i"
| "example_next answer h i (PDone b r) = (h, i)"

definition example_advance :: "plugin_error + unit \<Rightarrow> nat \<Rightarrow> unit system \<Rightarrow> unit system" where
  "example_advance answer n s = (case sy_invocations s n of
     Some i \<Rightarrow> put_invocation n (example_next answer (sy_host s) i (in_phase i)) s
   | None \<Rightarrow> s)"

abbreviation example_reach :: "unit system \<Rightarrow> unit system \<Rightarrow> bool" where
  "example_reach \<equiv> (host_step example_codec example_trajectory_codec host_example_json)\<^sup>*\<^sup>*"

lemma example_begin_step:
  "sy_invocations s n = None \<Longrightarrow> example_reach s (example_begin n r s)"
  unfolding example_begin_def
  by (auto split: prod.splits sum.splits intro: answered begun)

lemma example_register_step:
  assumes "sy_invocations s = (\<lambda>_. None)"
  shows "example_reach s (example_register s)"
proof -
  obtain h r where h: "host_register_plugin (sy_host s) echo_manifest = (h, r)"
    by (cases "host_register_plugin (sy_host s) echo_manifest")
  then have "host_step example_codec example_trajectory_codec host_example_json s (s\<lparr>sy_host := h\<rparr>)"
    using assms by (intro registering [OF _ h]) simp
  then show ?thesis by (simp add: example_register_def h)
qed

lemma example_advance_step: "example_reach s (example_advance answer n s)"
proof (cases "sy_invocations s n")
  case None
  then show ?thesis by (simp add: example_advance_def)
next
  case (Some i)
  note i = Some
  show ?thesis
  proof (cases "in_phase i")
    case (PDone b r)
    then have "example_advance answer n s = s"
      using i by (simp add: example_advance_def put_invocation_def fun_upd_idem)
    then show ?thesis by simp
  qed (use i in \<open>auto simp: example_advance_def intro!: r_into_rtranclp
      intro: reserved released replayed started ran finished recorded completed\<close>)
qed

text \<open>
  A host with the plugin \<open>echo\<close>, two invocations of it under way: the plugin of the first has
  returned a result, that of the second was cancelled. Then both end.
\<close>

definition echo_host :: "unit system" where
  "echo_host = example_register (system_new [] [] None)"

definition two_runs :: "unit system" where
  "two_runs = foldl (\<lambda>s (answer, n). example_advance answer n s)
     (example_begin 1 ''r2'' (example_begin 0 ''r1'' echo_host))
     [(Inr (), 0), (Inr (), 1), (Inr (), 0), (Inr (), 1), (Inr (), 0), (Inr (), 0),
      (Inl PluginCancelled, 1)]"

definition both_done :: "unit system" where
  "both_done = foldl (\<lambda>s n. example_advance (Inr ()) n s) two_runs [0, 0, 1, 1, 1]"

lemma example_advances:
  "example_reach s t \<Longrightarrow> example_reach s (foldl (\<lambda>s (answer, n). example_advance answer n s) t xs)"
proof (induction xs arbitrary: t)
  case (Cons x xs)
  obtain answer n where x: "x = (answer, n)" by (cases x)
  have "example_reach s (example_advance answer n t)"
    using Cons.prems example_advance_step by (rule rtranclp_trans)
  with Cons.IH show ?case by (simp add: x)
qed simp

lemma echo_reachable: "example_reach (system_new [] [] None) echo_host"
  unfolding echo_host_def by (rule example_register_step) (simp add: system_new_def)

lemma two_runs_reachable: "example_reach (system_new [] [] None) two_runs"
proof -
  let ?s = "example_begin 0 ''r1'' echo_host"
  have "sy_invocations echo_host 0 = None" "sy_invocations ?s 1 = None" by code_simp+
  then have "example_reach (system_new [] [] None) (example_begin 1 ''r2'' ?s)"
    using echo_reachable example_begin_step by (metis rtranclp_trans)
  then show ?thesis unfolding two_runs_def by (rule example_advances)
qed

lemma both_done_reachable: "example_reach (system_new [] [] None) both_done"
  using example_advances [OF two_runs_reachable, of "map (Pair (Inr ())) [0, 0, 1, 1, 1]"]
  by (simp add: both_done_def)

lemma two_runs_phases:
  "map_option in_phase (sy_invocations two_runs 0) = Some (PRecord ''hnull'' TCompleted example_terminal)"
  "map_option in_request_id (sy_invocations two_runs 0) = Some ''r1''"
  "map_option in_phase (sy_invocations two_runs 1) = Some (PFinish ''hnull'' (Inl PluginCancelled))"
  "map_option in_request_id (sy_invocations two_runs 1) = Some ''r2''"
  by code_simp+

section \<open>Properties\<close>

text \<open>
  C26. One execution per request. However the steps of concurrent invocations, cancellations and
  restarts interleave, no two invocations that may run their plugin share a receipt, hence a
  request id; the receipt of each of them is on disk and in progress until it is completed.
\<close>

theorem one_execution_per_request:
  assumes "codec_ok c" and "om_wf d"
    and "(host_step c tc js)\<^sup>*\<^sup>* (system_new projects d file) s"
    and "sy_invocations s n = Some i" and "owned_hash (in_phase i) = Some rh"
  shows "(\<exists>f. om_get (st_disk (ho_store (sy_host s))) (receipt_path c (in_request_id i)) = Some f
      \<and> in_progress f) \<and>
    (\<forall>m j. m \<noteq> n \<and> sy_invocations s m = Some j \<and> owned_hash (in_phase j) \<noteq> None \<longrightarrow>
       receipt_path c (in_request_id j) \<noteq> receipt_path c (in_request_id i))"
proof -
  have ok: "receipts_ok c s" using host_ok_reachable [OF assms(1-3)] by (simp add: host_ok_def)
  then have "owned c (st_disk (ho_store (sy_host s))) i rh"
    using assms(4,5) unfolding receipts_ok_def by blast
  then show ?thesis
    using ok assms(4,5) started_in_progress [OF assms(1)]
    unfolding receipts_ok_def owned_def by (metis option.distinct(1))
qed

theorem one_execution_per_request_witness:
  "\<exists>f. om_get (st_disk (ho_store (sy_host two_runs))) ''hr1.jsonl'' = Some f \<and> in_progress f"
proof -
  obtain i where i: "sy_invocations two_runs 0 = Some i" "owned_hash (in_phase i) = Some ''hnull''"
    "in_request_id i = ''r1''" using two_runs_phases by auto
  show ?thesis
    using one_execution_per_request [OF example_codec_ok om_wf_Nil two_runs_reachable i(1,2)] i(3)
    by (auto simp: receipt_path_def example_codec_def)
qed

text \<open>
  C28. Cancellation reaches exactly the registered work. In every reachable state a \<open>Cancel\<close> of a
  request id cancels the invocations that hold that id between registration and the end of their
  plugin, and nothing else; it reports whether there was one. \<open>Shutdown\<close> cancels all of them.
\<close>

theorem cancellation_reaches_registered:
  assumes "(host_step c tc js)\<^sup>*\<^sup>* (system_new projects d file) s" and "codec_ok c" and "om_wf d"
  shows "(m \<in> ho_cancelled (fst (cancel_request r (sy_host s))) \<longleftrightarrow> m \<in> ho_cancelled (sy_host s) \<or>
      (\<exists>i. sy_invocations s m = Some i \<and> in_request_id i = r \<and> registered (in_phase i))) \<and>
    (snd (cancel_request r (sy_host s)) \<longleftrightarrow>
      (\<exists>m i. sy_invocations s m = Some i \<and> in_request_id i = r \<and> registered (in_phase i))) \<and>
    (m \<in> ho_cancelled (fst (shutdown_host (sy_host s))) \<longleftrightarrow> m \<in> ho_cancelled (sy_host s) \<or>
      (\<exists>i. sy_invocations s m = Some i \<and> registered (in_phase i)))"
proof -
  have ok: "active_ok s" using host_ok_reachable [OF assms(2,3,1)] by (simp add: host_ok_def)
  have get: "om_get (ho_active (sy_host s)) r = Some m \<longleftrightarrow>
      (\<exists>i. sy_invocations s m = Some i \<and> in_request_id i = r \<and> registered (in_phase i))" for r m
    using ok unfolding active_ok_def by blast
  have tokens: "m \<in> set (om_values (ho_active (sy_host s))) \<longleftrightarrow>
      (\<exists>r. om_get (ho_active (sy_host s)) r = Some m)" for m
    using ok by (force simp: active_ok_def dest: om_wf_distinct map_of_SomeD intro: map_of_is_SomeI)
  have all: "m \<in> set (om_values (ho_active (sy_host s))) \<longleftrightarrow>
      (\<exists>i. sy_invocations s m = Some i \<and> registered (in_phase i))" for m
    using tokens [of m] get by blast
  have shut: "ho_cancelled (fst (shutdown_host (sy_host s)))
      = ho_cancelled (sy_host s) \<union> set (om_values (ho_active (sy_host s)))"
    by (simp add: shutdown_host_def)
  have one: "m \<in> ho_cancelled (fst (cancel_request r (sy_host s))) \<longleftrightarrow>
      m \<in> ho_cancelled (sy_host s) \<or> om_get (ho_active (sy_host s)) r = Some m"
    by (auto simp: cancel_request_def split: option.split)
  have found: "snd (cancel_request r (sy_host s)) \<longleftrightarrow>
      (\<exists>m. om_get (ho_active (sy_host s)) r = Some m)"
    by (auto simp: cancel_request_def split: option.split)
  show ?thesis
    unfolding one found shut get Un_iff all by blast
qed

theorem cancellation_reaches_registered_witness:
  "1 \<in> ho_cancelled (fst (cancel_request ''r2'' (sy_host two_runs)))
   \<and> 0 \<notin> ho_cancelled (fst (cancel_request ''r1'' (sy_host two_runs)))"
proof -
  obtain i where i: "sy_invocations two_runs 1 = Some i" "registered (in_phase i)"
    "in_request_id i = ''r2''" using two_runs_phases by auto
  obtain j where j: "sy_invocations two_runs 0 = Some j" "\<not> registered (in_phase j)"
    using two_runs_phases by auto
  have "ho_cancelled (sy_host two_runs) = {}" by code_simp
  then show ?thesis
    using cancellation_reaches_registered [OF two_runs_reachable example_codec_ok om_wf_Nil, of 1 "''r2''"]
      cancellation_reaches_registered [OF two_runs_reachable example_codec_ok om_wf_Nil, of 0 "''r1''"] i j
    by auto
qed

text \<open>
  C31. Answers are correlated. Every response the host gives to a request, at once or at the end
  of an invocation, carries that request's id and the protocol version and is terminal; the
  only others are responses replayed from a receipt.
\<close>

theorem answers_are_correlated:
  assumes "(host_step c tc js)\<^sup>*\<^sup>* (system_new projects d file) s"
  shows "(\<forall>n i r. sy_invocations s n = Some i \<and> in_phase i = PDone False r \<longrightarrow>
      answer_ok (in_request_id i) r) \<and>
    (\<forall>js n rq output h r. handle_inner js (sy_host s) n rq output = (h, Inl r) \<longrightarrow>
      answer_ok (rq_request_id rq) r)"
proof -
  have "answers_ok (system_new projects d file :: 'a system)"
    by (simp add: answers_ok_def system_new_def)
  then have "answers_ok s" by (rule answers.inv_reachable [OF assms])
  then show ?thesis by (auto simp: answers_ok_def handle_inner_answer)
qed

theorem answers_are_correlated_witness:
  "\<exists>i. sy_invocations both_done 0 = Some i
     \<and> in_phase i = PDone False (response_result (Some ''r1'') ''plugin_result'' ())
     \<and> answer_ok ''r1'' (response_result (Some ''r1'') ''plugin_result'' ())"
proof -
  have "map_option in_phase (sy_invocations both_done 0)
      = Some (PDone False (response_result (Some ''r1'') ''plugin_result'' ()))"
    "map_option in_request_id (sy_invocations both_done 0) = Some ''r1''" by code_simp+
  then obtain i where i: "sy_invocations both_done 0 = Some i"
    "in_phase i = PDone False (response_result (Some ''r1'') ''plugin_result'' ())"
    "in_request_id i = ''r1''" by auto
  from answers_are_correlated [OF both_done_reachable, THEN conjunct1, rule_format, OF conjI, OF i(1,2)]
  show ?thesis using i by simp
qed

text \<open>
  C30. Captured frames are replayed in order. In whatever order the overlapping emits of a plugin
  reach the capture, \<open>finish\<close> gives all of them by sequence number, exactly when there are at most
  4096 of at most 8 MiB together; otherwise no frame is kept.
\<close>

theorem captured_frames_in_order:
  "capture_finish (foldl (capture_frame to_vec) captured_empty fs) =
     (if length fs \<le> 4096 \<and> frames_size to_vec fs \<le> 8 * 1024 * 1024
      then Inr (sort_key frame_key fs) else Inl ())"
  using capture_fold [of to_vec fs]
  by (auto simp: Let_def capture_finish_def MAX_REPLAY_FRAMES_def MAX_REPLAY_BYTES_def)

text \<open>
  C29. Trajectory records are numbered strictly increasing. From no file, whatever records are
  written and however often the process restarts, as long as no write is torn, the file is a
  sequence of encoded records with increasing sequence numbers.
\<close>

theorem trajectory_sequences_increase:
  assumes "trajectory_codec_ok tc" and "length calls < 2 ^ 64"
    and "list_all (\<lambda>call. case call of None \<Rightarrow> True | Some (io, _) \<Rightarrow> whole_write io) calls"
  shows "\<exists>rs. file_records tc
      (tr_file (foldl (trajectory_call tc) (ho_trajectory (host_new projects d None)) calls)) rs \<and>
    sorted_wrt (<) (map tj_sequence rs)"
proof -
  have "trajectory_ok tc 0 (ho_trajectory (host_new projects d None))"
    by (simp add: trajectory_ok_def host_new_def file_records_def numbered_def)
  from trajectory_calls_ok [OF assms(1) this assms(3)] show ?thesis
    using assms(2) by (auto simp: trajectory_ok_def numbered_def)
qed

theorem trajectory_sequences_increase_witness:
  "\<exists>rs. file_records example_trajectory_codec (Some (''zero'' @ [CHR 0x0A] @ ''one'' @ [CHR 0x0A])) rs
     \<and> sorted_wrt (<) (map tj_sequence rs)"
proof -
  let ?calls = "[Some (example_tio, example_record ''r1'' TStarted None 9), None, Some (example_tio, example_record ''r1'' TStarted None 9)]"
  have "tr_file (foldl (trajectory_call example_trajectory_codec)
      (ho_trajectory (host_new [] [] None)) ?calls)
    = Some (''zero'' @ [CHR 0x0A] @ ''one'' @ [CHR 0x0A])" by code_simp
  moreover have "list_all (\<lambda>call. case call of None \<Rightarrow> True | Some (io, _) \<Rightarrow> whole_write io) ?calls"
    by code_simp
  ultimately show ?thesis
    using trajectory_sequences_increase [OF example_trajectory_codec_ok, of ?calls "[]" "[]"] by simp
qed

text \<open>
  C27. A torn trajectory line stops the host. When a record reaches the trajectory only in part,
  some of its bytes written and some not, and the process ends and is started again, then no plugin
  ever runs any more, whichever plugins are registered: each invocation fails to record its start,
  through further restarts, until somebody repairs the file by hand.
\<close>

theorem torn_trajectory_stops_host:
  assumes "trajectory_codec_ok tc" and "cut_short_fails tc"
    and "file_records tc (tr_file (ho_trajectory h)) rs"
    and "written_in_part tc tio (ho_trajectory h) (invocation_record tio i status error)"
    and "host_record tc tio h i status error = (h', res)"
    and "(host_step c tc js)\<^sup>*\<^sup>* \<lparr>sy_host = host_restart h', sy_invocations = (\<lambda>_. None)\<rparr> s"
    and "sy_invocations s n = Some j"
  shows "(\<exists>error. res = Inl error) \<and> \<not> plugin_called (in_phase j) \<and>
    (\<exists>error. record_trajectory tc tio' (ho_trajectory (sy_host s)) r
       = (ho_trajectory (sy_host s), Inl error))"
proof -
  obtain t where t: "record_trajectory tc tio (ho_trajectory h) (invocation_record tio i status error)
      = (t, res)" "h' = h\<lparr>ho_trajectory := t\<rparr>"
    using assms(5) by (auto simp: host_record_def split: prod.splits)
  note part = record_in_part [OF assms(1-4) t(1)]
  then have "idle tc \<lparr>sy_host = host_restart h', sy_invocations = (\<lambda>_. None)\<rparr>"
    by (simp add: idle_def host_restart_def t(2))
  then have "idle tc s" by (rule idle_hosts.inv_reachable [OF assms(6)])
  then show ?thesis using assms(7) record_torn part by (auto simp: idle_def)
qed

text \<open>
  The example: the start of the second invocation is cut after two bytes. The process is started
  again, the plugin is registered, and an invocation is begun.
\<close>

definition torn_tio :: tio where
  "torn_tio = example_tio\<lparr>tio_write := Some (2, ''no space'')\<rparr>"

definition starting_runs :: "unit system" where
  "starting_runs = foldl (\<lambda>s n. example_advance (Inr ()) n s)
     (example_begin 1 ''r2'' (example_begin 0 ''r1'' echo_host)) [0, 1, 0]"

definition torn_host :: host where
  "torn_host = (case sy_invocations starting_runs 1 of
     Some i \<Rightarrow> fst (host_record example_trajectory_codec torn_tio (sy_host starting_runs) i TStarted None)
   | None \<Rightarrow> sy_host starting_runs)"

definition torn_restart :: "unit system" where
  "torn_restart = foldl (\<lambda>s n. example_advance (Inr ()) n s)
     (example_begin 0 ''r3'' (example_register
       \<lparr>sy_host = host_restart torn_host, sy_invocations = (\<lambda>_. None)\<rparr>)) [0, 0]"

lemma torn_restart_reachable:
  "example_reach \<lparr>sy_host = host_restart torn_host, sy_invocations = (\<lambda>_. None)\<rparr> torn_restart"
proof -
  let ?s = "\<lparr>sy_host = host_restart torn_host, sy_invocations = (\<lambda>_. None)\<rparr> :: unit system"
  have "example_reach ?s (example_register ?s)" by (rule example_register_step) simp
  moreover have "sy_invocations (example_register ?s) 0 = None" by (simp add: example_register_def)
  ultimately have "example_reach ?s (example_begin 0 ''r3'' (example_register ?s))"
    using example_begin_step by (metis rtranclp_trans)
  from example_advances [OF this, of "map (Pair (Inr ())) [0, 0]"] show ?thesis
    by (simp add: torn_restart_def)
qed

theorem torn_trajectory_stops_host_witness:
  "\<exists>i. sy_invocations torn_restart 0 = Some i \<and> \<not> plugin_called (in_phase i)
     \<and> ho_plugins (sy_host torn_restart) \<noteq> []"
proof -
  let ?h = "sy_host starting_runs"
  have "map_option (invocation_record torn_tio) (sy_invocations starting_runs 1) \<noteq> None
      \<and> (case sy_invocations starting_runs 1 of Some i \<Rightarrow>
           invocation_record torn_tio i TStarted None = (example_record ''r2'' TStarted None 0)
         | None \<Rightarrow> False)"
    by code_simp
  then obtain i where i: "sy_invocations starting_runs 1 = Some i"
      "invocation_record torn_tio i TStarted None = example_record ''r2'' TStarted None 0"
    by (cases "sy_invocations starting_runs 1") auto
  obtain h' res where r: "host_record example_trajectory_codec torn_tio ?h i TStarted None = (h', res)"
    by (cases "host_record example_trajectory_codec torn_tio ?h i TStarted None")
  have h': "h' = torn_host" using i(1) r by (simp add: torn_host_def)
  have tr: "ho_trajectory ?h = \<lparr>tr_file = Some (''zero'' @ [CHR 0x0A]), tr_next = Some 1\<rparr>"
    by code_simp
  have vec: "tj_vec example_trajectory_codec (example_record ''r1'' TStarted None 0) = Inr ''zero''"
    "tj_vec example_trajectory_codec ((example_record ''r2'' TStarted None 0)\<lparr>tj_sequence := 1\<rparr>)
      = Inr ''two''" by code_simp+
  have lines: "file_records example_trajectory_codec (tr_file (ho_trajectory ?h))
      [example_record ''r1'' TStarted None 0]"
    unfolding file_records_def tr using vec(1) by (intro exI [of _ "[''zero'']"]) simp
  have part: "written_in_part example_trajectory_codec torn_tio (ho_trajectory ?h)
      (invocation_record torn_tio i TStarted None)"
    unfolding written_in_part_def i(2) tr using vec(2) by (simp add: torn_tio_def example_tio_def)
  have "sy_invocations torn_restart 0 \<noteq> None" and p: "ho_plugins (sy_host torn_restart) \<noteq> []"
    by code_simp+
  then obtain j where j: "sy_invocations torn_restart 0 = Some j" by blast
  from torn_trajectory_stops_host [OF example_trajectory_codec_ok example_cut_short lines part r
      torn_restart_reachable [folded h'] j]
  show ?thesis using j p by blast
qed

end
