(* ===== verification/IndexMap.thy ===== *)
theory IndexMap
  imports OrdMap
begin

text \<open>
  \<open>IndexMap\<close>: an association list in insertion order. Inserting a present key replaces its
  value in place and keeps its position; a new key goes to the end; \<open>shift_remove\<close> closes the
  gap. \<open>PartialEq\<close> of an \<open>IndexMap\<close> ignores the order (\<open>im_eq\<close>). The interface
  \<open>finite_map\<close> is interpreted on it.

  The theory also holds the searches the projection makes in a vector: the first (\<open>iter_mut().find\<close>)
  and the last (\<open>iter_mut().rev().find\<close>) matching element, updated in place.
\<close>

section \<open>Insertion-ordered maps\<close>

type_synonym ('k, 'v) imap = "('k \<times> 'v) list"

definition im_wf :: "('k, 'v) imap \<Rightarrow> bool" where
  "im_wf m \<longleftrightarrow> distinct (map fst m)"

fun im_insert :: "'k \<Rightarrow> 'v \<Rightarrow> ('k, 'v) imap \<Rightarrow> ('k, 'v) imap" where
  "im_insert k v [] = [(k, v)]"
| "im_insert k v ((k', v') # m) = (if k = k' then (k, v) # m else (k', v') # im_insert k v m)"

definition im_shift_remove :: "'k \<Rightarrow> ('k, 'v) imap \<Rightarrow> ('k, 'v) imap" where
  "im_shift_remove k m = filter (\<lambda>p. fst p \<noteq> k) m"

definition im_contains :: "('k, 'v) imap \<Rightarrow> 'k \<Rightarrow> bool" where
  "im_contains m k \<longleftrightarrow> map_of m k \<noteq> None"

text \<open>\<open>if let Some(v) = m.get_mut(k) { *v = f(v) }\<close>\<close>

definition im_adjust :: "'k \<Rightarrow> ('v \<Rightarrow> 'v) \<Rightarrow> ('k, 'v) imap \<Rightarrow> ('k, 'v) imap" where
  "im_adjust k f m = (case map_of m k of None \<Rightarrow> m | Some v \<Rightarrow> im_insert k (f v) m)"

text \<open>\<open>*m.entry(k).or_insert_with(|| d) = f(..)\<close>\<close>

definition im_entry :: "'k \<Rightarrow> 'v \<Rightarrow> ('v \<Rightarrow> 'v) \<Rightarrow> ('k, 'v) imap \<Rightarrow> ('k, 'v) imap" where
  "im_entry k d f m = im_insert k (f (case map_of m k of None \<Rightarrow> d | Some v \<Rightarrow> v)) m"

text \<open>\<open>iter().collect::<IndexMap<_, _>>()\<close> and inserting every entry of another map.\<close>

definition im_extend :: "('k, 'v) imap \<Rightarrow> ('k \<times> 'v) list \<Rightarrow> ('k, 'v) imap" where
  "im_extend m ps = foldl (\<lambda>m (k, v). im_insert k v m) m ps"

definition im_eq :: "('k, 'v) imap \<Rightarrow> ('k, 'v) imap \<Rightarrow> bool" where
  "im_eq m n \<longleftrightarrow> length m = length n \<and> (\<forall>(k, v)\<in>set m. map_of n k = Some v)"

lemma im_wf_Nil [simp]: "im_wf []"
  by (simp add: im_wf_def)

lemma im_wf_Cons [simp]: "im_wf ((k, v) # m) \<longleftrightarrow> k \<notin> fst ` set m \<and> im_wf m"
  by (simp add: im_wf_def)

lemma map_of_im_insert [simp]: "map_of (im_insert k v m) = (map_of m)(k \<mapsto> v)"
  by (induction k v m rule: im_insert.induct) (auto simp: fun_eq_iff)

lemma keys_im_insert [simp]: "fst ` set (im_insert k v m) = insert k (fst ` set m)"
  by (induction k v m rule: im_insert.induct) auto

lemma im_wf_insert [simp]: "im_wf m \<Longrightarrow> im_wf (im_insert k v m)"
  by (induction k v m rule: im_insert.induct) auto

lemma map_of_im_shift_remove: "map_of (im_shift_remove k m) = (map_of m)(k := None)"
  by (induction m) (auto simp: im_shift_remove_def fun_eq_iff)

lemma keys_im_shift_remove [simp]: "fst ` set (im_shift_remove k m) = fst ` set m - {k}"
  by (auto simp: im_shift_remove_def)

lemma im_wf_shift_remove [simp]: "im_wf m \<Longrightarrow> im_wf (im_shift_remove k m)"
  by (induction m) (auto simp: im_shift_remove_def)

interpretation im: finite_map
  "[]" map_of im_insert im_shift_remove "map fst" "im_wf :: ('k, 'v) imap \<Rightarrow> bool"
  by unfold_locales
    (auto simp: map_of_im_shift_remove im_wf_def dom_map_of_conv_image_fst
      simp flip: im_wf_def)

lemma map_of_im_adjust: "map_of (im_adjust k f m) = (map_of m)(k := map_option f (map_of m k))"
  by (auto simp: im_adjust_def fun_eq_iff split: option.split)

lemma keys_im_adjust [simp]: "fst ` set (im_adjust k f m) = fst ` set m"
  by (auto simp: im_adjust_def split: option.split dest: map_of_SomeD)
    (metis fst_conv image_eqI map_of_SomeD)

lemma im_wf_adjust [simp]: "im_wf m \<Longrightarrow> im_wf (im_adjust k f m)"
  by (simp add: im_adjust_def split: option.split)

lemma map_of_im_entry:
  "map_of (im_entry k d f m) = (map_of m)(k \<mapsto> f (case map_of m k of None \<Rightarrow> d | Some v \<Rightarrow> v))"
  by (simp add: im_entry_def)

lemma keys_im_entry [simp]: "fst ` set (im_entry k d f m) = insert k (fst ` set m)"
  by (simp add: im_entry_def)

lemma im_wf_entry [simp]: "im_wf m \<Longrightarrow> im_wf (im_entry k d f m)"
  by (simp add: im_entry_def)

lemma im_insert_same: "map_of m k = Some v \<Longrightarrow> im_insert k v m = m"
  by (induction k v m rule: im_insert.induct) (auto split: if_splits)

lemma im_insert_twice: "im_insert k v (im_insert k w m) = im_insert k v m"
  by (induction k w m rule: im_insert.induct) auto

lemma im_extend_Nil [simp]: "im_extend m [] = m"
  by (simp add: im_extend_def)

lemma im_extend_Cons [simp]: "im_extend m ((k, v) # ps) = im_extend (im_insert k v m) ps"
  by (simp add: im_extend_def)

lemma im_wf_extend [simp]: "im_wf m \<Longrightarrow> im_wf (im_extend m ps)"
  by (induction ps arbitrary: m) auto

lemma keys_im_extend: "fst ` set (im_extend m ps) = fst ` set m \<union> fst ` set ps"
  by (induction ps arbitrary: m) (simp_all add: im_extend_def split_beta)

lemma map_of_im_extend: "map_of (im_extend m ps) = map_of m ++ map_of (rev ps)"
proof (induction ps arbitrary: m)
  case Nil
  then show ?case by simp
next
  case (Cons p ps)
  obtain k v where p: "p = (k, v)" by (cases p)
  then show ?case
    using Cons [of "im_insert k v m"]
    by (simp add: map_add_assoc fun_eq_iff map_add_def split: option.split)
qed

lemma im_eq_iff:
  assumes "im_wf m" and "im_wf n"
  shows "im_eq m n \<longleftrightarrow> map_of m = map_of n"
proof
  assume eq: "im_eq m n"
  have sub: "fst ` set m \<subseteq> fst ` set n"
    using eq by (force simp: im_eq_def dest!: map_of_SomeD)
  have "card (fst ` set m) = card (fst ` set n)"
    using assms eq by (simp add: im_wf_def im_eq_def distinct_card flip: set_map)
  then have keys: "fst ` set m = fst ` set n"
    using sub by (simp add: card_subset_eq)
  show "map_of m = map_of n"
  proof
    fix k
    show "map_of m k = map_of n k"
    proof (cases "map_of m k")
      case None
      then show ?thesis using keys by (metis map_of_eq_None_iff)
    next
      case (Some v)
      then have "map_of n k = Some v" using eq by (auto simp: im_eq_def dest!: map_of_SomeD)
      then show ?thesis using Some by simp
    qed
  qed
next
  assume eq: "map_of m = map_of n"
  then have "fst ` set m = fst ` set n"
    by (metis dom_map_of_conv_image_fst)
  then have "length m = length n"
    using assms by (metis distinct_card im_wf_def length_map set_map)
  then show "im_eq m n"
    using assms eq by (auto simp: im_eq_def im_wf_def dest: map_of_is_SomeI)
qed

section \<open>In-place searches\<close>

fun update_first :: "('a \<Rightarrow> bool) \<Rightarrow> ('a \<Rightarrow> 'a) \<Rightarrow> 'a list \<Rightarrow> 'a list option" where
  "update_first P f [] = None"
| "update_first P f (x # xs) =
     (if P x then Some (f x # xs) else map_option ((#) x) (update_first P f xs))"

definition update_last :: "('a \<Rightarrow> bool) \<Rightarrow> ('a \<Rightarrow> 'a) \<Rightarrow> 'a list \<Rightarrow> 'a list option" where
  "update_last P f xs = map_option rev (update_first P f (rev xs))"

lemma update_first_None_iff: "update_first P f xs = None \<longleftrightarrow> (\<forall>x\<in>set xs. \<not> P x)"
  by (induction xs) auto

lemma update_first_SomeE:
  assumes "update_first P f xs = Some ys"
  obtains as x bs where "xs = as @ x # bs" "ys = as @ f x # bs" "P x" "\<forall>a\<in>set as. \<not> P a"
  using assms
proof (induction xs arbitrary: ys thesis)
  case Nil
  then show ?case by simp
next
  case (Cons z zs)
  show ?case
  proof (cases "P z")
    case True
    then show ?thesis using Cons.prems(1) [of "[]" z zs] Cons.prems(2) by simp
  next
    case False
    then obtain ys' where ys': "update_first P f zs = Some ys'" "ys = z # ys'"
      using Cons.prems(2) by auto
    from ys'(1) obtain as x bs
      where "zs = as @ x # bs" "ys' = as @ f x # bs" "P x" "\<forall>a\<in>set as. \<not> P a"
      using Cons.IH by blast
    then show ?thesis using Cons.prems(1) [of "z # as" x bs] False ys'(2) by simp
  qed
qed

lemma update_last_None_iff: "update_last P f xs = None \<longleftrightarrow> (\<forall>x\<in>set xs. \<not> P x)"
  by (simp add: update_last_def update_first_None_iff)

lemma update_last_SomeE:
  assumes "update_last P f xs = Some ys"
  obtains as x bs where "xs = as @ x # bs" "ys = as @ f x # bs" "P x" "\<forall>b\<in>set bs. \<not> P b"
proof -
  from assms obtain zs where zs: "update_first P f (rev xs) = Some zs" "ys = rev zs"
    by (auto simp: update_last_def)
  from zs(1) obtain as x bs
    where *: "rev xs = as @ x # bs" "zs = as @ f x # bs" "P x" "\<forall>a\<in>set as. \<not> P a"
    by (rule update_first_SomeE)
  have "xs = rev bs @ x # rev as"
    using *(1) by (metis append.assoc append_Cons append_Nil rev.simps(2) rev_append rev_rev_ident)
  then show thesis
    using that [of "rev bs" x "rev as"] * zs(2) by simp
qed

lemma update_last_intro:
  assumes "P x" and "\<forall>b\<in>set bs. \<not> P b"
  shows "update_last P f (as @ x # bs) = Some (as @ f x # bs)"
proof -
  have "update_first P f (rev bs @ x # ys) = Some (rev bs @ f x # ys)" for ys
    using assms(2) by (induction bs rule: rev_induct) (simp_all add: assms(1))
  then show ?thesis by (simp add: update_last_def)
qed

lemma update_last_length: "update_last P f xs = Some ys \<Longrightarrow> length ys = length xs"
  by (erule update_last_SomeE) simp

end
