(* ===== verification/AgentDomain.thy ===== *)
theory AgentDomain
  imports Float64 IndexMap
begin

text \<open>
  The normalized vocabulary of the agent (crates/agent-core/src/domain.rs, recovery.rs and the
  transcript types of provider.rs): what a provider may emit and what a projection stores. The
  identifiers of ids.rs are transparent string newtypes and stay strings. A
  \<open>serde_json::Value\<close> is a value of the type parameter \<open>'v\<close>: the core only stores and copies
  it. The theory ends with the pure helpers of these types: attachments
  (\<open>PendingUpload\<close>) and the classification of provider access failures (access_failure.rs).
\<close>

section \<open>Messages\<close>

type_synonym session_id = rstr
type_synonym run_id = rstr
type_synonym tool_call_id = rstr
type_synonym permission_request_id = rstr

datatype role = User | Agent | System

datatype message_phase = Commentary | FinalAnswer

datatype content_block =
    Text rstr
  | Thinking rstr
  | Image (img_mime_type: rstr) (img_data: rstr) (img_uri: "rstr option")
  | Audio (aud_mime_type: rstr) (aud_data: rstr)
  | Resource (res_uri: rstr) (res_mime_type: "rstr option") (res_text: "rstr option")
      (res_data: "rstr option")
  | ResourceLink (link_uri: rstr) (link_name: "rstr option")
  | SkillReference (skill_id: rstr) (skill_revision: rstr) (skill_name: rstr)

record presentation_metric =
  pm_label :: rstr
  pm_value :: rstr
  pm_detail :: rstr
  pm_progress :: "8 word"
  pm_tone :: rstr

record presentation_evidence =
  pe_id :: rstr
  pe_title :: rstr
  pe_detail :: rstr
  pe_source :: rstr
  pe_freshness :: rstr
  pe_confidence :: "8 word"
  pe_status :: rstr
  pe_tone :: rstr

record presentation_stage =
  pst_id :: rstr
  pst_title :: rstr
  pst_detail :: rstr
  pst_status :: rstr

record specialist_presentation =
  sp_id :: rstr
  sp_kind :: rstr
  sp_prompt :: rstr
  sp_title :: rstr
  sp_summary :: rstr
  sp_takeaway :: rstr
  sp_diagram :: rstr
  sp_diagram_title :: rstr
  sp_metrics :: "presentation_metric list"
  sp_evidence :: "presentation_evidence list"
  sp_stages :: "presentation_stage list"
  sp_limitation :: rstr

section \<open>Tool calls\<close>

datatype tool_kind =
    KRead | KEdit | KDelete | KMove | KSearch | KExecute | KThink | KFetch | KResearch
  | KViewImage | KGenerateImage | KOther

datatype tool_status = TPending | TInProgress | TCompleted | TCancelled | TFailed

record fs_location =
  fl_path :: rstr
  fl_line :: "u32 option"

record tool_progress_step =
  ts_id :: rstr
  ts_title :: rstr
  ts_status :: tool_status
  ts_summary :: "rstr option"

record tool_progress_phase =
  tp_id :: rstr
  tp_title :: rstr
  tp_status :: tool_status
  tp_summary :: "rstr option"
  tp_steps :: "tool_progress_step list"

record tool_progress_agent =
  ta_id :: rstr
  ta_label :: rstr
  ta_status :: tool_status
  ta_activity :: "rstr option"
  ta_summary :: "rstr option"

record tool_call_progress =
  tcp_revision :: u64
  tcp_status :: tool_status
  tcp_latest_activity :: "rstr option"
  tcp_phases :: "tool_progress_phase list"
  tcp_agents :: "tool_progress_agent list"

record 'v tool_call =
  tc_id :: tool_call_id
  tc_tool_name :: "rstr option"
  tc_title :: rstr
  tc_kind :: tool_kind
  tc_status :: tool_status
  tc_locations :: "fs_location list"
  tc_content :: "content_block list"
  tc_raw_input :: "'v option"
  tc_streamed_input :: rstr
  tc_progress :: "tool_call_progress option"

record 'v tool_call_patch =
  pt_title :: "rstr option"
  pt_kind :: "tool_kind option"
  pt_raw_input :: "'v option"
  pt_status :: "tool_status option"
  pt_locations :: "fs_location list option"
  pt_append_content :: "content_block list"
  pt_append_input :: rstr
  pt_replace_input :: "rstr option"
  pt_replace_content :: "content_block list option"
  pt_progress :: "tool_call_progress option"

definition default_tool_call_patch :: "'v tool_call_patch" where
  "default_tool_call_patch = \<lparr>pt_title = None, pt_kind = None, pt_raw_input = None,
     pt_status = None, pt_locations = None, pt_append_content = [], pt_append_input = [],
     pt_replace_input = None, pt_replace_content = None, pt_progress = None\<rparr>"

section \<open>Checklists and plans\<close>

datatype checklist_status = CPending | CInProgress | CCompleted

record checklist_step =
  cs_plan_step_id :: "rstr option"
  cs_title :: rstr
  cs_status :: checklist_status
  cs_priority :: "rstr option"

record execution_checklist =
  ec_steps :: "checklist_step list"
  ec_revision :: u32

datatype proposed_plan_status = AwaitingDecision | PlanApproved | PlanSuperseded

record plan_execution_step =
  px_id :: rstr
  px_title :: rstr
  px_files :: "rstr list"
  px_done_when :: "rstr list"
  px_reminders :: "rstr list"

record plan_context_revision =
  pcr_context_kind :: rstr
  pcr_organization_id :: "rstr option"
  pcr_workspace_id :: "rstr option"
  pcr_query :: rstr
  pcr_effective_at_ms :: u64
  pcr_known_at_ms :: u64
  pcr_selector_sha256 :: rstr

record proposed_plan =
  pp_id :: rstr
  pp_revision :: u32
  pp_markdown :: rstr
  pp_status :: proposed_plan_status
  pp_global_reminders :: "rstr list"
  pp_execution_contract :: "plan_execution_step list"
  pp_context_revisions :: "plan_context_revision list"

section \<open>Permissions, focus and artifacts\<close>

datatype permission_option_kind = AllowOnce | AllowAlways | RejectOnce | RejectAlways

record permission_option =
  po_id :: rstr
  po_label :: rstr
  po_kind :: permission_option_kind

record permission_request =
  pr_id :: permission_request_id
  pr_session :: session_id
  pr_tool_call :: "tool_call_id option"
  pr_title :: rstr
  pr_options :: "permission_option list"
  pr_detail :: "rstr option"
  pr_risk :: "rstr option"
  pr_reason :: "rstr option"

datatype workspace_surface_kind = SurfBrowser | SurfTerminal | SurfFiles | SurfWebsite

record workspace_focus =
  wf_surface :: workspace_surface_kind
  wf_path :: "rstr option"
  wf_url :: "rstr option"
  wf_is_dir :: "bool option"
  wf_tool_call :: "tool_call_id option"

datatype artifact_kind =
    AFile | AImage | APdf | AOffice | ASlides | AMedia | AVideo | AWebsite | ADiff
  | ASearchResults | AOther

record artifact =
  ar_id :: rstr
  ar_title :: rstr
  ar_kind :: artifact_kind
  ar_mime_type :: "rstr option"
  ar_uri :: "rstr option"
  ar_tool_call :: "tool_call_id option"

section \<open>Runs and goals\<close>

datatype run_status = RQueued | RRunning | RAwaitingInput | RDone | RCancelled | RFailed

datatype run_failure_kind =
    SessionExpired | PlatformKeyRejected | AccessScopeRequired | ProviderError
  | ToolProtocolExhausted | RateLimited | TransportError | ContextOverflow | InsufficientCredits
  | ToolFatal | LocalState | InconsistentToolHistory | IterationLimit | RuntimeInterrupted
  | VerificationIncomplete | EmptyResponse

record run_execution_summary =
  rx_execution_id :: rstr
  rx_root_path :: rstr
  rx_attempts :: u32
  rx_recoveries :: u32
  rx_child_executions :: u32
  rx_completed_children :: u32
  rx_failed_children :: u32
  rx_weighted_tokens :: f64
  rx_cost_usd :: f64
  rx_changed_paths :: "rstr list"
  rx_completed_tools :: "rstr list"
  rx_failed_tools :: "rstr list"

record run_usage =
  us_input_tokens :: u64
  us_output_tokens :: u64
  us_context_tokens :: u64
  us_cost_usd :: "f64 option"
  us_context_limit :: "u64 option"

record run_outcome =
  ro_status :: run_status
  ro_stop_reason :: "rstr option"
  ro_error :: "rstr option"
  ro_failure_kind :: "run_failure_kind option"
  ro_usage :: "run_usage option"
  ro_execution :: "run_execution_summary option"

datatype goal_status = GActive | GBlocked | GComplete

record goal_state =
  gs_id :: rstr
  gs_objective :: rstr
  gs_status :: goal_status
  gs_run :: "run_id option"
  gs_tokens_used :: u64
  gs_time_used_seconds :: u64
  gs_continuations :: u32
  gs_updated_at_ms :: u64
  gs_blocker_reason :: "rstr option"

section \<open>Fan-out\<close>

datatype fan_out_status = FQueued | FRunning | FDone | FFailed

record fan_out_agent =
  fa_id :: rstr
  fa_label :: rstr
  fa_status :: fan_out_status
  fa_objective :: "rstr option"
  fa_activity :: "rstr option"
  fa_result :: "rstr option"
  fa_attempt :: "u32 option"
  fa_started_at_ms :: "u64 option"
  fa_updated_at_ms :: "u64 option"

record fan_out =
  fo_title :: rstr
  fo_total :: nat
  fo_done :: nat
  fo_running :: nat
  fo_agents :: "fan_out_agent list"

definition default_fan_out :: fan_out where
  "default_fan_out = \<lparr>fo_title = [], fo_total = 0, fo_done = 0, fo_running = 0, fo_agents = []\<rparr>"

section \<open>Provider incidents\<close>

datatype provider_incident_scope =
    ModelRequest | ProviderEventStream | ProviderProcess | CloudHistorySync | ToolExecutionHost

datatype provider_incident_category = IncTimeout | IncRateLimit | IncUpstreamUnavailable | IncConnectionLost

datatype provider_incident_status =
  IncObserved | IncRetrying | IncRecovered | IncFailed | IncInterrupted

datatype provider_failure_class = TransientTransport | ClassRateLimited

record provider_retry_counts =
  rc_transient :: u32
  rc_rate_limit :: u32
  rc_authentication :: u32

record provider_request_diagnostics =
  rd_idempotency_key :: rstr
  rd_provider_request_id :: "rstr option"
  rd_attempts :: u32
  rd_max_attempts :: u32
  rd_retries :: provider_retry_counts
  rd_output_started :: bool
  rd_started_at_ms :: u64

record execution_boundary_receipt =
  eb_execution_id :: rstr
  eb_attempt_sequence :: u32
  eb_event_sequence :: u64
  eb_transcript_commit_id :: rstr
  eb_completed_tools :: u32
  eb_last_completed_tool_id :: "rstr option"
  eb_last_completed_tool_name :: "rstr option"
  eb_baseline_checkpoint_id :: "rstr option"

record execution_recovery =
  er_attempt :: u32
  er_boundary :: execution_boundary_receipt
  er_started_at_ms :: u64

record provider_incident =
  pi_id :: rstr
  pi_status :: provider_incident_status
  pi_scope :: provider_incident_scope
  pi_failure_class :: provider_failure_class
  pi_category :: provider_incident_category
  pi_message :: rstr
  pi_detail :: rstr
  pi_model :: rstr
  pi_provider_route :: rstr
  pi_provider_status :: "16 word option"
  pi_provider_error_type :: "rstr option"
  pi_request :: provider_request_diagnostics
  pi_execution_recovery :: "execution_recovery option"
  pi_observed_at_ms :: u64
  pi_updated_at_ms :: u64
  pi_completed_at_ms :: "u64 option"

section \<open>Transcripts and events\<close>

datatype 'v resume_item =
    ResumeMessage role "content_block list"
  | ResumeToolCall (rt_id: rstr) (rt_tool_name: "rstr option") (rt_title: rstr) (rt_kind: tool_kind)
      (rt_status: tool_status) (rt_locations: "fs_location list") (rt_arguments: "'v option")
      (rt_content: "content_block list")
  | ResumeGoal goal_state
  | ResumeProposedPlan proposed_plan

record 'v resume_transcript =
  rs_items :: "'v resume_item list"
  rs_truncated :: bool

datatype 'v agent_event =
    RunStarted run_id
  | Checkpoint run_id rstr
  | MessageStreamStarted run_id role
  | MessageChunk run_id role content_block
  | MessagePhase run_id message_phase
  | SpecialistPresented run_id specialist_presentation
  | ToolCalled run_id "'v tool_call"
  | ToolCallUpdate run_id tool_call_id "'v tool_call_patch"
  | ExecutionChecklistUpdated run_id execution_checklist "rstr option"
  | ProposedPlanUpdated run_id proposed_plan
  | GoalUpdated run_id goal_state
  | GoalCleared
  | RunUsageUpdated run_id run_usage
  | PermissionRequested permission_request
  | ArtifactProduced run_id artifact
  | Surface workspace_focus
  | FanOutProgress run_id tool_call_id fan_out_agent
  | ProviderIncidentUpdated run_id provider_incident
  | ModeChanged session_id rstr
  | ContextCompacted run_id "'v resume_transcript"
  | Trace "run_id option" rstr 'v
  | RunFinished run_id run_outcome
  | ErrorRaised rstr rstr "run_id option"

section \<open>Attachments\<close>

definition to_ascii_lowercase :: "string \<Rightarrow> string" where
  "to_ascii_lowercase s = map (\<lambda>c. if is_ascii_uppercase c then char_of (of_char c + (32::nat)) else c) s"

definition ends_with :: "string \<Rightarrow> string \<Rightarrow> bool" where
  "ends_with s p \<longleftrightarrow> starts_with (rev s) (rev p)"

text \<open>\<open>s.contains(p)\<close>\<close>

fun contains_str :: "string \<Rightarrow> string \<Rightarrow> bool" where
  "contains_str [] p = (p = [])"
| "contains_str (c # s) p = (starts_with (c # s) p \<or> contains_str s p)"

datatype attachment_kind = AttText | AttImage | AttAudio | AttPdf | AttDocx | AttBinary

record pending_upload =
  up_filename :: rstr
  up_content_type :: rstr
  up_data_base64 :: rstr

definition upload_is_image :: "pending_upload \<Rightarrow> bool" where
  "upload_is_image u \<longleftrightarrow> starts_with (up_content_type u) ''image/''"

definition upload_is_text :: "pending_upload \<Rightarrow> bool" where
  "upload_is_text u \<longleftrightarrow> starts_with (up_content_type u) ''text/''
     \<or> up_content_type u \<in> {''application/json'', ''application/xml'', ''application/javascript''}"

definition upload_kind :: "pending_upload \<Rightarrow> attachment_kind" where
  "upload_kind u =
     (let content_type = to_ascii_lowercase (up_content_type u);
          filename = to_ascii_lowercase (up_filename u)
      in if upload_is_image u then AttImage
         else if starts_with content_type ''audio/'' then AttAudio
         else if content_type = ''application/pdf'' \<or> ends_with filename ''.pdf'' then AttPdf
         else if content_type
             = ''application/vnd.openxmlformats-officedocument.wordprocessingml.document''
             \<or> ends_with filename ''.docx'' then AttDocx
         else if upload_is_text u then AttText
         else AttBinary)"

definition echo_block :: "pending_upload \<Rightarrow> content_block" where
  "echo_block u =
     (if upload_is_image u then Image (up_content_type u) (up_data_base64 u) None
      else if starts_with (up_content_type u) ''audio/''
      then Audio (up_content_type u) (up_data_base64 u)
      else Resource (''attachment://'' @ up_filename u) (Some (up_content_type u)) None
        (Some (up_data_base64 u)))"

section \<open>Provider access failures\<close>

text \<open>\<open>message.split(|c| !c.is_ascii_digit())\<close>: the maximal digit runs, empty ones included.\<close>

fun digit_tokens :: "string \<Rightarrow> string list" where
  "digit_tokens [] = [[]]"
| "digit_tokens (c # s) =
     (if is_ascii_digit c then (c # hd (digit_tokens s)) # tl (digit_tokens s)
      else [] # digit_tokens s)"

definition contains_status_code :: "string \<Rightarrow> string \<Rightarrow> bool" where
  "contains_status_code message expected \<longleftrightarrow> expected \<in> set (digit_tokens message)"

definition classify_provider_access_failure ::
    "16 word option \<Rightarrow> string \<Rightarrow> run_failure_kind option" where
  "classify_provider_access_failure status message =
     (let lower = to_ascii_lowercase message in
      if status = Some 429 \<or> contains_status_code lower ''429''
         \<or> contains_str lower ''rate limit'' \<or> contains_str lower ''too many requests''
      then Some RateLimited
      else if status = Some 402 \<or> contains_status_code lower ''402''
         \<or> contains_str lower ''payment required'' \<or> contains_str lower ''insufficient_credit''
         \<or> contains_str lower ''insufficient credit'' \<or> contains_str lower ''usage_limit_reached''
         \<or> contains_str lower ''usage limit reached''
         \<or> contains_str lower ''credit balance exhausted'' \<or> contains_str lower ''out of credit''
      then Some InsufficientCredits
      else if status = Some 401 \<or> status = Some 403 \<or> contains_status_code lower ''401''
         \<or> contains_status_code lower ''403'' \<or> contains_str lower ''api key''
         \<or> contains_str lower ''unauthorized'' \<or> contains_str lower ''forbidden''
         \<or> contains_str lower ''credential''
      then Some PlatformKeyRejected
      else None)"

lemma contains_str_iff: "contains_str s p \<longleftrightarrow> (\<exists>a b. s = a @ p @ b)"
proof (induction s)
  case Nil
  then show ?case by simp
next
  case (Cons c s)
  show ?case
  proof
    assume "contains_str (c # s) p"
    then consider "starts_with (c # s) p" | "contains_str s p" by auto
    then show "\<exists>a b. c # s = a @ p @ b"
    proof cases
      case 1
      then show ?thesis by (metis append_Nil starts_with_iff)
    next
      case 2
      then show ?thesis using Cons by (metis append_Cons)
    qed
  next
    assume "\<exists>a b. c # s = a @ p @ b"
    then obtain a b where ab: "c # s = a @ p @ b" by blast
    show "contains_str (c # s) p"
    proof (cases a)
      case Nil
      then have "starts_with (c # s) p" using ab by (auto simp: starts_with_iff)
      then show ?thesis by simp
    next
      case (Cons d a')
      then show ?thesis using ab Cons.IH by auto
    qed
  qed
qed

lemma digit_tokens_not_Nil [simp]: "digit_tokens s \<noteq> []"
  by (induction s) auto

lemma digit_tokens_append_nondigit:
  "\<not> is_ascii_digit c \<Longrightarrow> digit_tokens (s @ c # t) = digit_tokens s @ digit_tokens t"
  by (induction s) auto

lemma digit_tokens_unfold:
  "digit_tokens s = takeWhile is_ascii_digit s
     # (case dropWhile is_ascii_digit s of [] \<Rightarrow> [] | c # r \<Rightarrow> digit_tokens r)"
  by (induction s) auto

text \<open>
  A status code counts only as a whole digit run: a digit directly before or after it makes
  it another number.
\<close>

lemma digit_token_bounded:
  assumes "t \<in> set (digit_tokens s)"
  shows "list_all is_ascii_digit t \<and> (\<exists>a b. s = a @ t @ b
    \<and> (a = [] \<or> \<not> is_ascii_digit (last a)) \<and> (b = [] \<or> \<not> is_ascii_digit (hd b)))"
  using assms
proof (induction s rule: length_induct)
  case (1 s)
  let ?d = is_ascii_digit
  from 1(2) consider "t = takeWhile ?d s"
    | c r where "dropWhile ?d s = c # r" "t \<in> set (digit_tokens r)"
    unfolding digit_tokens_unfold [of s] by (cases "dropWhile is_ascii_digit s") auto
  then show ?case
  proof cases
    case 1
    have "s = [] @ t @ dropWhile ?d s" by (simp add: 1)
    moreover have "dropWhile ?d s = [] \<or> \<not> ?d (hd (dropWhile ?d s))"
      by (cases "dropWhile ?d s = []") (rule disjI1, assumption, rule disjI2, erule hd_dropWhile)
    moreover have "list_all ?d t" by (auto simp: 1 list_all_iff dest: set_takeWhileD)
    ultimately show ?thesis by blast
  next
    case 2
    obtain w where w: "w = takeWhile ?d s" by blast
    have s: "s = w @ c # r"
      unfolding w 2(1) [symmetric] by (rule takeWhile_dropWhile_id [symmetric])
    have c: "\<not> ?d c"
      using hd_dropWhile [of ?d s] 2(1) by simp
    have "length r < length s"
      unfolding s by simp
    then obtain a b where ab: "list_all ?d t" "r = a @ t @ b"
        "a = [] \<or> \<not> ?d (last a)" "b = [] \<or> \<not> ?d (hd b)"
      using spec [OF 1(1), of r] 2(2) by blast
    have "s = (w @ c # a) @ t @ b" using s ab(2) by simp
    moreover have "\<not> ?d (last (w @ c # a))" using ab(3) c by auto
    ultimately show ?thesis using ab(1,4) by blast
  qed
qed

lemma contains_status_code_iff:
  assumes "list_all is_ascii_digit expected"
  shows "contains_status_code message expected \<longleftrightarrow>
    (\<exists>a b. message = a @ expected @ b \<and> (a = [] \<or> \<not> is_ascii_digit (last a))
       \<and> (b = [] \<or> \<not> is_ascii_digit (hd b)))"
proof
  assume "contains_status_code message expected"
  then show "\<exists>a b. message = a @ expected @ b \<and> (a = [] \<or> \<not> is_ascii_digit (last a))
       \<and> (b = [] \<or> \<not> is_ascii_digit (hd b))"
    unfolding contains_status_code_def using digit_token_bounded by blast
next
  assume "\<exists>a b. message = a @ expected @ b \<and> (a = [] \<or> \<not> is_ascii_digit (last a))
       \<and> (b = [] \<or> \<not> is_ascii_digit (hd b))"
  then obtain a b where ab: "message = a @ expected @ b" "a = [] \<or> \<not> is_ascii_digit (last a)"
    "b = [] \<or> \<not> is_ascii_digit (hd b)" by blast
  have "takeWhile is_ascii_digit (expected @ b) = expected"
    using assms ab(3) by (cases b) (auto simp: list_all_iff takeWhile_append2)
  then have run: "expected \<in> set (digit_tokens (expected @ b))"
    by (subst digit_tokens_unfold) simp
  show "contains_status_code message expected"
  proof (cases a rule: rev_cases)
    case Nil
    then show ?thesis using run ab(1) by (simp add: contains_status_code_def)
  next
    case (snoc a' c)
    then have "message = a' @ c # (expected @ b)" and "\<not> is_ascii_digit c"
      using ab by auto
    then show ?thesis using run by (simp add: contains_status_code_def digit_tokens_append_nondigit)
  qed
qed

end
