(* ===== verification/Projection.thy ===== *)
theory Projection
  imports AgentDomain Machines
begin

text \<open>
  The projection of a conversation (crates/agent-core/src/projection.rs and
  projection/checklist.rs): a \<open>snapshot\<close> is everything a client renders, and
  \<open>project_event\<close> is the reducer \<open>apply\<close> that folds one event of the provider into it;
  \<open>reduce_all\<close> replays a history from scratch. \<open>resume_transcript_of\<close> builds the history a
  provider gets when the conversation is reopened and \<open>derived_title\<close> its title.
  \<open>Vec\<close> lengths and transcript indices are natural numbers. The migration of snapshots
  written by an older schema (\<open>normalize_snapshot_value\<close>) works on \<open>serde_json\<close> trees
  and is not modelled.
\<close>

section \<open>The snapshot\<close>

record run_view =
  rv_id :: run_id
  rv_status :: run_status
  rv_usage :: "run_usage option"
  rv_outcome :: "run_outcome option"
  rv_checkpoint :: "rstr option"

datatype timeline_item =
    MessageItem (mi_run: run_id) (mi_role: role) (mi_blocks: "content_block list")
      (mi_phase: "message_phase option") (mi_stream_boundary: bool)
  | PresentationItem run_id specialist_presentation
  | ToolCallItem tool_call_id "run_id option"
  | ArtifactItem rstr
  | ChecklistItem "run_id option" execution_checklist "rstr option"
  | PlanItem run_id proposed_plan
  | IncidentItem run_id rstr

record 'v model_context_checkpoint =
  mc_transcript :: "'v resume_transcript"
  mc_timeline_index :: nat

record 'v snapshot =
  sn_history_checkpoint :: "64 word option"
  sn_session :: "session_id option"
  sn_starting :: bool
  sn_timeline_offset :: nat
  sn_runs :: "(run_id, run_view) imap"
  sn_timeline :: "timeline_item list"
  sn_model_context_checkpoint :: "'v model_context_checkpoint option"
  sn_tool_calls :: "(tool_call_id, 'v tool_call) imap"
  sn_execution_checklist :: "execution_checklist option"
  sn_proposed_plan :: "proposed_plan option"
  sn_goal :: "goal_state option"
  sn_pending_permission :: "permission_request option"
  sn_artifacts :: "artifact list"
  sn_focus :: "workspace_focus option"
  sn_fan_out :: "fan_out option"
  sn_provider_incidents :: "(rstr, provider_incident) imap"

definition snapshot_new :: "'v snapshot" where
  "snapshot_new = \<lparr>sn_history_checkpoint = None, sn_session = None, sn_starting = False,
     sn_timeline_offset = 0, sn_runs = [], sn_timeline = [], sn_model_context_checkpoint = None,
     sn_tool_calls = [], sn_execution_checklist = None, sn_proposed_plan = None, sn_goal = None,
     sn_pending_permission = None, sn_artifacts = [], sn_focus = None, sn_fan_out = None,
     sn_provider_incidents = []\<rparr>"

section \<open>Messages\<close>

text \<open>\<open>merge_block\<close>: adjacent text (thinking) blocks are concatenated while streaming.\<close>

definition merge_block :: "content_block list \<Rightarrow> content_block \<Rightarrow> content_block list" where
  "merge_block blocks delta =
     (if blocks = [] then [delta]
      else case (last blocks, delta) of
        (Text l, Text add) \<Rightarrow> butlast blocks @ [Text (l @ add)]
      | (Thinking l, Thinking add) \<Rightarrow> butlast blocks @ [Thinking (l @ add)]
      | _ \<Rightarrow> blocks @ [delta])"

fun map_blocks :: "(content_block list \<Rightarrow> content_block list) \<Rightarrow> timeline_item \<Rightarrow> timeline_item" where
  "map_blocks f (MessageItem run role blocks phase boundary)
     = MessageItem run role (f blocks) phase boundary"
| "map_blocks f item = item"

fun map_phase ::
    "(message_phase option \<Rightarrow> message_phase option) \<Rightarrow> timeline_item \<Rightarrow> timeline_item" where
  "map_phase f (MessageItem run role blocks phase boundary)
     = MessageItem run role blocks (f phase) boundary"
| "map_phase f item = item"

fun is_message_of :: "run_id \<Rightarrow> role \<Rightarrow> timeline_item \<Rightarrow> bool" where
  "is_message_of run role (MessageItem r l _ _ _) \<longleftrightarrow> r = run \<and> l = role"
| "is_message_of run role item \<longleftrightarrow> False"

fun is_stream_target :: "run_id \<Rightarrow> role \<Rightarrow> timeline_item \<Rightarrow> bool" where
  "is_stream_target run role (MessageItem r l _ _ boundary) \<longleftrightarrow> boundary \<and> r = run \<and> l = role"
| "is_stream_target run role item \<longleftrightarrow> False"

definition message_chunk ::
    "run_id \<Rightarrow> role \<Rightarrow> content_block \<Rightarrow> timeline_item list \<Rightarrow> timeline_item list" where
  "message_chunk run role delta timeline =
     (case update_last (is_stream_target run role)
             (map_blocks (\<lambda>blocks. merge_block blocks delta)) timeline of
        Some timeline' \<Rightarrow> timeline'
      | None \<Rightarrow>
          if timeline \<noteq> [] \<and> is_message_of run role (last timeline)
          then butlast timeline @ [map_blocks (\<lambda>blocks. merge_block blocks delta) (last timeline)]
          else timeline @ [MessageItem run role [delta] None False])"

definition set_latest_unphased_agent_message ::
    "timeline_item list \<Rightarrow> run_id \<Rightarrow> message_phase \<Rightarrow> timeline_item list" where
  "set_latest_unphased_agent_message timeline run phase =
     (case update_last (is_message_of run Agent)
             (map_phase (\<lambda>p. if p = None then Some phase else p)) timeline of
        Some timeline' \<Rightarrow> timeline' | None \<Rightarrow> timeline)"

definition set_latest_agent_message_phase ::
    "timeline_item list \<Rightarrow> run_id \<Rightarrow> message_phase \<Rightarrow> timeline_item list" where
  "set_latest_agent_message_phase timeline run phase =
     (case update_last (is_message_of run Agent) (map_phase (\<lambda>p. Some phase)) timeline of
        Some timeline' \<Rightarrow> timeline' | None \<Rightarrow> timeline)"

section \<open>Rows that are replaced in place\<close>

fun is_presentation :: "rstr \<Rightarrow> timeline_item \<Rightarrow> bool" where
  "is_presentation i (PresentationItem _ p) \<longleftrightarrow> sp_id p = i"
| "is_presentation i item \<longleftrightarrow> False"

fun set_presentation :: "specialist_presentation \<Rightarrow> timeline_item \<Rightarrow> timeline_item" where
  "set_presentation p (PresentationItem run _) = PresentationItem run p"
| "set_presentation p item = item"

definition present_specialist ::
    "run_id \<Rightarrow> specialist_presentation \<Rightarrow> timeline_item list \<Rightarrow> timeline_item list" where
  "present_specialist run p timeline =
     (case update_last (is_presentation (sp_id p)) (set_presentation p) timeline of
        Some timeline' \<Rightarrow> timeline' | None \<Rightarrow> timeline @ [PresentationItem run p])"

fun is_plan :: "rstr \<Rightarrow> timeline_item \<Rightarrow> bool" where
  "is_plan i (PlanItem _ p) \<longleftrightarrow> pp_id p = i"
| "is_plan i item \<longleftrightarrow> False"

fun set_plan :: "proposed_plan \<Rightarrow> timeline_item \<Rightarrow> timeline_item" where
  "set_plan p (PlanItem run _) = PlanItem run p"
| "set_plan p item = item"

definition propose_plan :: "run_id \<Rightarrow> proposed_plan \<Rightarrow> timeline_item list \<Rightarrow> timeline_item list" where
  "propose_plan run p timeline =
     (case update_last (is_plan (pp_id p)) (set_plan p) timeline of
        Some timeline' \<Rightarrow> timeline' | None \<Rightarrow> timeline @ [PlanItem run p])"

fun is_checklist_of :: "run_id \<Rightarrow> timeline_item \<Rightarrow> bool" where
  "is_checklist_of run (ChecklistItem r _ _) \<longleftrightarrow> r = Some run"
| "is_checklist_of run item \<longleftrightarrow> False"

fun is_run_checklist :: "timeline_item \<Rightarrow> bool" where
  "is_run_checklist (ChecklistItem r _ _) \<longleftrightarrow> r \<noteq> None"
| "is_run_checklist item \<longleftrightarrow> False"

fun set_checklist ::
    "execution_checklist \<Rightarrow> rstr option \<Rightarrow> timeline_item \<Rightarrow> timeline_item" where
  "set_checklist c e (ChecklistItem run _ _) = ChecklistItem run c e"
| "set_checklist c e item = item"

definition update_checklist ::
    "run_id \<Rightarrow> execution_checklist \<Rightarrow> rstr option \<Rightarrow> timeline_item list \<Rightarrow> timeline_item list"
where
  "update_checklist run c explanation timeline =
     (case update_last (is_checklist_of run) (set_checklist c explanation) timeline of
        Some timeline' \<Rightarrow> timeline' | None \<Rightarrow> timeline @ [ChecklistItem (Some run) c explanation])"

section \<open>Completing a checklist\<close>

definition complete_steps :: "execution_checklist \<Rightarrow> execution_checklist" where
  "complete_steps c =
     (if \<exists>step\<in>set (ec_steps c). cs_status step \<noteq> CCompleted
      then c\<lparr>ec_steps := map (\<lambda>step. step\<lparr>cs_status := CCompleted\<rparr>) (ec_steps c),
             ec_revision := sat_add (ec_revision c) 1\<rparr>
      else c)"

fun complete_row :: "timeline_item \<Rightarrow> timeline_item" where
  "complete_row (ChecklistItem run c e) = ChecklistItem run (complete_steps c) e"
| "complete_row item = item"

fun row_checklist :: "timeline_item \<Rightarrow> execution_checklist option" where
  "row_checklist (ChecklistItem _ c _) = Some c"
| "row_checklist item = None"

definition complete_run_checklist :: "'v snapshot \<Rightarrow> run_id \<Rightarrow> 'v snapshot" where
  "complete_run_checklist s run =
     (let current_is_for_run =
            (case List.find is_run_checklist (rev (sn_timeline s)) of
               None \<Rightarrow> False | Some item \<Rightarrow> is_checklist_of run item)
      in case update_last (is_checklist_of run) complete_row (sn_timeline s) of
           None \<Rightarrow> s
         | Some timeline' \<Rightarrow>
             let completed = Option.bind (List.find (is_checklist_of run) (rev timeline')) row_checklist
             in if current_is_for_run
                then s\<lparr>sn_timeline := timeline', sn_execution_checklist := completed\<rparr>
                else s\<lparr>sn_timeline := timeline'\<rparr>)"

section \<open>Tool calls\<close>

definition tool_settled :: "tool_status \<Rightarrow> bool" where
  "tool_settled st \<longleftrightarrow> st \<in> {TCompleted, TFailed, TCancelled}"

definition or_keep :: "'a option \<Rightarrow> 'a \<Rightarrow> 'a" where
  "or_keep x y = (case x of None \<Rightarrow> y | Some z \<Rightarrow> z)"

definition apply_patch :: "'v tool_call_patch \<Rightarrow> 'v tool_call \<Rightarrow> 'v tool_call" where
  "apply_patch patch tc =
     (let status = or_keep (pt_status patch) (tc_status tc);
          streamed = or_keep (pt_replace_input patch) (tc_streamed_input tc) @ pt_append_input patch
      in tc\<lparr>tc_title := or_keep (pt_title patch) (tc_title tc),
            tc_kind := or_keep (pt_kind patch) (tc_kind tc),
            tc_raw_input :=
              (case pt_raw_input patch of None \<Rightarrow> tc_raw_input tc | Some raw \<Rightarrow> Some raw),
            tc_status := status,
            tc_locations := or_keep (pt_locations patch) (tc_locations tc),
            tc_progress :=
              (case pt_progress patch of None \<Rightarrow> tc_progress tc | Some progress \<Rightarrow> Some progress),
            tc_content :=
              or_keep (pt_replace_content patch) (tc_content tc) @ pt_append_content patch,
            tc_streamed_input := (if tool_settled status then [] else streamed)\<rparr>)"

fun settled_status :: "run_status \<Rightarrow> tool_status option" where
  "settled_status RDone = Some TCompleted"
| "settled_status RCancelled = Some TCancelled"
| "settled_status RFailed = Some TFailed"
| "settled_status RQueued = None"
| "settled_status RRunning = None"
| "settled_status RAwaitingInput = None"

fun tool_row_of :: "run_id \<Rightarrow> timeline_item \<Rightarrow> tool_call_id option" where
  "tool_row_of run (ToolCallItem i (Some r)) = (if r = run then Some i else None)"
| "tool_row_of run item = None"

definition settle_call :: "tool_status \<Rightarrow> 'v tool_call \<Rightarrow> 'v tool_call" where
  "settle_call settled call =
     (if tc_status call \<in> {TPending, TInProgress} then call\<lparr>tc_status := settled\<rparr> else call)"

definition settle_run_tool_calls :: "'v snapshot \<Rightarrow> run_id \<Rightarrow> run_status \<Rightarrow> 'v snapshot" where
  "settle_run_tool_calls s run status =
     (case settled_status status of
        None \<Rightarrow> s
      | Some settled \<Rightarrow>
          s\<lparr>sn_tool_calls :=
            foldl (\<lambda>calls i. im_adjust i (settle_call settled) calls) (sn_tool_calls s)
              (List.map_filter (tool_row_of run) (sn_timeline s))\<rparr>)"

section \<open>Artifacts and fan-out\<close>

definition trimmed_uri :: "artifact \<Rightarrow> rstr option" where
  "trimmed_uri a =
     (case map_option trim (ar_uri a) of
        None \<Rightarrow> None | Some u \<Rightarrow> if u = [] then None else Some u)"

definition same_artifact_identity :: "artifact \<Rightarrow> artifact \<Rightarrow> bool" where
  "same_artifact_identity left right \<longleftrightarrow>
     ar_id left = ar_id right
     \<or> (case (trimmed_uri left, trimmed_uri right) of
          (Some l, Some r) \<Rightarrow> l = r | _ \<Rightarrow> False)"

definition or_old :: "'a option \<Rightarrow> 'a option \<Rightarrow> 'a option" where
  "or_old new old = (case new of None \<Rightarrow> old | Some x \<Rightarrow> Some x)"

definition merge_fan_out_agent :: "fan_out_agent \<Rightarrow> fan_out_agent \<Rightarrow> fan_out_agent" where
  "merge_fan_out_agent agent existing =
     existing\<lparr>fa_status := fa_status agent,
       fa_label := (if fa_label agent \<noteq> []
                       \<and> (fa_label existing = [] \<or> starts_with (fa_label existing) ''Task '')
                    then fa_label agent else fa_label existing),
       fa_objective := or_old (fa_objective agent) (fa_objective existing),
       fa_activity := or_old (fa_activity agent) (fa_activity existing),
       fa_result := or_old (fa_result agent) (fa_result existing),
       fa_attempt := or_old (fa_attempt agent) (fa_attempt existing),
       fa_started_at_ms := or_old (fa_started_at_ms existing) (fa_started_at_ms agent),
       fa_updated_at_ms := or_old (fa_updated_at_ms agent) (fa_updated_at_ms existing)\<rparr>"

definition count_status :: "fan_out_status \<Rightarrow> fan_out_agent list \<Rightarrow> nat" where
  "count_status st agents = length (filter (\<lambda>a. fa_status a = st) agents)"

definition fan_out_progress :: "rstr \<Rightarrow> fan_out_agent \<Rightarrow> fan_out \<Rightarrow> fan_out" where
  "fan_out_progress title agent fo =
     (let agents =
        (case update_first (\<lambda>a. fa_id a = fa_id agent) (merge_fan_out_agent agent) (fo_agents fo) of
           Some agents' \<Rightarrow> agents' | None \<Rightarrow> fo_agents fo @ [agent])
      in \<lparr>fo_title = (if length (fo_title fo) < length title then title else fo_title fo),
          fo_total = length agents,
          fo_done = count_status FDone agents,
          fo_running = count_status FRunning agents,
          fo_agents = agents\<rparr>)"

section \<open>The reducer\<close>

definition new_run_view :: "run_id \<Rightarrow> run_status \<Rightarrow> run_view" where
  "new_run_view run status =
     \<lparr>rv_id = run, rv_status = status, rv_usage = None, rv_outcome = None, rv_checkpoint = None\<rparr>"

definition finish_run :: "'v snapshot \<Rightarrow> run_id \<Rightarrow> run_outcome \<Rightarrow> 'v snapshot" where
  "finish_run s run outcome =
     (let s1 = s\<lparr>sn_timeline := set_latest_unphased_agent_message (sn_timeline s) run FinalAnswer,
          sn_runs := im_entry run (new_run_view run (ro_status outcome))
            (\<lambda>view. view\<lparr>rv_status := ro_status outcome,
               rv_usage := or_old (ro_usage outcome) (rv_usage view),
               rv_outcome := Some outcome\<rparr>) (sn_runs s)\<rparr>
      in (settle_run_tool_calls s1 run (ro_status outcome))\<lparr>sn_pending_permission := None\<rparr>)"

fun project_event :: "'v snapshot \<Rightarrow> 'v agent_event \<Rightarrow> 'v snapshot" where
  "project_event s (RunStarted run) =
     s\<lparr>sn_fan_out := None, sn_starting := False,
       sn_runs := im_entry run (new_run_view run RRunning) (\<lambda>view. view) (sn_runs s)\<rparr>"
| "project_event s (Checkpoint run i) =
     s\<lparr>sn_runs := im_entry run (new_run_view run RRunning)
         (\<lambda>view. view\<lparr>rv_checkpoint := Some i\<rparr>) (sn_runs s)\<rparr>"
| "project_event s (MessageStreamStarted run role) =
     s\<lparr>sn_timeline := sn_timeline s @ [MessageItem run role [] None True]\<rparr>"
| "project_event s (MessageChunk run role delta) =
     s\<lparr>sn_timeline := message_chunk run role delta (sn_timeline s)\<rparr>"
| "project_event s (MessagePhase run phase) =
     s\<lparr>sn_timeline :=
       (if phase = FinalAnswer then set_latest_agent_message_phase (sn_timeline s) run phase
        else set_latest_unphased_agent_message (sn_timeline s) run phase)\<rparr>"
| "project_event s (SpecialistPresented run p) =
     s\<lparr>sn_timeline := present_specialist run p (sn_timeline s)\<rparr>"
| "project_event s (ToolCalled run call) =
     (let timeline = set_latest_unphased_agent_message (sn_timeline s) run Commentary in
      s\<lparr>sn_tool_calls := im_insert (tc_id call) call (sn_tool_calls s),
        sn_timeline :=
          (if im_contains (sn_tool_calls s) (tc_id call) then timeline
           else timeline @ [ToolCallItem (tc_id call) (Some run)])\<rparr>)"
| "project_event s (ToolCallUpdate run i patch) =
     s\<lparr>sn_tool_calls := im_adjust i (apply_patch patch) (sn_tool_calls s),
       sn_pending_permission :=
         (if Option.bind (sn_pending_permission s) pr_tool_call = Some i then None
          else sn_pending_permission s)\<rparr>"
| "project_event s (ExecutionChecklistUpdated run c explanation) =
     (let s1 = s\<lparr>sn_timeline := update_checklist run c explanation (sn_timeline s),
                 sn_execution_checklist := Some c\<rparr>
      in case sn_goal s of
           Some goal \<Rightarrow>
             if gs_status goal = GComplete \<and> gs_run goal = Some run
             then complete_run_checklist s1 run else s1
         | None \<Rightarrow> s1)"
| "project_event s (ProposedPlanUpdated run plan) =
     s\<lparr>sn_timeline := propose_plan run plan (sn_timeline s), sn_proposed_plan := Some plan\<rparr>"
| "project_event s (GoalUpdated run goal) =
     (let s1 = s\<lparr>sn_goal := Some (goal\<lparr>gs_run := Some run\<rparr>)\<rparr>
      in if gs_status goal = GComplete then complete_run_checklist s1 run else s1)"
| "project_event s GoalCleared = s\<lparr>sn_goal := None\<rparr>"
| "project_event s (RunUsageUpdated run usage) =
     s\<lparr>sn_runs := im_entry run (new_run_view run RRunning)
         (\<lambda>view. view\<lparr>rv_usage := Some usage\<rparr>) (sn_runs s)\<rparr>"
| "project_event s (PermissionRequested request) = s\<lparr>sn_pending_permission := Some request\<rparr>"
| "project_event s (ArtifactProduced run a) =
     (case update_first (\<lambda>b. same_artifact_identity b a) (\<lambda>_. a) (sn_artifacts s) of
        Some artifacts' \<Rightarrow> s\<lparr>sn_artifacts := artifacts'\<rparr>
      | None \<Rightarrow> s\<lparr>sn_artifacts := sn_artifacts s @ [a],
                  sn_timeline := sn_timeline s @ [ArtifactItem (ar_id a)]\<rparr>)"
| "project_event s (Surface focus) = s\<lparr>sn_focus := Some focus\<rparr>"
| "project_event s (ProviderIncidentUpdated run incident) =
     s\<lparr>sn_provider_incidents := im_insert (pi_id incident) incident (sn_provider_incidents s),
       sn_timeline :=
         (if im_contains (sn_provider_incidents s) (pi_id incident) then sn_timeline s
          else sn_timeline s @ [IncidentItem run (pi_id incident)])\<rparr>"
| "project_event s (ContextCompacted run transcript) =
     s\<lparr>sn_model_context_checkpoint := Some \<lparr>mc_transcript = transcript,
         mc_timeline_index = sn_timeline_offset s + length (sn_timeline s)\<rparr>\<rparr>"
| "project_event s (ModeChanged session mode) = s"
| "project_event s (Trace run source payload) = s"
| "project_event s (FanOutProgress run parent agent) =
     (let title = (case map_of (sn_tool_calls s) parent of None \<Rightarrow> [] | Some c \<Rightarrow> tc_title c)
      in s\<lparr>sn_fan_out := Some (fan_out_progress title agent (or_keep (sn_fan_out s) default_fan_out))\<rparr>)"
| "project_event s (RunFinished run outcome) = finish_run s run outcome"
| "project_event s (ErrorRaised code message run) =
     (case run of
        None \<Rightarrow> s
      | Some r \<Rightarrow>
          s\<lparr>sn_runs := im_adjust r (\<lambda>view. view\<lparr>rv_status := RFailed\<rparr>) (sn_runs s)\<rparr>)"

definition project_events :: "'v snapshot \<Rightarrow> 'v agent_event list \<Rightarrow> 'v snapshot" where
  "project_events s events = foldl project_event s events"

definition reduce_all :: "'v agent_event list \<Rightarrow> 'v snapshot" where
  "reduce_all events = project_events snapshot_new events"

section \<open>Reopening a conversation\<close>

fun resume_item_of :: "(tool_call_id, 'v tool_call) imap \<Rightarrow> timeline_item \<Rightarrow> 'v resume_item option" where
  "resume_item_of calls (MessageItem run role blocks phase boundary) =
     (if blocks = [] then None else Some (ResumeMessage role blocks))"
| "resume_item_of calls (ToolCallItem i run) =
     (case map_of calls i of
        None \<Rightarrow> None
      | Some tool \<Rightarrow> Some (ResumeToolCall (tc_id tool) (tc_tool_name tool) (tc_title tool) (tc_kind tool)
          (tc_status tool) (tc_locations tool) (tc_raw_input tool) (tc_content tool)))"
| "resume_item_of calls (PlanItem run plan) = Some (ResumeProposedPlan plan)"
| "resume_item_of calls item = None"

fun is_resume_plan :: "rstr \<Rightarrow> 'v resume_item \<Rightarrow> bool" where
  "is_resume_plan i (ResumeProposedPlan p) \<longleftrightarrow> pp_id p = i"
| "is_resume_plan i item \<longleftrightarrow> False"

definition resume_transcript_of :: "'v snapshot \<Rightarrow> 'v resume_transcript option" where
  "resume_transcript_of s =
     (let checkpoint = sn_model_context_checkpoint s;
          start = (case checkpoint of
                     None \<Rightarrow> 0 | Some c \<Rightarrow> mc_timeline_index c - sn_timeline_offset s);
          items0 = (case checkpoint of None \<Rightarrow> [] | Some c \<Rightarrow> rs_items (mc_transcript c));
          items1 = items0
            @ List.map_filter (resume_item_of (sn_tool_calls s)) (drop start (sn_timeline s));
          items2 = (case sn_goal s of None \<Rightarrow> items1 | Some goal \<Rightarrow> items1 @ [ResumeGoal goal]);
          items3 = (case sn_proposed_plan s of
              None \<Rightarrow> items2
            | Some plan \<Rightarrow>
                if list_ex (is_resume_plan (pp_id plan)) items2 then items2
                else items2 @ [ResumeProposedPlan plan])
      in if items3 = [] then None
         else Some \<lparr>rs_items = items3,
           rs_truncated = (case checkpoint of None \<Rightarrow> False | Some c \<Rightarrow> rs_truncated (mc_transcript c))\<rparr>)"

section \<open>The title of a conversation\<close>

text \<open>
  A Unicode scalar value takes one byte that is no continuation byte (\<open>0x80..0xBF\<close>) and
  the continuation bytes after it; \<open>chars().take(n)\<close> keeps the bytes of the first \<open>n\<close>.
\<close>

definition char_count :: "string \<Rightarrow> nat" where
  "char_count s = length (filter (\<lambda>c. \<not> continuation_byte c) s)"

fun take_chars :: "nat \<Rightarrow> string \<Rightarrow> string" where
  "take_chars n [] = []"
| "take_chars n (c # s) =
     (if continuation_byte c then c # take_chars n s
      else case n of 0 \<Rightarrow> [] | Suc m \<Rightarrow> c # take_chars m s)"

definition truncate_title :: "string \<Rightarrow> nat \<Rightarrow> string" where
  "truncate_title title max_chars =
     (if char_count title \<le> max_chars then title
      else take_chars (max_chars - 3) title @ [CHR 0xE2, CHR 0x80, CHR 0xA6])"

text \<open>\<open>split_whitespace\<close>: the maximal pieces without White\_Space code points.\<close>

function split_whitespace_from :: "string \<Rightarrow> string \<Rightarrow> string list" where
  "split_whitespace_from word s =
     (if s = [] then (if word = [] then [] else [word])
      else if leading white_space s = 0 then split_whitespace_from (word @ [hd s]) (tl s)
      else (if word = [] then [] else [word])
        @ split_whitespace_from [] (drop (leading white_space s) s))"
  by pat_completeness auto
termination
  by (relation "measure (\<lambda>(word, s). length s)") auto

declare split_whitespace_from.simps [simp del]

definition split_whitespace :: "string \<Rightarrow> string list" where
  "split_whitespace s = split_whitespace_from [] s"

fun block_text :: "content_block \<Rightarrow> rstr option" where
  "block_text (Text text) = Some text"
| "block_text block = None"

fun user_title :: "timeline_item \<Rightarrow> rstr option" where
  "user_title (MessageItem run User blocks phase boundary) =
     (let text = join_with '' '' (split_whitespace (join_with '' '' (List.map_filter block_text blocks)))
      in if text = [] then None else Some text)"
| "user_title item = None"

definition find_map :: "('a \<Rightarrow> 'b option) \<Rightarrow> 'a list \<Rightarrow> 'b option" where
  "find_map f xs = (case List.map_filter f xs of [] \<Rightarrow> None | y # ys \<Rightarrow> Some y)"

definition derived_title :: "'v snapshot \<Rightarrow> rstr" where
  "derived_title s =
     (case find_map user_title (sn_timeline s) of
        None \<Rightarrow> ''New conversation'' | Some title \<Rightarrow> truncate_title title 60)"

fun is_message :: "timeline_item \<Rightarrow> bool" where
  "is_message (MessageItem _ _ _ _ _) \<longleftrightarrow> True"
| "is_message item \<longleftrightarrow> False"

definition has_conversation_content :: "'v snapshot \<Rightarrow> bool" where
  "has_conversation_content s \<longleftrightarrow> list_ex is_message (sn_timeline s)"

end
