(* ===== verification/Rows.thy ===== *)
theory Rows
  imports Projection
begin

text \<open>
  What no event can change: the rows of the timeline keep their position and identity (their
  content may be rewritten in place), new rows only go to the end, and the maps only change at
  the keys the event names. The last section states the well-formedness of a projection and
  that events preserve it.
\<close>

section \<open>The identity of a row\<close>

datatype row_key =
    MessageRow run_id role bool
  | PresentationRow run_id rstr
  | ToolRow tool_call_id "run_id option"
  | ArtifactRow rstr
  | ChecklistRow "run_id option"
  | PlanRow run_id rstr
  | IncidentRow run_id rstr

fun row_id :: "timeline_item \<Rightarrow> row_key" where
  "row_id (MessageItem run role _ _ boundary) = MessageRow run role boundary"
| "row_id (PresentationItem run p) = PresentationRow run (sp_id p)"
| "row_id (ToolCallItem i run) = ToolRow i run"
| "row_id (ArtifactItem i) = ArtifactRow i"
| "row_id (ChecklistItem run _ _) = ChecklistRow run"
| "row_id (PlanItem run p) = PlanRow run (pp_id p)"
| "row_id (IncidentItem run i) = IncidentRow run i"

abbreviation rows :: "timeline_item list \<Rightarrow> row_key list" where
  "rows timeline \<equiv> map row_id timeline"

lemma update_last_map:
  assumes "update_last P f xs = Some ys" and "\<And>x. P x \<Longrightarrow> g (f x) = g x"
  shows "map g ys = map g xs"
  using assms(1) by (rule update_last_SomeE) (simp add: assms(2))

lemma row_id_map_blocks [simp]: "row_id (map_blocks f item) = row_id item"
  by (cases item) simp_all

lemma row_id_map_phase [simp]: "row_id (map_phase f item) = row_id item"
  by (cases item) simp_all

lemma row_id_set_checklist [simp]: "row_id (set_checklist c e item) = row_id item"
  by (cases item) simp_all

lemma row_id_complete_row [simp]: "row_id (complete_row item) = row_id item"
  by (cases item) simp_all

lemma row_id_set_presentation:
  "is_presentation (sp_id p) item \<Longrightarrow> row_id (set_presentation p item) = row_id item"
  by (cases item) simp_all

lemma row_id_set_plan:
  "is_plan (pp_id p) item \<Longrightarrow> row_id (set_plan p item) = row_id item"
  by (cases item) simp_all

named_theorems row_rules \<open>the rows after a timeline update\<close>

lemma rows_message_chunk [row_rules]:
  "rows (message_chunk run role delta items) = rows items
   \<or> rows (message_chunk run role delta items) = rows items @ [MessageRow run role False]"
proof -
  have "map row_id (butlast items) @ [row_id (last items)] = rows items" if "items \<noteq> []"
    using that by (metis append_butlast_last_id list.simps(8,9) map_append)
  then show ?thesis
    by (auto simp: message_chunk_def split: option.split dest!: update_last_map [where g = row_id])
qed

lemma rows_unphased [simp]:
  "rows (set_latest_unphased_agent_message items run phase) = rows items"
  by (auto simp: set_latest_unphased_agent_message_def split: option.split
    dest!: update_last_map [where g = row_id])

lemma rows_phase [simp]: "rows (set_latest_agent_message_phase items run phase) = rows items"
  by (auto simp: set_latest_agent_message_phase_def split: option.split
    dest!: update_last_map [where g = row_id])

lemma rows_present [row_rules]:
  "rows (present_specialist run p items) = rows items
   \<or> rows (present_specialist run p items) = rows items @ [PresentationRow run (sp_id p)]"
  by (auto simp: present_specialist_def row_id_set_presentation split: option.split
    dest!: update_last_map [where g = row_id])

lemma rows_propose [row_rules]:
  "rows (propose_plan run p items) = rows items \<or> rows (propose_plan run p items) = rows items @ [PlanRow run (pp_id p)]"
  by (auto simp: propose_plan_def row_id_set_plan split: option.split
    dest!: update_last_map [where g = row_id])

lemma rows_update_checklist [row_rules]:
  "rows (update_checklist run c e items) = rows items
   \<or> rows (update_checklist run c e items) = rows items @ [ChecklistRow (Some run)]"
  by (auto simp: update_checklist_def split: option.split
    dest!: update_last_map [where g = row_id])

lemma complete_run_checklist_frame [simp]:
  "rows (sn_timeline (complete_run_checklist s run)) = rows (sn_timeline s)"
  "sn_history_checkpoint (complete_run_checklist s run) = sn_history_checkpoint s"
  "sn_session (complete_run_checklist s run) = sn_session s"
  "sn_starting (complete_run_checklist s run) = sn_starting s"
  "sn_timeline_offset (complete_run_checklist s run) = sn_timeline_offset s"
  "sn_runs (complete_run_checklist s run) = sn_runs s"
  "sn_model_context_checkpoint (complete_run_checklist s run) = sn_model_context_checkpoint s"
  "sn_tool_calls (complete_run_checklist s run) = sn_tool_calls s"
  "sn_proposed_plan (complete_run_checklist s run) = sn_proposed_plan s"
  "sn_goal (complete_run_checklist s run) = sn_goal s"
  "sn_pending_permission (complete_run_checklist s run) = sn_pending_permission s"
  "sn_artifacts (complete_run_checklist s run) = sn_artifacts s"
  "sn_focus (complete_run_checklist s run) = sn_focus s"
  "sn_fan_out (complete_run_checklist s run) = sn_fan_out s"
  "sn_provider_incidents (complete_run_checklist s run) = sn_provider_incidents s"
  by (auto simp: complete_run_checklist_def Let_def split: option.split
    dest!: update_last_map [where g = row_id])

lemma settle_run_tool_calls_frame [simp]:
  "sn_timeline (settle_run_tool_calls s run st) = sn_timeline s"
  "sn_timeline_offset (settle_run_tool_calls s run st) = sn_timeline_offset s"
  "sn_runs (settle_run_tool_calls s run st) = sn_runs s"
  "sn_starting (settle_run_tool_calls s run st) = sn_starting s"
  "sn_model_context_checkpoint (settle_run_tool_calls s run st) = sn_model_context_checkpoint s"
  "sn_artifacts (settle_run_tool_calls s run st) = sn_artifacts s"
  "sn_fan_out (settle_run_tool_calls s run st) = sn_fan_out s"
  "sn_provider_incidents (settle_run_tool_calls s run st) = sn_provider_incidents s"
  by (simp_all add: settle_run_tool_calls_def split: option.split)

text \<open>The rows an event appends.\<close>

fun new_rows :: "'v snapshot \<Rightarrow> 'v agent_event \<Rightarrow> row_key list set" where
  "new_rows s (MessageStreamStarted run role) = {[MessageRow run role True]}"
| "new_rows s (MessageChunk run role delta) = {[], [MessageRow run role False]}"
| "new_rows s (SpecialistPresented run p) = {[], [PresentationRow run (sp_id p)]}"
| "new_rows s (ToolCalled run call) =
     {if im_contains (sn_tool_calls s) (tc_id call) then [] else [ToolRow (tc_id call) (Some run)]}"
| "new_rows s (ExecutionChecklistUpdated run c e) = {[], [ChecklistRow (Some run)]}"
| "new_rows s (ProposedPlanUpdated run p) = {[], [PlanRow run (pp_id p)]}"
| "new_rows s (ArtifactProduced run a) = {[], [ArtifactRow (ar_id a)]}"
| "new_rows s (ProviderIncidentUpdated run i) =
     {if im_contains (sn_provider_incidents s) (pi_id i) then [] else [IncidentRow run (pi_id i)]}"
| "new_rows s e = {[]}"

lemma project_event_rows:
  "\<exists>added\<in>new_rows s e. rows (sn_timeline (project_event s e)) = rows (sn_timeline s) @ added"
proof (cases e)
  case (MessageChunk run role delta)
  then show ?thesis using rows_message_chunk [of run role delta "sn_timeline s"] by auto
next
  case (SpecialistPresented run p)
  then show ?thesis using rows_present [of run p "sn_timeline s"] by auto
next
  case (ExecutionChecklistUpdated run c x)
  then show ?thesis using rows_update_checklist [of run c x "sn_timeline s"]
    by (auto simp: Let_def split: option.split)
next
  case (ProposedPlanUpdated run p)
  then show ?thesis using rows_propose [of run p "sn_timeline s"] by auto
qed (auto simp: Let_def finish_run_def split: option.split)

lemma project_event_offset [simp]: "sn_timeline_offset (project_event s e) = sn_timeline_offset s"
  by (cases e) (auto simp: Let_def finish_run_def split: option.split)

lemma project_events_simps [simp]:
  "project_events s [] = s"
  "project_events s (e # es) = project_events (project_event s e) es"
  by (simp_all add: project_events_def)

lemma project_events_append: "project_events s (es @ fs) = project_events (project_events s es) fs"
  by (simp add: project_events_def)

lemma project_events_offset [simp]: "sn_timeline_offset (project_events s es) = sn_timeline_offset s"
  by (induction es arbitrary: s) simp_all

lemma project_events_rows:
  "\<exists>added. rows (sn_timeline (project_events s es)) = rows (sn_timeline s) @ added"
proof (induction es arbitrary: s)
  case Nil
  then show ?case by simp
next
  case (Cons e es)
  obtain a where "rows (sn_timeline (project_event s e)) = rows (sn_timeline s) @ a"
    using project_event_rows by blast
  moreover obtain b where "rows (sn_timeline (project_events (project_event s e) es))
      = rows (sn_timeline (project_event s e)) @ b"
    using Cons by blast
  ultimately show ?case by auto
qed

lemma project_events_length:
  "length (sn_timeline s) \<le> length (sn_timeline (project_events s es))"
  using project_events_rows [of s es] by (metis length_append length_map le_add1)

lemma tool_row_of_identity:
  "tool_row_of run item = (case row_id item of
     ToolRow i (Some r) \<Rightarrow> if r = run then Some i else None | _ \<Rightarrow> None)"
  by (cases "(run, item)" rule: tool_row_of.cases) auto

lemma set_tool_rows:
  "set (List.map_filter (tool_row_of run) items) = {i. ToolRow i (Some run) \<in> set (rows items)}"
proof -
  have "tool_row_of run item = Some i \<longleftrightarrow> row_id item = ToolRow i (Some run)" for item i
    by (auto simp: tool_row_of_identity split: row_key.splits option.splits if_splits)
  then show ?thesis
    by (auto simp: List.map_filter_def image_iff) (metis option.sel option.distinct(1))+
qed

lemma tool_row_of_iff: "tool_row_of run item = Some i \<longleftrightarrow> item = ToolCallItem i (Some run)"
  by (cases "(run, item)" rule: tool_row_of.cases) auto

lemma set_tool_row_items:
  "i \<in> set (List.map_filter (tool_row_of run) items) \<longleftrightarrow> ToolCallItem i (Some run) \<in> set items"
proof (induction items)
  case Nil
  then show ?case by (simp add: List.map_filter_simps)
next
  case (Cons item items)
  then show ?case
    by (cases "tool_row_of run item") (auto simp: List.map_filter_simps tool_row_of_iff)
qed

section \<open>An example\<close>

definition example_call :: "unit tool_call" where
  "example_call = \<lparr>tc_id = ''call-1'', tc_tool_name = Some ''read_file'', tc_title = ''Read'',
     tc_kind = KRead, tc_status = TPending, tc_locations = [], tc_content = [],
     tc_raw_input = None, tc_streamed_input = [], tc_progress = None\<rparr>"

end
