(* ===== verification/TranscriptPages.thy ===== *)
theory TranscriptPages
  imports Rows "HOL-Library.Multiset"
begin

text \<open>
  Sealing the compacted prefix of a transcript into immutable pages
  (crates/agent-core/src/projection/transcript_pages.rs). The JSON size of a row or record is
  computed by \<open>serde_json\<close>, a parameter here (\<open>wire_sizes\<close>).
\<close>

section \<open>Pages\<close>

definition TRANSCRIPT_PAGE_ITEMS :: nat where
  "TRANSCRIPT_PAGE_ITEMS = 80"

definition TRANSCRIPT_TAIL_ITEMS :: nat where
  "TRANSCRIPT_TAIL_ITEMS = TRANSCRIPT_PAGE_ITEMS * 2"

definition TRANSCRIPT_PAGE_TARGET_BYTES :: u64 where
  "TRANSCRIPT_PAGE_TARGET_BYTES = 6 * 1024 * 1024"

record 'v transcript_page =
  pg_start_index :: nat
  pg_items :: "timeline_item list"
  pg_tool_calls :: "(tool_call_id, 'v tool_call) imap"
  pg_artifacts :: "artifact list"
  pg_provider_incidents :: "(rstr, provider_incident) imap"

definition new_page :: "nat \<Rightarrow> timeline_item list \<Rightarrow> 'v transcript_page" where
  "new_page start items = \<lparr>pg_start_index = start, pg_items = items, pg_tool_calls = [],
     pg_artifacts = [], pg_provider_incidents = []\<rparr>"

record 'v wire_sizes =
  wire_item :: "timeline_item \<Rightarrow> u64"
  wire_call :: "'v tool_call \<Rightarrow> u64"
  wire_artifact :: "artifact \<Rightarrow> u64"
  wire_incident :: "provider_incident \<Rightarrow> u64"

fun record_wire_bytes :: "'v wire_sizes \<Rightarrow> 'v snapshot \<Rightarrow> timeline_item \<Rightarrow> u64 option" where
  "record_wire_bytes w s (ToolCallItem i run) = map_option (wire_call w) (map_of (sn_tool_calls s) i)"
| "record_wire_bytes w s (ArtifactItem i) =
     map_option (wire_artifact w) (List.find (\<lambda>a. ar_id a = i) (sn_artifacts s))"
| "record_wire_bytes w s (IncidentItem run i) =
     map_option (wire_incident w) (map_of (sn_provider_incidents s) i)"
| "record_wire_bytes w s item = None"

definition transcript_item_wire_bytes :: "'v wire_sizes \<Rightarrow> 'v snapshot \<Rightarrow> timeline_item \<Rightarrow> u64" where
  "transcript_item_wire_bytes w s item =
     sat_add (case record_wire_bytes w s item of
                None \<Rightarrow> wire_item w item | Some n \<Rightarrow> sat_add (wire_item w item) n) 64"

section \<open>Cutting the sealed rows into pages\<close>

record 'v cutting =
  cu_pages :: "'v transcript_page list"
  cu_items :: "timeline_item list"
  cu_bytes :: u64
  cu_next_start :: nat

definition flush_page :: "'v cutting \<Rightarrow> 'v cutting" where
  "flush_page c =
     (let next_start = cu_next_start c + length (cu_items c)
      in \<lparr>cu_pages = cu_pages c @ [new_page (next_start - length (cu_items c)) (cu_items c)],
          cu_items = [], cu_bytes = 0, cu_next_start = next_start\<rparr>)"

definition cut_item :: "'v wire_sizes \<Rightarrow> 'v snapshot \<Rightarrow> 'v cutting \<Rightarrow> timeline_item \<Rightarrow> 'v cutting" where
  "cut_item w s c item =
     (let item_bytes = transcript_item_wire_bytes w s item;
          c1 = (if cu_items c \<noteq> []
                   \<and> (length (cu_items c) = TRANSCRIPT_PAGE_ITEMS
                      \<or> TRANSCRIPT_PAGE_TARGET_BYTES < sat_add (cu_bytes c) item_bytes)
                then flush_page c else c)
      in c1\<lparr>cu_bytes := sat_add (cu_bytes c1) item_bytes, cu_items := cu_items c1 @ [item]\<rparr>)"

definition cut_pages ::
    "'v wire_sizes \<Rightarrow> 'v snapshot \<Rightarrow> nat \<Rightarrow> timeline_item list \<Rightarrow> 'v transcript_page list" where
  "cut_pages w s page_start sealed =
     (let c = foldl (cut_item w s)
                \<lparr>cu_pages = [], cu_items = [], cu_bytes = 0, cu_next_start = page_start\<rparr> sealed
      in if cu_items c = [] then cu_pages c
         else cu_pages c @ [new_page (cu_next_start c) (cu_items c)])"

section \<open>Moving the records of sealed rows\<close>

definition timeline_references_tool :: "timeline_item list \<Rightarrow> tool_call_id \<Rightarrow> bool" where
  "timeline_references_tool timeline i \<longleftrightarrow>
     list_ex (\<lambda>item. case item of ToolCallItem j r \<Rightarrow> j = i | _ \<Rightarrow> False) timeline"

definition timeline_references_artifact :: "timeline_item list \<Rightarrow> rstr \<Rightarrow> bool" where
  "timeline_references_artifact timeline i \<longleftrightarrow>
     list_ex (\<lambda>item. case item of ArtifactItem j \<Rightarrow> j = i | _ \<Rightarrow> False) timeline"

definition timeline_references_incident :: "timeline_item list \<Rightarrow> rstr \<Rightarrow> bool" where
  "timeline_references_incident timeline i \<longleftrightarrow>
     list_ex (\<lambda>item. case item of IncidentItem r j \<Rightarrow> j = i | _ \<Rightarrow> False) timeline"

text \<open>\<open>position\<close> followed by \<open>remove\<close>\<close>

fun remove_artifact :: "rstr \<Rightarrow> artifact list \<Rightarrow> (artifact \<times> artifact list) option" where
  "remove_artifact i [] = None"
| "remove_artifact i (a # as) =
     (if ar_id a = i then Some (a, as)
      else map_option (\<lambda>(b, bs). (b, a # bs)) (remove_artifact i as))"

fun move_record ::
    "'v snapshot \<times> 'v transcript_page \<Rightarrow> timeline_item \<Rightarrow> 'v snapshot \<times> 'v transcript_page"
where
  "move_record (s, page) (ToolCallItem i run) =
     (if timeline_references_tool (sn_timeline s) i then (s, page)
      else case map_of (sn_tool_calls s) i of
             None \<Rightarrow> (s, page)
           | Some call \<Rightarrow>
               (s\<lparr>sn_tool_calls := im_shift_remove i (sn_tool_calls s)\<rparr>,
                page\<lparr>pg_tool_calls := im_insert i call (pg_tool_calls page)\<rparr>))"
| "move_record (s, page) (ArtifactItem i) =
     (if timeline_references_artifact (sn_timeline s) i then (s, page)
      else case remove_artifact i (sn_artifacts s) of
             None \<Rightarrow> (s, page)
           | Some (a, as) \<Rightarrow>
               (s\<lparr>sn_artifacts := as\<rparr>, page\<lparr>pg_artifacts := pg_artifacts page @ [a]\<rparr>))"
| "move_record (s, page) (IncidentItem run i) =
     (if timeline_references_incident (sn_timeline s) i then (s, page)
      else case map_of (sn_provider_incidents s) i of
             None \<Rightarrow> (s, page)
           | Some incident \<Rightarrow>
               (s\<lparr>sn_provider_incidents := im_shift_remove i (sn_provider_incidents s)\<rparr>,
                page\<lparr>pg_provider_incidents :=
                  im_insert i incident (pg_provider_incidents page)\<rparr>))"
| "move_record (s, page) item = (s, page)"

fun move_records ::
    "'v snapshot \<Rightarrow> 'v transcript_page list \<Rightarrow> 'v snapshot \<times> 'v transcript_page list" where
  "move_records s [] = (s, [])"
| "move_records s (page # pages) =
     (let (s1, page1) = foldl move_record (s, page) (pg_items page);
          (s2, pages2) = move_records s1 pages
      in (s2, page1 # pages2))"

section \<open>Sealing\<close>

definition run_active :: "run_status \<Rightarrow> bool" where
  "run_active st \<longleftrightarrow> st \<in> {RQueued, RRunning, RAwaitingInput}"

definition seal_blocked :: "'v snapshot \<Rightarrow> bool" where
  "seal_blocked s \<longleftrightarrow> sn_starting s \<or> list_ex (\<lambda>(k, run). run_active (rv_status run)) (sn_runs s)"

definition seal_count :: "'v snapshot \<Rightarrow> nat" where
  "seal_count s =
     (case sn_model_context_checkpoint s of
        None \<Rightarrow> 0
      | Some c \<Rightarrow>
          min (mc_timeline_index c - sn_timeline_offset s) (length (sn_timeline s))
            - TRANSCRIPT_TAIL_ITEMS)"

definition seal_transcript_pages ::
    "'v wire_sizes \<Rightarrow> 'v snapshot \<Rightarrow> 'v snapshot \<times> 'v transcript_page list" where
  "seal_transcript_pages w s =
     (if seal_blocked s \<or> seal_count s = 0 then (s, [])
      else
        let sealed = take (seal_count s) (sn_timeline s);
            s1 = s\<lparr>sn_timeline := drop (seal_count s) (sn_timeline s),
                   sn_timeline_offset := sn_timeline_offset s + seal_count s\<rparr>
        in move_records s1 (cut_pages w s1 (sn_timeline_offset s) sealed))"

section \<open>The pages hold the sealed rows in order\<close>

definition page_bytes :: "'v wire_sizes \<Rightarrow> 'v snapshot \<Rightarrow> timeline_item list \<Rightarrow> u64" where
  "page_bytes w s items = foldl (\<lambda>b item. sat_add b (transcript_item_wire_bytes w s item)) 0 items"

text \<open>A page has a row, at most 80, and fits the byte target unless it has just one.\<close>

definition page_fits :: "'v wire_sizes \<Rightarrow> 'v snapshot \<Rightarrow> timeline_item list \<Rightarrow> bool" where
  "page_fits w s items \<longleftrightarrow> items \<noteq> [] \<and> length items \<le> TRANSCRIPT_PAGE_ITEMS
     \<and> (1 < length items \<longrightarrow> page_bytes w s items \<le> TRANSCRIPT_PAGE_TARGET_BYTES)"

fun page_starts :: "nat \<Rightarrow> 'v transcript_page list \<Rightarrow> bool" where
  "page_starts n [] = True"
| "page_starts n (page # pages) =
     (pg_start_index page = n \<and> page_starts (n + length (pg_items page)) pages)"

abbreviation page_rows :: "'v transcript_page list \<Rightarrow> timeline_item list" where
  "page_rows pages \<equiv> concat (map pg_items pages)"

lemma page_starts_append:
  "page_starts n (ps @ qs) \<longleftrightarrow> page_starts n ps \<and> page_starts (n + length (page_rows ps)) qs"
  by (induction ps arbitrary: n) (auto simp: add.assoc)

definition cutting_ok ::
    "'v wire_sizes \<Rightarrow> 'v snapshot \<Rightarrow> nat \<Rightarrow> timeline_item list \<Rightarrow> 'v cutting \<Rightarrow> bool" where
  "cutting_ok w s n seen c \<longleftrightarrow>
     page_rows (cu_pages c) @ cu_items c = seen
     \<and> page_starts n (cu_pages c) \<and> cu_next_start c = n + length (page_rows (cu_pages c))
     \<and> (\<forall>page\<in>set (cu_pages c). page_fits w s (pg_items page))
     \<and> cu_bytes c = page_bytes w s (cu_items c)
     \<and> (cu_items c \<noteq> [] \<longrightarrow> page_fits w s (cu_items c))"

lemma page_bytes_snoc [simp]:
  "page_bytes w s (items @ [item]) = sat_add (page_bytes w s items) (transcript_item_wire_bytes w s item)"
  by (simp add: page_bytes_def)

lemma page_bytes_Nil [simp]: "page_bytes w s [] = 0"
  by (simp add: page_bytes_def)

lemma page_items_pos: "1 \<le> TRANSCRIPT_PAGE_ITEMS"
  by (simp add: TRANSCRIPT_PAGE_ITEMS_def)

lemma flush_page_ok:
  "cutting_ok w s n seen c \<Longrightarrow> cu_items c \<noteq> [] \<Longrightarrow>
     cutting_ok w s n seen (flush_page c) \<and> cu_items (flush_page c) = []"
  by (auto simp: cutting_ok_def flush_page_def Let_def new_page_def page_starts_append)

lemma cut_item_ok:
  assumes "cutting_ok w s n seen c"
  shows "cutting_ok w s n (seen @ [item]) (cut_item w s c item)"
proof (cases "cu_items c = []")
  case True
  then show ?thesis using assms page_items_pos
    by (auto simp: cut_item_def cutting_ok_def page_fits_def page_bytes_def)
next
  case False
  show ?thesis
  proof (cases "length (cu_items c) = TRANSCRIPT_PAGE_ITEMS
      \<or> TRANSCRIPT_PAGE_TARGET_BYTES < sat_add (cu_bytes c) (transcript_item_wire_bytes w s item)")
    case True
    then have "cut_item w s c item = (flush_page c)
        \<lparr>cu_bytes := sat_add (cu_bytes (flush_page c)) (transcript_item_wire_bytes w s item),
         cu_items := cu_items (flush_page c) @ [item]\<rparr>"
      using False by (simp add: cut_item_def Let_def)
    then show ?thesis
      using flush_page_ok [OF assms False] page_items_pos
      by (auto simp: cutting_ok_def page_fits_def page_bytes_def)
  next
    case small: False
    then have "cut_item w s c item =
        c\<lparr>cu_bytes := sat_add (cu_bytes c) (transcript_item_wire_bytes w s item),
          cu_items := cu_items c @ [item]\<rparr>"
      by (simp add: cut_item_def Let_def)
    then show ?thesis
      using assms False small by (auto simp: cutting_ok_def page_fits_def)
  qed
qed

lemma cut_items_ok:
  "cutting_ok w s n seen c \<Longrightarrow> cutting_ok w s n (seen @ items) (foldl (cut_item w s) c items)"
proof (induction items arbitrary: c seen)
  case (Cons item items)
  then show ?case using Cons.IH [OF cut_item_ok [OF Cons.prems]] by simp
qed simp

lemma cut_pages_ok:
  "page_rows (cut_pages w s n items) = items \<and> page_starts n (cut_pages w s n items)
   \<and> (\<forall>page\<in>set (cut_pages w s n items). page_fits w s (pg_items page))"
proof -
  define c where "c = foldl (cut_item w s)
    \<lparr>cu_pages = [] :: 'a transcript_page list, cu_items = [], cu_bytes = 0, cu_next_start = n\<rparr> items"
  have "cutting_ok w s n ([] @ items) c"
    unfolding c_def by (rule cut_items_ok) (simp add: cutting_ok_def)
  then show ?thesis
    by (auto simp: cut_pages_def c_def [symmetric] cutting_ok_def new_page_def page_starts_append)
qed

section \<open>No record is lost\<close>

lemma is_row_iff:
  "(case item of ToolCallItem j r \<Rightarrow> j = i | _ \<Rightarrow> False) \<longleftrightarrow> (\<exists>r. item = ToolCallItem i r)"
  "(case item of ArtifactItem j \<Rightarrow> j = i | _ \<Rightarrow> False) \<longleftrightarrow> item = ArtifactItem i"
  "(case item of IncidentItem r j \<Rightarrow> j = i | _ \<Rightarrow> False) \<longleftrightarrow> (\<exists>r. item = IncidentItem r i)"
  by (cases item; auto)+

lemma references_iff:
  "timeline_references_tool items i \<longleftrightarrow> (\<exists>r. ToolCallItem i r \<in> set items)"
  "timeline_references_artifact items i \<longleftrightarrow> ArtifactItem i \<in> set items"
  "timeline_references_incident items i \<longleftrightarrow> (\<exists>r. IncidentItem r i \<in> set items)"
  unfolding timeline_references_tool_def timeline_references_artifact_def
    timeline_references_incident_def is_row_iff list_ex_iff by blast+

text \<open>Moving records touches nothing of the snapshot but the records.\<close>

definition same_but_records :: "'v snapshot \<Rightarrow> 'v snapshot \<Rightarrow> bool" where
  "same_but_records s t \<longleftrightarrow>
     t = s\<lparr>sn_tool_calls := sn_tool_calls t, sn_artifacts := sn_artifacts t,
           sn_provider_incidents := sn_provider_incidents t\<rparr>"

definition same_rows :: "'v transcript_page \<Rightarrow> 'v transcript_page \<Rightarrow> bool" where
  "same_rows p q \<longleftrightarrow> pg_items q = pg_items p \<and> pg_start_index q = pg_start_index p"

lemma same_but_records_refl [simp]: "same_but_records s s"
  by (simp add: same_but_records_def)

lemma same_but_records_trans: "same_but_records s t \<Longrightarrow> same_but_records t u \<Longrightarrow> same_but_records s u"
  by (cases s; cases t; cases u) (simp add: same_but_records_def)

lemma same_but_recordsD:
  assumes "same_but_records s t"
  shows "sn_timeline t = sn_timeline s" "sn_timeline_offset t = sn_timeline_offset s"
    "sn_model_context_checkpoint t = sn_model_context_checkpoint s" "sn_goal t = sn_goal s"
    "sn_proposed_plan t = sn_proposed_plan s" "sn_runs t = sn_runs s" "sn_fan_out t = sn_fan_out s"
    "sn_starting t = sn_starting s"
  using assms by (cases s; cases t; simp add: same_but_records_def)+

lemma move_record_frame:
  "same_but_records (fst sp) (fst (move_record sp item)) \<and> same_rows (snd sp) (snd (move_record sp item))"
  by (cases "(sp, item)" rule: move_record.cases)
    (auto simp: same_but_records_def same_rows_def split: option.split)

lemma move_items_frame:
  "same_but_records (fst sp) (fst (foldl move_record sp items))
   \<and> same_rows (snd sp) (snd (foldl move_record sp items))"
proof (induction items arbitrary: sp)
  case Nil
  then show ?case by (simp add: same_rows_def)
next
  case (Cons item items)
  then show ?case
    using move_record_frame [of sp item] Cons.IH [of "move_record sp item"]
      same_but_records_trans [of "fst sp" "fst (move_record sp item)"]
    by (simp add: same_rows_def)
qed

lemma move_records_frame:
  "same_but_records s (fst (move_records s pages)) \<and> list_all2 same_rows pages (snd (move_records s pages))"
proof (induction pages arbitrary: s)
  case (Cons page pages)
  obtain s1 page1 where one: "foldl move_record (s, page) (pg_items page) = (s1, page1)"
    by fastforce
  then show ?case
    using move_items_frame [of "(s, page)" "pg_items page"] Cons [of s1]
    by (auto split: prod.split intro: same_but_records_trans)
qed simp

text \<open>
  One kind of record at a time: a store of the snapshot and a store of the page. While the two
  have no key in common, moving a record changes neither their union nor that.
\<close>

definition handed_over ::
    "('k \<Rightarrow> bool) \<Rightarrow> ('k \<rightharpoonup> 'r) \<times> ('k \<rightharpoonup> 'r) \<Rightarrow> ('k \<rightharpoonup> 'r) \<times> ('k \<rightharpoonup> 'r) \<Rightarrow> bool"
where
  "handed_over gone = (\<lambda>(a, b) (a', b').
     dom a \<inter> dom b = {} \<longrightarrow>
       dom a' \<inter> dom b' = {} \<and> a' ++ b' = a ++ b
       \<and> a' = (\<lambda>k. if gone k then None else a k))"

lemma handed_over_refl: "handed_over (\<lambda>k. False) x x"
  by (cases x) (simp add: handed_over_def)

lemma handed_over_none: "(\<And>k. gone k \<Longrightarrow> fst x k = None) \<Longrightarrow> handed_over gone x x"
  by (cases x) (auto simp: handed_over_def fun_eq_iff)

lemma handed_over_trans:
  "handed_over g x y \<Longrightarrow> handed_over h y z \<Longrightarrow> handed_over (\<lambda>k. g k \<or> h k) x z"
  by (cases x; cases y; cases z) (auto simp: handed_over_def fun_eq_iff)

lemma handed_over_move:
  "a k = Some r \<Longrightarrow> handed_over (\<lambda>j. j = k) (a, b) (a(k := None), b(k \<mapsto> r))"
  by (auto simp: handed_over_def fun_eq_iff map_add_def split: option.split)

lemma handed_over_empty:
  "handed_over gone (a, Map.empty) (a', b') \<Longrightarrow>
     a' = (\<lambda>k. if gone k then None else a k) \<and> a' ++ b' = a"
  unfolding handed_over_def by auto

definition tool_stores ::
    "'v snapshot \<times> 'v transcript_page \<Rightarrow> (tool_call_id \<rightharpoonup> 'v tool_call) \<times> (tool_call_id \<rightharpoonup> 'v tool_call)"
where
  "tool_stores sp = (map_of (sn_tool_calls (fst sp)), map_of (pg_tool_calls (snd sp)))"

definition incident_stores ::
    "'v snapshot \<times> 'v transcript_page \<Rightarrow> (rstr \<rightharpoonup> provider_incident) \<times> (rstr \<rightharpoonup> provider_incident)"
where
  "incident_stores sp =
     (map_of (sn_provider_incidents (fst sp)), map_of (pg_provider_incidents (snd sp)))"

definition tool_gone :: "timeline_item list \<Rightarrow> timeline_item list \<Rightarrow> tool_call_id \<Rightarrow> bool" where
  "tool_gone tail sealed i \<longleftrightarrow>
     timeline_references_tool sealed i \<and> \<not> timeline_references_tool tail i"

definition incident_gone :: "timeline_item list \<Rightarrow> timeline_item list \<Rightarrow> rstr \<Rightarrow> bool" where
  "incident_gone tail sealed i \<longleftrightarrow>
     timeline_references_incident sealed i \<and> \<not> timeline_references_incident tail i"

lemma gone_Nil: "tool_gone tail [] = (\<lambda>i. False)" "incident_gone tail [] = (\<lambda>i. False)"
  by (auto simp: tool_gone_def incident_gone_def references_iff)

lemma gone_append:
  "tool_gone tail (a @ b) = (\<lambda>i. tool_gone tail a i \<or> tool_gone tail b i)"
  "incident_gone tail (a @ b) = (\<lambda>i. incident_gone tail a i \<or> incident_gone tail b i)"
  by (auto simp: tool_gone_def incident_gone_def references_iff fun_eq_iff)

lemma move_record_tools:
  "handed_over (tool_gone (sn_timeline (fst sp)) [item]) (tool_stores sp) (tool_stores (move_record sp item))"
proof (cases "(sp, item)" rule: move_record.cases)
  case (1 s page i run)
  have gone: "tool_gone (sn_timeline s) [item] = (\<lambda>j. j = i)"
    if "\<not> timeline_references_tool (sn_timeline s) i"
    using that 1 by (auto simp: tool_gone_def references_iff fun_eq_iff)
  show ?thesis
  proof (cases "timeline_references_tool (sn_timeline s) i \<or> map_of (sn_tool_calls s) i = None")
    case True
    then show ?thesis
      using 1 by (auto simp: tool_stores_def tool_gone_def references_iff intro!: handed_over_none)
  next
    case False
    then obtain call where "map_of (sn_tool_calls s) i = Some call" by auto
    then show ?thesis
      using handed_over_move [of "map_of (sn_tool_calls s)" i call "map_of (pg_tool_calls page)"]
        gone False 1
      by (simp add: tool_stores_def map_of_im_shift_remove)
  qed
qed (auto simp: tool_stores_def tool_gone_def references_iff intro!: handed_over_none split: option.split)

lemma move_record_incidents:
  "handed_over (incident_gone (sn_timeline (fst sp)) [item]) (incident_stores sp)
     (incident_stores (move_record sp item))"
proof (cases "(sp, item)" rule: move_record.cases)
  case (3 s page run i)
  have gone: "incident_gone (sn_timeline s) [item] = (\<lambda>j. j = i)"
    if "\<not> timeline_references_incident (sn_timeline s) i"
    using that 3 by (auto simp: incident_gone_def references_iff fun_eq_iff)
  show ?thesis
  proof (cases "timeline_references_incident (sn_timeline s) i
      \<or> map_of (sn_provider_incidents s) i = None")
    case True
    then show ?thesis
      using 3 by (auto simp: incident_stores_def incident_gone_def references_iff intro!: handed_over_none)
  next
    case False
    then obtain x where "map_of (sn_provider_incidents s) i = Some x" by auto
    then show ?thesis
      using handed_over_move [of "map_of (sn_provider_incidents s)" i x
          "map_of (pg_provider_incidents page)"] gone False 3
      by (simp add: incident_stores_def map_of_im_shift_remove)
  qed
qed (auto simp: incident_stores_def incident_gone_def references_iff intro!: handed_over_none
  split: option.split)

lemma move_items_stores:
  "handed_over (tool_gone (sn_timeline (fst sp)) items) (tool_stores sp)
     (tool_stores (foldl move_record sp items))
   \<and> handed_over (incident_gone (sn_timeline (fst sp)) items) (incident_stores sp)
     (incident_stores (foldl move_record sp items))"
proof (induction items arbitrary: sp)
  case Nil
  then show ?case by (simp add: gone_Nil handed_over_refl)
next
  case (Cons item items)
  have tl: "sn_timeline (fst (move_record sp item)) = sn_timeline (fst sp)"
    using move_record_frame [of sp item] same_but_recordsD(1) by blast
  show ?case
    using Cons [of "move_record sp item"] move_record_tools [of sp item]
      move_record_incidents [of sp item] gone_append [of "sn_timeline (fst sp)" "[item]" items]
    by (auto simp: tl intro: handed_over_trans)
qed

lemma remove_artifact_mset:
  "remove_artifact i as = Some (a, bs) \<Longrightarrow> mset as = add_mset a (mset bs)"
  by (induction i as arbitrary: a bs rule: remove_artifact.induct) (auto split: if_splits)

lemma move_record_artifacts:
  "mset (sn_artifacts (fst (move_record sp item))) + mset (pg_artifacts (snd (move_record sp item)))
     = mset (sn_artifacts (fst sp)) + mset (pg_artifacts (snd sp))"
  by (cases "(sp, item)" rule: move_record.cases)
    (auto dest!: remove_artifact_mset split: option.split)

lemma move_items_artifacts:
  "mset (sn_artifacts (fst (foldl move_record sp items)))
     + mset (pg_artifacts (snd (foldl move_record sp items)))
     = mset (sn_artifacts (fst sp)) + mset (pg_artifacts (snd sp))"
  by (induction items arbitrary: sp) (simp_all add: move_record_artifacts)

text \<open>A page as \<open>cut_pages\<close> makes it: no records yet.\<close>

definition page_bare :: "'v transcript_page \<Rightarrow> bool" where
  "page_bare p \<longleftrightarrow> pg_tool_calls p = [] \<and> pg_artifacts p = [] \<and> pg_provider_incidents p = []"

lemma cut_item_bare:
  "list_all page_bare (cu_pages c) \<Longrightarrow> list_all page_bare (cu_pages (cut_item w s c item))"
  by (simp add: cut_item_def flush_page_def Let_def new_page_def page_bare_def)

lemma cut_items_bare:
  "list_all page_bare (cu_pages c) \<Longrightarrow> list_all page_bare (cu_pages (foldl (cut_item w s) c items))"
  by (induction items arbitrary: c) (simp_all add: cut_item_bare)

lemma cut_pages_bare: "list_all page_bare (cut_pages w s n items)"
proof -
  have "list_all page_bare (cu_pages (foldl (cut_item w s)
      \<lparr>cu_pages = [], cu_items = [], cu_bytes = 0, cu_next_start = n\<rparr> items))"
    by (rule cut_items_bare) simp
  then show ?thesis by (simp add: cut_pages_def Let_def new_page_def page_bare_def)
qed

lemma move_page_records:
  assumes "foldl move_record (s, page) (pg_items page) = (s1, page1)" and "page_bare page"
  shows "map_of (sn_tool_calls s1) = (\<lambda>i. if tool_gone (sn_timeline s) (pg_items page) i then None
      else map_of (sn_tool_calls s) i)"
    and "map_of (sn_tool_calls s1) ++ map_of (pg_tool_calls page1) = map_of (sn_tool_calls s)"
    and "map_of (sn_provider_incidents s1) = (\<lambda>i. if incident_gone (sn_timeline s) (pg_items page) i
      then None else map_of (sn_provider_incidents s) i)"
    and "map_of (sn_provider_incidents s1) ++ map_of (pg_provider_incidents page1)
      = map_of (sn_provider_incidents s)"
    and "mset (sn_artifacts s1) + mset (pg_artifacts page1) = mset (sn_artifacts s)"
    and "pg_items page1 = pg_items page" and "pg_start_index page1 = pg_start_index page"
    and "same_but_records s s1"
proof -
  have bare: "pg_tool_calls page = []" "pg_artifacts page = []" "pg_provider_incidents page = []"
    using assms(2) by (simp_all add: page_bare_def)
  have "handed_over (tool_gone (sn_timeline s) (pg_items page)) (map_of (sn_tool_calls s), Map.empty)
      (map_of (sn_tool_calls s1), map_of (pg_tool_calls page1))"
    and "handed_over (incident_gone (sn_timeline s) (pg_items page))
      (map_of (sn_provider_incidents s), Map.empty)
      (map_of (sn_provider_incidents s1), map_of (pg_provider_incidents page1))"
    using move_items_stores [of "(s, page)" "pg_items page"] assms(1) bare
    by (simp_all add: tool_stores_def incident_stores_def)
  note stores = this [THEN handed_over_empty]
  show "map_of (sn_tool_calls s1) = (\<lambda>i. if tool_gone (sn_timeline s) (pg_items page) i then None
      else map_of (sn_tool_calls s) i)"
    and "map_of (sn_tool_calls s1) ++ map_of (pg_tool_calls page1) = map_of (sn_tool_calls s)"
    and "map_of (sn_provider_incidents s1) = (\<lambda>i. if incident_gone (sn_timeline s) (pg_items page) i
      then None else map_of (sn_provider_incidents s) i)"
    and "map_of (sn_provider_incidents s1) ++ map_of (pg_provider_incidents page1)
      = map_of (sn_provider_incidents s)"
    using stores by blast+
  show "mset (sn_artifacts s1) + mset (pg_artifacts page1) = mset (sn_artifacts s)"
    using move_items_artifacts [of "(s, page)" "pg_items page"] assms(1) bare by simp
  show "pg_items page1 = pg_items page" and "pg_start_index page1 = pg_start_index page"
    and "same_but_records s s1"
    using move_items_frame [of "(s, page)" "pg_items page"] assms(1) by (simp_all add: same_rows_def)
qed

definition tool_kept :: "'v snapshot \<Rightarrow> 'v transcript_page list \<Rightarrow> tool_call_id \<Rightarrow> 'v tool_call \<Rightarrow> bool"
where
  "tool_kept s pages i call \<longleftrightarrow> map_of (sn_tool_calls s) i = Some call
     \<or> (\<exists>page\<in>set pages. timeline_references_tool (pg_items page) i
          \<and> map_of (pg_tool_calls page) i = Some call)"

definition incident_kept ::
    "'v snapshot \<Rightarrow> 'v transcript_page list \<Rightarrow> rstr \<Rightarrow> provider_incident \<Rightarrow> bool" where
  "incident_kept s pages i x \<longleftrightarrow> map_of (sn_provider_incidents s) i = Some x
     \<or> (\<exists>page\<in>set pages. timeline_references_incident (pg_items page) i
          \<and> map_of (pg_provider_incidents page) i = Some x)"

lemma map_add_left_None: "a k = None \<Longrightarrow> (a ++ b) k = b k"
  by (simp add: map_add_def split: option.split)

lemma move_records_stores:
  assumes "move_records s pages = (s', pages')" and "list_all page_bare pages"
  shows "map_of (sn_tool_calls s') = (\<lambda>i. if tool_gone (sn_timeline s) (page_rows pages) i then None
      else map_of (sn_tool_calls s) i)
    \<and> map_of (sn_provider_incidents s') = (\<lambda>i. if incident_gone (sn_timeline s) (page_rows pages) i
      then None else map_of (sn_provider_incidents s) i)
    \<and> (\<forall>i call. map_of (sn_tool_calls s) i = Some call \<longrightarrow> tool_kept s' pages' i call)
    \<and> (\<forall>i x. map_of (sn_provider_incidents s) i = Some x \<longrightarrow> incident_kept s' pages' i x)
    \<and> mset (sn_artifacts s) = mset (sn_artifacts s') + (\<Sum>page\<leftarrow>pages'. mset (pg_artifacts page))"
  using assms
proof (induction pages arbitrary: s s' pages')
  case Nil
  then show ?case
    by (auto simp: gone_Nil tool_kept_def incident_kept_def)
next
  case (Cons page pages)
  obtain s1 page1 where one: "foldl move_record (s, page) (pg_items page) = (s1, page1)"
    by fastforce
  obtain pages2 where rest: "move_records s1 pages = (s', pages2)" and pages': "pages' = page1 # pages2"
    using Cons.prems(1) one by (auto split: prod.splits)
  have bare: "page_bare page" "list_all page_bare pages" using Cons.prems(2) by simp_all
  note first = move_page_records [OF one bare(1)]
  note IH = Cons.IH [OF rest bare(2)]
  have tl: "sn_timeline s1 = sn_timeline s" using same_but_recordsD(1) [OF first(8)] .
  have tool: "tool_kept s' pages' i call" if "map_of (sn_tool_calls s) i = Some call" for i call
  proof (cases "tool_gone (sn_timeline s) (pg_items page) i")
    case True
    then have "map_of (sn_tool_calls s1) i = None" using first(1) by simp
    then have "map_of (pg_tool_calls page1) i = Some call"
      using that fun_cong [OF first(2), of i] by (simp add: map_add_left_None)
    then show ?thesis using True first(6) by (auto simp: tool_kept_def tool_gone_def pages')
  next
    case False
    then have "map_of (sn_tool_calls s1) i = Some call" using that first(1) by simp
    then have "tool_kept s' pages2 i call" using IH by blast
    then show ?thesis by (auto simp: tool_kept_def pages')
  qed
  have incident: "incident_kept s' pages' i x" if "map_of (sn_provider_incidents s) i = Some x" for i x
  proof (cases "incident_gone (sn_timeline s) (pg_items page) i")
    case True
    then have "map_of (sn_provider_incidents s1) i = None" using first(3) by simp
    then have "map_of (pg_provider_incidents page1) i = Some x"
      using that fun_cong [OF first(4), of i] by (simp add: map_add_left_None)
    then show ?thesis using True first(6) by (auto simp: incident_kept_def incident_gone_def pages')
  next
    case False
    then have "map_of (sn_provider_incidents s1) i = Some x" using that first(3) by simp
    then have "incident_kept s' pages2 i x" using IH by blast
    then show ?thesis by (auto simp: incident_kept_def pages')
  qed
  have maps: "map_of (sn_tool_calls s') = (\<lambda>i. if tool_gone (sn_timeline s) (page_rows (page # pages)) i
      then None else map_of (sn_tool_calls s) i)"
    "map_of (sn_provider_incidents s') = (\<lambda>i. if incident_gone (sn_timeline s) (page_rows (page # pages)) i
      then None else map_of (sn_provider_incidents s) i)"
    using IH first(1,3) by (auto simp: gone_append tl fun_eq_iff)
  have "mset (sn_artifacts s) = mset (sn_artifacts s') + (\<Sum>page\<leftarrow>pages'. mset (pg_artifacts page))"
    using IH first(5) by (simp add: pages' ac_simps)
  with tool incident maps show ?case by blast
qed

section \<open>What sealing keeps\<close>

lemma page_starts_same_rows: "list_all2 same_rows ps qs \<Longrightarrow> page_starts n qs = page_starts n ps"
  by (induction arbitrary: n rule: list_all2_induct) (simp_all add: same_rows_def)

lemma same_rows_items: "list_all2 same_rows ps qs \<Longrightarrow> map pg_items qs = map pg_items ps"
  by (induction rule: list_all2_induct) (simp_all add: same_rows_def)

lemma wire_bytes_cong:
  assumes "sn_tool_calls s = sn_tool_calls t" "sn_artifacts s = sn_artifacts t"
    "sn_provider_incidents s = sn_provider_incidents t"
  shows "transcript_item_wire_bytes w s item = transcript_item_wire_bytes w t item"
proof -
  have "record_wire_bytes w s item = record_wire_bytes w t item"
    using assms by (cases item) simp_all
  then show ?thesis by (simp add: transcript_item_wire_bytes_def)
qed

lemma page_fits_cong:
  assumes "sn_tool_calls s = sn_tool_calls t" "sn_artifacts s = sn_artifacts t"
    "sn_provider_incidents s = sn_provider_incidents t"
  shows "page_fits w s items = page_fits w t items"
  unfolding page_fits_def page_bytes_def wire_bytes_cong [OF assms] ..

definition cut_snapshot :: "'v snapshot \<Rightarrow> 'v snapshot" where
  "cut_snapshot s = s\<lparr>sn_timeline := drop (seal_count s) (sn_timeline s),
     sn_timeline_offset := sn_timeline_offset s + seal_count s\<rparr>"

lemma seal_cases:
  assumes "seal_transcript_pages w s = (s', pages)"
  obtains "s' = s" "pages = []"
  | "\<not> seal_blocked s" "0 < seal_count s"
    "move_records (cut_snapshot s)
       (cut_pages w (cut_snapshot s) (sn_timeline_offset s) (take (seal_count s) (sn_timeline s)))
     = (s', pages)"
  using assms
  by (auto simp: seal_transcript_pages_def Let_def cut_snapshot_def split: if_splits)

lemma seal_count_bounds:
  assumes "0 < seal_count s"
  obtains c where "sn_model_context_checkpoint s = Some c"
    "seal_count s + TRANSCRIPT_TAIL_ITEMS \<le> mc_timeline_index c - sn_timeline_offset s"
    "seal_count s + TRANSCRIPT_TAIL_ITEMS \<le> length (sn_timeline s)"
  using assms by (auto simp: seal_count_def split: option.splits)

lemma seal_count_length: "seal_count s \<le> length (sn_timeline s)"
  by (cases "sn_model_context_checkpoint s")
    (auto simp: seal_count_def intro: le_trans [OF diff_le_self])

lemma seal_count_tail:
  "0 < seal_count s \<Longrightarrow> TRANSCRIPT_TAIL_ITEMS \<le> length (sn_timeline s) - seal_count s"
  by (rule seal_count_bounds) auto


lemma map_filter_cong: "(\<And>x. x \<in> set xs \<Longrightarrow> f x = g x) \<Longrightarrow> List.map_filter f xs = List.map_filter g xs"
  by (induction xs) (simp_all add: List.map_filter_simps split: option.split)

lemma resume_item_cong:
  assumes "\<And>i. timeline_references_tool items i \<Longrightarrow> map_of calls i = map_of calls' i"
    and "item \<in> set items"
  shows "resume_item_of calls item = resume_item_of calls' item"
proof (cases item)
  case (ToolCallItem i r)
  then have "map_of calls i = map_of calls' i"
    using assms by (auto simp: references_iff)
  then show ?thesis using ToolCallItem by simp
qed simp_all

text \<open>
  C35. Sealing does not change what a provider gets when the conversation is reopened: the
  history after the compaction checkpoint is still complete, with the tool call of every row
  in it, although the rows before it and most of their records have moved to pages.
\<close>

theorem sealing_preserves_resume:
  "resume_transcript_of (fst (seal_transcript_pages w s)) = resume_transcript_of s"
proof (cases "seal_transcript_pages w s")
  case (Pair s' pages)
  then show ?thesis
  proof (cases rule: seal_cases)
    case 1
    then show ?thesis using Pair by simp
  next
    case 2
    let ?cut = "cut_pages w (cut_snapshot s) (sn_timeline_offset s) (take (seal_count s) (sn_timeline s))"
    have frame: "same_but_records (cut_snapshot s) s'"
      using move_records_frame [of "cut_snapshot s" ?cut] 2(3) by simp
    obtain c where c: "sn_model_context_checkpoint s = Some c"
      "seal_count s + TRANSCRIPT_TAIL_ITEMS \<le> mc_timeline_index c - sn_timeline_offset s"
      using seal_count_bounds [OF 2(2)] by blast
    let ?start = "mc_timeline_index c - sn_timeline_offset s"
    have rest: "drop (mc_timeline_index c - sn_timeline_offset s') (sn_timeline s')
        = drop ?start (sn_timeline s)"
    proof -
      have "seal_count s + (mc_timeline_index c - (sn_timeline_offset s + seal_count s)) = ?start"
        using c(2) by linarith
      then show ?thesis
        using same_but_recordsD(1,2) [OF frame] by (simp add: cut_snapshot_def add.commute)
    qed
    have later: "set (drop ?start (sn_timeline s)) \<subseteq> set (drop (seal_count s) (sn_timeline s))"
      using c(2) by (intro set_drop_subset_set_drop) linarith
    have kept: "map_of (sn_tool_calls s') i = map_of (sn_tool_calls s) i"
      if "timeline_references_tool (drop ?start (sn_timeline s)) i" for i
    proof -
      have "timeline_references_tool (sn_timeline (cut_snapshot s)) i"
        using that subsetD [OF later] unfolding references_iff cut_snapshot_def by auto
      then show ?thesis
        using move_records_stores [OF 2(3) cut_pages_bare] by (simp add: tool_gone_def cut_snapshot_def)
    qed
    have "List.map_filter (resume_item_of (sn_tool_calls s')) (drop ?start (sn_timeline s))
        = List.map_filter (resume_item_of (sn_tool_calls s)) (drop ?start (sn_timeline s))"
      by (rule map_filter_cong) (rule resume_item_cong [OF kept])
    then show ?thesis
      using same_but_recordsD(3,4,5) [OF frame] c rest Pair
      by (simp add: resume_transcript_of_def cut_snapshot_def)
  qed
qed

section \<open>An example\<close>

definition example_wire :: "unit wire_sizes" where
  "example_wire = \<lparr>wire_item = (\<lambda>_. 100), wire_call = (\<lambda>_. 1000), wire_artifact = (\<lambda>_. 10),
     wire_incident = (\<lambda>_. 10)\<rparr>"

definition example_history :: "unit snapshot" where
  "example_history = snapshot_new\<lparr>sn_timeline := ToolCallItem ''call-1'' (Some ''run-1'')
       # replicate 161 (MessageItem ''run-1'' User [Text ''hello''] None False),
     sn_tool_calls := [(''call-1'', example_call)],
     sn_model_context_checkpoint := Some \<lparr>mc_transcript = \<lparr>rs_items = [], rs_truncated = True\<rparr>,
       mc_timeline_index = 162\<rparr>\<rparr>"

lemma example_history_sealed:
  "seal_count example_history = 2" "\<not> seal_blocked example_history"
  by (simp_all add: example_history_def seal_count_def seal_blocked_def snapshot_new_def
    TRANSCRIPT_TAIL_ITEMS_def TRANSCRIPT_PAGE_ITEMS_def)


end
