(* ===== verification/SnapshotDelta.thy ===== *)
theory SnapshotDelta
  imports Rows
begin

text \<open>
  The description of one publication as a delta (crates/agent-core/src/projection/delta.rs):
  \<open>diff_after_apply\<close> computes it from two projections and the events between them,
  \<open>apply_delta\<close> folds it into the snapshot of a consumer.
\<close>

section \<open>The delta\<close>

record 'v snapshot_scalars =
  sc_history_checkpoint :: "64 word option"
  sc_session :: "session_id option"
  sc_starting :: bool
  sc_model_context_checkpoint :: "'v model_context_checkpoint option"
  sc_execution_checklist :: "execution_checklist option"
  sc_proposed_plan :: "proposed_plan option"
  sc_goal :: "goal_state option"
  sc_pending_permission :: "permission_request option"
  sc_artifacts :: "artifact list"
  sc_focus :: "workspace_focus option"
  sc_fan_out :: "fan_out option"

definition scalars_from_snapshot :: "'v snapshot \<Rightarrow> 'v snapshot_scalars" where
  "scalars_from_snapshot s = \<lparr>sc_history_checkpoint = sn_history_checkpoint s,
     sc_session = sn_session s, sc_starting = sn_starting s,
     sc_model_context_checkpoint = sn_model_context_checkpoint s,
     sc_execution_checklist = sn_execution_checklist s, sc_proposed_plan = sn_proposed_plan s,
     sc_goal = sn_goal s, sc_pending_permission = sn_pending_permission s,
     sc_artifacts = sn_artifacts s, sc_focus = sn_focus s, sc_fan_out = sn_fan_out s\<rparr>"

definition scalars_apply_to :: "'v snapshot_scalars \<Rightarrow> 'v snapshot \<Rightarrow> 'v snapshot" where
  "scalars_apply_to c s = s\<lparr>sn_history_checkpoint := sc_history_checkpoint c,
     sn_session := sc_session c, sn_starting := sc_starting c,
     sn_model_context_checkpoint := sc_model_context_checkpoint c,
     sn_execution_checklist := sc_execution_checklist c, sn_proposed_plan := sc_proposed_plan c,
     sn_goal := sc_goal c, sn_pending_permission := sc_pending_permission c,
     sn_artifacts := sc_artifacts c, sn_focus := sc_focus c, sn_fan_out := sc_fan_out c\<rparr>"

record 'v snapshot_delta =
  sd_seq :: u64
  sd_base_seq :: u64
  sd_timeline_from :: nat
  sd_timeline_tail :: "timeline_item list"
  sd_tool_calls :: "(tool_call_id, 'v tool_call) imap"
  sd_runs :: "(run_id, run_view) imap"
  sd_provider_incidents :: "(rstr, provider_incident) imap"
  sd_scalars :: "'v snapshot_scalars"

datatype delta_error =
    OutOfOrder (de_held: u64) (de_base: u64)
  | BeforeWindow (de_from: nat) (de_offset: nat)
  | AfterEnd (de_from: nat) (de_end: nat)

section \<open>Touched keys\<close>

record touched_keys =
  tk_tool_calls :: "tool_call_id list"
  tk_runs :: "run_id list"
  tk_provider_incidents :: "rstr list"

fun touch_event :: "'v snapshot \<Rightarrow> touched_keys \<Rightarrow> 'v agent_event \<Rightarrow> touched_keys" where
  "touch_event projected t (ToolCalled run call) =
     t\<lparr>tk_tool_calls := tk_tool_calls t @ [tc_id call], tk_runs := tk_runs t @ [run]\<rparr>"
| "touch_event projected t (ToolCallUpdate run i patch) =
     t\<lparr>tk_tool_calls := tk_tool_calls t @ [i]\<rparr>"
| "touch_event projected t (RunFinished run outcome) =
     t\<lparr>tk_runs := tk_runs t @ [run],
       tk_tool_calls :=
         tk_tool_calls t @ List.map_filter (tool_row_of run) (sn_timeline projected)\<rparr>"
| "touch_event projected t (RunStarted run) = t\<lparr>tk_runs := tk_runs t @ [run]\<rparr>"
| "touch_event projected t (Checkpoint run i) = t\<lparr>tk_runs := tk_runs t @ [run]\<rparr>"
| "touch_event projected t (RunUsageUpdated run usage) = t\<lparr>tk_runs := tk_runs t @ [run]\<rparr>"
| "touch_event projected t (ErrorRaised code message run) =
     t\<lparr>tk_runs := tk_runs t @ (case run of None \<Rightarrow> [] | Some r \<Rightarrow> [r])\<rparr>"
| "touch_event projected t (ProviderIncidentUpdated run incident) =
     t\<lparr>tk_provider_incidents := tk_provider_incidents t @ [pi_id incident]\<rparr>"
| "touch_event projected t e = t"

text \<open>\<open>sort()\<close> then \<open>dedup()\<close>\<close>

definition sort_dedup :: "string list \<Rightarrow> string list" where
  "sort_dedup xs = remdups_adj (sort xs)"

definition touched_keys_of :: "'v agent_event list \<Rightarrow> 'v snapshot \<Rightarrow> touched_keys" where
  "touched_keys_of events projected =
     (let t = foldl (touch_event projected)
                \<lparr>tk_tool_calls = [], tk_runs = [], tk_provider_incidents = []\<rparr> events
      in \<lparr>tk_tool_calls = sort_dedup (tk_tool_calls t), tk_runs = sort_dedup (tk_runs t),
          tk_provider_incidents = sort_dedup (tk_provider_incidents t)\<rparr>)"

section \<open>Diff and application\<close>

definition pick_entries :: "('k, 'a) imap \<Rightarrow> 'k list \<Rightarrow> ('k, 'a) imap" where
  "pick_entries m keys =
     im_extend [] (List.map_filter (\<lambda>k. map_option (Pair k) (map_of m k)) keys)"

definition first_difference :: "'a list \<Rightarrow> 'a list \<Rightarrow> nat" where
  "first_difference previous projected =
     (case List.find (\<lambda>i. previous ! i \<noteq> projected ! i) [0..<length previous] of
        None \<Rightarrow> length previous | Some i \<Rightarrow> i)"

definition diff_after_apply ::
    "'v snapshot \<Rightarrow> 'v snapshot \<Rightarrow> 'v agent_event list \<Rightarrow> u64 \<Rightarrow> u64 \<Rightarrow> 'v snapshot_delta option"
where
  "diff_after_apply previous projected events seq base_seq =
     (if sn_timeline_offset previous \<noteq> sn_timeline_offset projected then None
      else if length (sn_timeline projected) < length (sn_timeline previous) then None
      else
        let local_from = first_difference (sn_timeline previous) (sn_timeline projected);
            touched = touched_keys_of events projected
        in Some \<lparr>sd_seq = seq, sd_base_seq = base_seq,
             sd_timeline_from = sn_timeline_offset projected + local_from,
             sd_timeline_tail = drop local_from (sn_timeline projected),
             sd_tool_calls = pick_entries (sn_tool_calls projected) (tk_tool_calls touched),
             sd_runs = pick_entries (sn_runs projected) (tk_runs touched),
             sd_provider_incidents =
               pick_entries (sn_provider_incidents projected) (tk_provider_incidents touched),
             sd_scalars = scalars_from_snapshot projected\<rparr>)"

definition apply_delta ::
    "'v snapshot \<Rightarrow> 'v snapshot_delta \<Rightarrow> u64 \<Rightarrow> delta_error + 'v snapshot" where
  "apply_delta s delta held_seq =
     (if held_seq \<noteq> sd_base_seq delta then Inl (OutOfOrder held_seq (sd_base_seq delta))
      else
        let offset = sn_timeline_offset s in
        if sd_timeline_from delta < offset
        then Inl (BeforeWindow (sd_timeline_from delta) offset)
        else
          let local_from = sd_timeline_from delta - offset in
          if length (sn_timeline s) < local_from
          then Inl (AfterEnd (sd_timeline_from delta) (offset + length (sn_timeline s)))
          else Inr (scalars_apply_to (sd_scalars delta)
            (s\<lparr>sn_timeline := take local_from (sn_timeline s) @ sd_timeline_tail delta,
               sn_tool_calls := im_extend (sn_tool_calls s) (sd_tool_calls delta),
               sn_runs := im_extend (sn_runs s) (sd_runs delta),
               sn_provider_incidents :=
                 im_extend (sn_provider_incidents s) (sd_provider_incidents delta)\<rparr>)))"

section \<open>Equal snapshots\<close>

text \<open>\<open>PartialEq\<close> of \<open>Snapshot\<close>: the maps are compared without their order.\<close>

definition snapshot_eq :: "'v snapshot \<Rightarrow> 'v snapshot \<Rightarrow> bool" where
  "snapshot_eq s t \<longleftrightarrow>
     scalars_from_snapshot s = scalars_from_snapshot t
     \<and> sn_timeline_offset s = sn_timeline_offset t \<and> sn_timeline s = sn_timeline t
     \<and> im_eq (sn_tool_calls s) (sn_tool_calls t) \<and> im_eq (sn_runs s) (sn_runs t)
     \<and> im_eq (sn_provider_incidents s) (sn_provider_incidents t)"

text \<open>The keys of an \<open>IndexMap\<close> are distinct.\<close>

definition snapshot_wf :: "'v snapshot \<Rightarrow> bool" where
  "snapshot_wf s \<longleftrightarrow>
     im_wf (sn_tool_calls s) \<and> im_wf (sn_runs s) \<and> im_wf (sn_provider_incidents s)"

lemma snapshot_wf_new [simp]: "snapshot_wf snapshot_new"
  by (simp add: snapshot_wf_def snapshot_new_def)

lemma im_wf_settle: "im_wf m \<Longrightarrow> im_wf (foldl (\<lambda>calls i. im_adjust i f calls) m is)"
  by (induction "is" arbitrary: m) simp_all

lemma snapshot_wf_event [simp]: "snapshot_wf s \<Longrightarrow> snapshot_wf (project_event s e)"
  by (cases e) (auto simp: snapshot_wf_def Let_def finish_run_def settle_run_tool_calls_def im_wf_settle
    split: option.split)

lemma snapshot_wf_events [simp]: "snapshot_wf s \<Longrightarrow> snapshot_wf (project_events s es)"
  by (induction es arbitrary: s) simp_all

section \<open>What the events touch\<close>

lemma sort_dedup_set [simp]: "set (sort_dedup xs) = set xs"
  by (simp add: sort_dedup_def)

fun tools_touched :: "'v snapshot \<Rightarrow> 'v agent_event \<Rightarrow> tool_call_id set" where
  "tools_touched p (ToolCalled run call) = {tc_id call}"
| "tools_touched p (ToolCallUpdate run i patch) = {i}"
| "tools_touched p (RunFinished run outcome) = set (List.map_filter (tool_row_of run) (sn_timeline p))"
| "tools_touched p e = {}"

fun runs_touched :: "'v agent_event \<Rightarrow> run_id set" where
  "runs_touched (ToolCalled run call) = {run}"
| "runs_touched (RunFinished run outcome) = {run}"
| "runs_touched (RunStarted run) = {run}"
| "runs_touched (Checkpoint run i) = {run}"
| "runs_touched (RunUsageUpdated run usage) = {run}"
| "runs_touched (ErrorRaised code message run) = set_option run"
| "runs_touched e = {}"

fun incidents_touched :: "'v agent_event \<Rightarrow> rstr set" where
  "incidents_touched (ProviderIncidentUpdated run incident) = {pi_id incident}"
| "incidents_touched e = {}"

lemma touch_event_sets:
  "set (tk_tool_calls (touch_event p t e)) = set (tk_tool_calls t) \<union> tools_touched p e"
  "set (tk_runs (touch_event p t e)) = set (tk_runs t) \<union> runs_touched e"
  "set (tk_provider_incidents (touch_event p t e))
     = set (tk_provider_incidents t) \<union> incidents_touched e"
  by (cases e; auto split: option.split)+

lemma touch_events_sets:
  "set (tk_tool_calls (foldl (touch_event p) t es)) = set (tk_tool_calls t) \<union> (\<Union>e\<in>set es. tools_touched p e)"
  "set (tk_runs (foldl (touch_event p) t es)) = set (tk_runs t) \<union> (\<Union>e\<in>set es. runs_touched e)"
  "set (tk_provider_incidents (foldl (touch_event p) t es))
     = set (tk_provider_incidents t) \<union> (\<Union>e\<in>set es. incidents_touched e)"
  by (induction es arbitrary: t) (auto simp: touch_event_sets)

lemma touched_keys_sets:
  "set (tk_tool_calls (touched_keys_of es p)) = (\<Union>e\<in>set es. tools_touched p e)"
  "set (tk_runs (touched_keys_of es p)) = (\<Union>e\<in>set es. runs_touched e)"
  "set (tk_provider_incidents (touched_keys_of es p)) = (\<Union>e\<in>set es. incidents_touched e)"
  by (simp_all add: touched_keys_of_def Let_def touch_events_sets)

lemma settled_other:
  "k \<notin> set ks \<Longrightarrow> map_of (foldl (\<lambda>calls i. im_adjust i f calls) m ks) k = map_of m k"
  by (induction ks arbitrary: m) (simp_all add: map_of_im_adjust)

text \<open>An event changes no entry of a map whose key it does not name.\<close>

lemma project_event_tools:
  assumes "k \<notin> tools_touched (project_event s e) e"
  shows "map_of (sn_tool_calls (project_event s e)) k = map_of (sn_tool_calls s) k"
  using assms
  by (cases e) (auto simp: Let_def finish_run_def settle_run_tool_calls_def settled_other map_of_im_adjust
    split: option.splits)

lemma project_event_runs:
  "k \<notin> runs_touched e \<Longrightarrow> map_of (sn_runs (project_event s e)) k = map_of (sn_runs s) k"
  by (cases e) (auto simp: Let_def finish_run_def map_of_im_adjust map_of_im_entry split: option.splits)

lemma project_event_incidents:
  "k \<notin> incidents_touched e \<Longrightarrow>
     map_of (sn_provider_incidents (project_event s e)) k = map_of (sn_provider_incidents s) k"
  by (cases e) (auto simp: Let_def finish_run_def split: option.splits)

lemma keys_settled: "fst ` set (foldl (\<lambda>calls i. im_adjust i f calls) m ks) = fst ` set m"
  by (induction ks arbitrary: m) simp_all

text \<open>And no event removes an entry.\<close>

lemma project_event_keys:
  "fst ` set (sn_tool_calls s) \<subseteq> fst ` set (sn_tool_calls (project_event s e))"
  "fst ` set (sn_runs s) \<subseteq> fst ` set (sn_runs (project_event s e))"
  "fst ` set (sn_provider_incidents s) \<subseteq> fst ` set (sn_provider_incidents (project_event s e))"
  by (cases e; simp add: Let_def finish_run_def settle_run_tool_calls_def keys_settled subset_insertI
    split: option.split)+

lemma tools_touched_mono:
  "tools_touched s e \<subseteq> tools_touched (project_events s es) e"
proof -
  obtain added where "rows (sn_timeline (project_events s es)) = rows (sn_timeline s) @ added"
    using project_events_rows by blast
  then have "set (rows (sn_timeline s)) \<subseteq> set (rows (sn_timeline (project_events s es)))"
    by simp
  then show ?thesis by (cases e) (auto simp only: tools_touched.simps set_tool_rows)
qed

lemma project_events_tools:
  "k \<notin> (\<Union>e\<in>set es. tools_touched (project_events s es) e) \<Longrightarrow>
     map_of (sn_tool_calls (project_events s es)) k = map_of (sn_tool_calls s) k"
proof (induction es arbitrary: s)
  case (Cons e es)
  then have "k \<notin> tools_touched (project_event s e) e"
    using tools_touched_mono [of "project_event s e" e es] by auto
  then show ?case using Cons project_event_tools by simp
qed simp

lemma project_events_runs:
  "k \<notin> (\<Union>e\<in>set es. runs_touched e) \<Longrightarrow>
     map_of (sn_runs (project_events s es)) k = map_of (sn_runs s) k"
  by (induction es arbitrary: s) (simp_all add: project_event_runs)

lemma project_events_incidents:
  "k \<notin> (\<Union>e\<in>set es. incidents_touched e) \<Longrightarrow>
     map_of (sn_provider_incidents (project_events s es)) k = map_of (sn_provider_incidents s) k"
  by (induction es arbitrary: s) (simp_all add: project_event_incidents)

lemma project_events_keys:
  "fst ` set (sn_tool_calls s) \<subseteq> fst ` set (sn_tool_calls (project_events s es))"
  "fst ` set (sn_runs s) \<subseteq> fst ` set (sn_runs (project_events s es))"
  "fst ` set (sn_provider_incidents s) \<subseteq> fst ` set (sn_provider_incidents (project_events s es))"
proof (induction es arbitrary: s)
  case (Cons e es)
  {
    case 1
    then show ?case using Cons(1) [of "project_event s e"] project_event_keys(1) [of s e] by auto
  next
    case 2
    then show ?case using Cons(2) [of "project_event s e"] project_event_keys(2) [of s e] by auto
  next
    case 3
    then show ?case using Cons(3) [of "project_event s e"] project_event_keys(3) [of s e] by auto
  }
qed simp_all

section \<open>The delta describes the transition\<close>

lemma im_wf_pick_entries [simp]: "im_wf (pick_entries m ks)"
  by (simp add: pick_entries_def)

lemma map_of_pick_from:
  "map_of (im_extend acc (List.map_filter (\<lambda>k. map_option (Pair k) (map_of m k)) ks)) k
     = (if k \<in> set ks \<and> map_of m k \<noteq> None then map_of m k else map_of acc k)"
proof (induction ks arbitrary: acc)
  case Nil
  then show ?case by (simp add: List.map_filter_simps)
next
  case (Cons x xs)
  then show ?case by (cases "map_of m x") (auto simp: List.map_filter_simps)
qed

lemma map_of_pick_entries:
  "map_of (pick_entries m ks) k = (if k \<in> set ks then map_of m k else None)"
  by (auto simp: pick_entries_def map_of_pick_from)

lemma map_of_extend_pick:
  assumes "map_of c = map_of old"
    and "\<And>k. k \<notin> set ks \<Longrightarrow> map_of new k = map_of old k"
    and "fst ` set old \<subseteq> fst ` set new"
  shows "map_of (im_extend c (pick_entries new ks)) = map_of new"
proof
  fix k
  have "map_of (rev (pick_entries new ks)) = map_of (pick_entries new ks)"
    using im_wf_pick_entries [of new ks] by (simp add: im_wf_def map_of_rev_of_distinct)
  moreover have "map_of old k = None" if "map_of new k = None"
    using that assms(3) by (auto simp: map_of_eq_None_iff)
  ultimately show "map_of (im_extend c (pick_entries new ks)) k = map_of new k"
    using assms(1,2)
    by (auto simp: map_of_im_extend map_of_pick_entries map_add_def split: option.split)
qed

lemma first_difference_shared:
  assumes "length xs \<le> length ys"
  shows "first_difference xs ys \<le> length xs
    \<and> take (first_difference xs ys) ys = take (first_difference xs ys) xs"
proof -
  let ?P = "\<lambda>i. xs ! i \<noteq> ys ! i"
  have "first_difference xs ys \<le> length xs
    \<and> (\<forall>i<first_difference xs ys. xs ! i = ys ! i)"
  proof (cases "List.find ?P [0..<length xs]")
    case None
    then have "first_difference xs ys = length xs" by (simp add: first_difference_def)
    moreover have "\<forall>i<length xs. xs ! i = ys ! i" using None by (auto simp: find_None_iff)
    ultimately show ?thesis by simp
  next
    case (Some n)
    then obtain j where "j < length xs" "?P j" "n = j" "\<forall>i<j. \<not> ?P i"
      by (auto simp: find_Some_iff)
    then show ?thesis using Some by (simp add: first_difference_def)
  qed
  then show ?thesis using assms by (auto intro!: nth_equalityI)
qed

text \<open>
  C32. The protocol of the deltas is sound: whatever projection a host starts from and whatever
  events it folds in, the transition is always expressible as a delta, and a consumer that
  holds an equal snapshot and the base sequence gets a snapshot equal to the projection of the
  host; with any other sequence the delta is refused and nothing is applied. In particular no
  event changes a map entry, a row or a field that the delta does not carry.
\<close>

theorem delta_round_trip:
  assumes "snapshot_wf prev" and "snapshot_wf consumer" and "snapshot_eq consumer prev"
  shows "\<exists>delta consumer'.
     diff_after_apply prev (project_events prev events) events seq base_seq = Some delta
     \<and> sd_seq delta = seq
     \<and> apply_delta consumer delta base_seq = Inr consumer'
     \<and> snapshot_wf consumer' \<and> snapshot_eq consumer' (project_events prev events)
     \<and> (\<forall>held. held \<noteq> base_seq \<longrightarrow>
          apply_delta consumer delta held = Inl (OutOfOrder held base_seq))"
proof -
  let ?next = "project_events prev events"
  let ?n = "first_difference (sn_timeline prev) (sn_timeline ?next)"
  have len: "length (sn_timeline prev) \<le> length (sn_timeline ?next)"
    by (rule project_events_length)
  note shared = first_difference_shared [OF len]
  define delta where "delta = the (diff_after_apply prev ?next events seq base_seq)"
  have delta: "diff_after_apply prev ?next events seq base_seq = Some delta"
    using len by (simp add: delta_def diff_after_apply_def Let_def)
  define t where "t = touched_keys_of events ?next"
  define c' where "c' = scalars_apply_to (scalars_from_snapshot ?next)
    (consumer\<lparr>sn_timeline := sn_timeline ?next,
       sn_tool_calls := im_extend (sn_tool_calls consumer)
         (pick_entries (sn_tool_calls ?next) (tk_tool_calls t)),
       sn_runs := im_extend (sn_runs consumer) (pick_entries (sn_runs ?next) (tk_runs t)),
       sn_provider_incidents := im_extend (sn_provider_incidents consumer)
         (pick_entries (sn_provider_incidents ?next) (tk_provider_incidents t))\<rparr>)"
  have eq: "map_of (sn_tool_calls consumer) = map_of (sn_tool_calls prev)"
    "map_of (sn_runs consumer) = map_of (sn_runs prev)"
    "map_of (sn_provider_incidents consumer) = map_of (sn_provider_incidents prev)"
    "sn_timeline consumer = sn_timeline prev" "sn_timeline_offset consumer = sn_timeline_offset prev"
    using assms by (auto simp: snapshot_eq_def snapshot_wf_def im_eq_iff)
  have joined: "take ?n (sn_timeline prev) @ drop ?n (sn_timeline ?next) = sn_timeline ?next"
    using shared by (metis append_take_drop_id)
  have applied: "apply_delta consumer delta base_seq = Inr c'"
    using delta len shared eq(4,5)
    by (auto simp: joined diff_after_apply_def apply_delta_def Let_def c'_def t_def)
  have refused: "apply_delta consumer delta held = Inl (OutOfOrder held base_seq)"
    if "held \<noteq> base_seq" for held
    using that delta len by (auto simp: diff_after_apply_def apply_delta_def Let_def)
  have wf: "snapshot_wf c'"
    using assms(2) by (simp add: c'_def snapshot_wf_def scalars_apply_to_def)
  have f1: "map_of (sn_tool_calls ?next) k = map_of (sn_tool_calls prev) k"
    if "k \<notin> set (tk_tool_calls t)" for k
    using that project_events_tools [where k = k and es = events and s = prev] by (simp add: t_def touched_keys_sets)
  have f2: "map_of (sn_runs ?next) k = map_of (sn_runs prev) k"
    if "k \<notin> set (tk_runs t)" for k
    using that project_events_runs [where k = k and es = events and s = prev] by (simp add: t_def touched_keys_sets)
  have f3: "map_of (sn_provider_incidents ?next) k = map_of (sn_provider_incidents prev) k"
    if "k \<notin> set (tk_provider_incidents t)" for k
    using that project_events_incidents [where k = k and es = events and s = prev] by (simp add: t_def touched_keys_sets)
  have "map_of (sn_tool_calls c') = map_of (sn_tool_calls ?next)"
    using map_of_extend_pick [OF eq(1) f1 project_events_keys(1)]
    by (simp add: c'_def scalars_apply_to_def)
  moreover have "map_of (sn_runs c') = map_of (sn_runs ?next)"
    using map_of_extend_pick [OF eq(2) f2 project_events_keys(2)]
    by (simp add: c'_def scalars_apply_to_def)
  moreover have "map_of (sn_provider_incidents c') = map_of (sn_provider_incidents ?next)"
    using map_of_extend_pick [OF eq(3) f3 project_events_keys(3)]
    by (simp add: c'_def scalars_apply_to_def)
  ultimately have "snapshot_eq c' ?next"
    using wf assms(1) eq(5) snapshot_wf_events [OF assms(1), of events]
    by (simp add: snapshot_eq_def snapshot_wf_def im_eq_iff)
      (simp add: c'_def scalars_apply_to_def scalars_from_snapshot_def)
  then show ?thesis using delta applied refused wf
    by (intro exI [of _ delta] exI [of _ c']) (auto simp: diff_after_apply_def Let_def split: if_splits)
qed

definition example_start :: "unit agent_event list" where
  "example_start = [RunStarted ''run-1'', MessageChunk ''run-1'' Agent (Text ''reading''),
     ToolCalled ''run-1'' example_call]"

definition example_batch :: "unit agent_event list" where
  "example_batch = [ToolCallUpdate ''run-1'' ''call-1''
       (default_tool_call_patch\<lparr>pt_status := Some TCompleted\<rparr>),
     MessageChunk ''run-1'' Agent (Text ''done'')]"

theorem delta_round_trip_witness:
  "\<exists>delta consumer'.
     diff_after_apply (reduce_all example_start)
       (project_events (reduce_all example_start) example_batch) example_batch 8 7 = Some delta
     \<and> sd_seq delta = 8
     \<and> apply_delta (reduce_all example_start) delta 7 = Inr consumer'
     \<and> snapshot_wf consumer'
     \<and> snapshot_eq consumer' (project_events (reduce_all example_start) example_batch)
     \<and> (\<forall>held. held \<noteq> 7 \<longrightarrow>
          apply_delta (reduce_all example_start) delta held = Inl (OutOfOrder held 7))"
proof (rule delta_round_trip)
  show wf: "snapshot_wf (reduce_all example_start)" by (simp add: reduce_all_def)
  then show "snapshot_wf (reduce_all example_start)" .
  show "snapshot_eq (reduce_all example_start) (reduce_all example_start)"
    using wf by (simp add: snapshot_eq_def snapshot_wf_def im_eq_iff)
qed

end
