(* ===== verification/Conversation.thy ===== *)
theory Conversation
  imports TranscriptPages SnapshotDelta
begin

text \<open>
  What holds of a conversation as a whole: streamed messages, finished and failed runs, updates
  that are applied twice, and, as a state machine over events, sealing and the flag the host sets,
  the references between the timeline and the records.
\<close>

section \<open>Streamed messages\<close>

definition chunks_of :: "run_id \<Rightarrow> role \<Rightarrow> 'v agent_event list \<Rightarrow> content_block list" where
  "chunks_of run role events = List.map_filter
     (\<lambda>e. case e of MessageChunk r l delta \<Rightarrow> if r = run \<and> l = role then Some delta else None
          | _ \<Rightarrow> None) events"

fun visible_text :: "content_block \<Rightarrow> rstr" where
  "visible_text (Text text) = text"
| "visible_text block = []"

fun thinking_text :: "content_block \<Rightarrow> rstr" where
  "thinking_text (Thinking text) = text"
| "thinking_text block = []"

definition message_of :: "run_id \<Rightarrow> role \<Rightarrow> timeline_item \<Rightarrow> content_block list option" where
  "message_of run role item = (if is_message_of run role item then Some (mi_blocks item) else None)"

lemma message_of_simps [simp]:
  "message_of run role (map_phase f item) = message_of run role item"
  "message_of run role (set_presentation p item) = message_of run role item"
  "message_of run role (set_plan q item) = message_of run role item"
  "message_of run role (set_checklist c e item) = message_of run role item"
  "message_of run role (complete_row item) = message_of run role item"
  by (cases item; simp add: message_of_def)+

lemma message_of_map_blocks:
  "r \<noteq> run \<or> l \<noteq> role \<Longrightarrow> is_message_of r l item \<Longrightarrow>
     message_of run role (map_blocks f item) = message_of run role item"
  by (cases item) (auto simp: message_of_def)

lemma is_stream_target_message: "is_stream_target run role item \<Longrightarrow> is_message_of run role item"
  by (cases item) auto

lemma is_stream_target_iff:
  "is_stream_target run role item \<longleftrightarrow> row_id item = MessageRow run role True"
  by (cases item) auto

text \<open>The blocks of a message only change through its own chunks.\<close>

lemma other_chunk_messages:
  assumes "r \<noteq> run \<or> l \<noteq> role"
  shows "\<exists>added. map (message_of run role) (message_chunk r l delta items)
    = map (message_of run role) items @ added"
proof (cases "update_last (is_stream_target r l) (map_blocks (\<lambda>blocks. merge_block blocks delta)) items")
  case (Some items')
  then have "map (message_of run role) items' = map (message_of run role) items"
    by (rule update_last_map) (rule message_of_map_blocks [OF assms is_stream_target_message])
  then show ?thesis using Some by (simp add: message_chunk_def)
next
  case None
  show ?thesis
  proof (cases "items \<noteq> [] \<and> is_message_of r l (last items)")
    case True
    then have "message_of run role (map_blocks (\<lambda>blocks. merge_block blocks delta) (last items))
        = message_of run role (last items)"
      using message_of_map_blocks [OF assms] by blast
    then have "map (message_of run role) (butlast items
          @ [map_blocks (\<lambda>blocks. merge_block blocks delta) (last items)])
        = map (message_of run role) (butlast items @ [last items])"
      by simp
    then show ?thesis using None True by (simp add: message_chunk_def)
  next
    case False
    then show ?thesis using None by (auto simp: message_chunk_def)
  qed
qed

lemma complete_run_checklist_messages [simp]:
  "map (message_of run role) (sn_timeline (complete_run_checklist s r))
    = map (message_of run role) (sn_timeline s)"
  by (auto simp: complete_run_checklist_def Let_def split: option.split
    dest!: update_last_map [where g = "message_of run role"])

lemma project_event_messages:
  assumes "\<And>delta. e \<noteq> MessageChunk run role delta"
  shows "\<exists>added. map (message_of run role) (sn_timeline (project_event s e))
    = map (message_of run role) (sn_timeline s) @ added"
proof (cases e)
  case (MessageChunk r l delta)
  then show ?thesis using assms other_chunk_messages [of r run l role] by auto
next
  case (SpecialistPresented r p)
  then show ?thesis
    by (auto simp: present_specialist_def split: option.split
      dest!: update_last_map [where g = "message_of run role"])
next
  case (ProposedPlanUpdated r p)
  then show ?thesis
    by (auto simp: propose_plan_def split: option.split
      dest!: update_last_map [where g = "message_of run role"])
next
  case (ExecutionChecklistUpdated r c x)
  then show ?thesis
    by (auto simp: Let_def update_checklist_def split: option.split
      dest!: update_last_map [where g = "message_of run role"])
qed (auto simp: Let_def finish_run_def set_latest_agent_message_phase_def
  set_latest_unphased_agent_message_def split: option.split
  dest!: update_last_map [where g = "message_of run role"])

text \<open>The message at position \<open>n\<close> is the one chunks of the run and role go to.\<close>

definition streaming :: "nat \<Rightarrow> run_id \<Rightarrow> role \<Rightarrow> content_block list \<Rightarrow> timeline_item list \<Rightarrow> bool" where
  "streaming n run role blocks items \<longleftrightarrow>
     (\<exists>before phase after. items = before @ MessageItem run role blocks phase True # after
        \<and> length before = n \<and> (\<forall>item\<in>set after. \<not> is_stream_target run role item))"

lemma streaming_chunk:
  assumes "streaming n run role blocks items"
  shows "streaming n run role (merge_block blocks delta) (message_chunk run role delta items)"
proof -
  obtain before phase after where items: "items = before @ MessageItem run role blocks phase True # after"
    "length before = n" "\<forall>item\<in>set after. \<not> is_stream_target run role item"
    using assms by (auto simp: streaming_def)
  have "message_chunk run role delta items
      = before @ MessageItem run role (merge_block blocks delta) phase True # after"
    using update_last_intro [of "is_stream_target run role" "MessageItem run role blocks phase True"
        after "map_blocks (\<lambda>b. merge_block b delta)" before] items
    by (simp add: message_chunk_def)
  then show ?thesis using items by (auto simp: streaming_def)
qed

lemma streaming_other:
  assumes "streaming n run role blocks (sn_timeline s)"
    and "\<And>delta. e \<noteq> MessageChunk run role delta" and "e \<noteq> MessageStreamStarted run role"
  shows "streaming n run role blocks (sn_timeline (project_event s e))"
proof -
  let ?items = "sn_timeline s" and ?items' = "sn_timeline (project_event s e)"
  obtain before phase after where items: "?items = before @ MessageItem run role blocks phase True # after"
    "length before = n" "\<forall>item\<in>set after. \<not> is_stream_target run role item"
    using assms(1) by (auto simp: streaming_def)
  obtain added where added: "added \<in> new_rows s e" "rows ?items' = rows ?items @ added"
    using project_event_rows [of s e] by blast
  have no_target: "MessageRow run role True \<notin> set added"
    using added(1) assms(3) by (cases e) (auto split: if_splits)
  obtain more where more: "map (message_of run role) ?items' = map (message_of run role) ?items @ more"
    using project_event_messages [OF assms(2)] by blast
  have n: "n < length ?items" "n < length ?items'"
    using items(1,2) arg_cong [OF added(2), of length] by simp_all
  have "row_id (?items' ! n) = row_id (?items ! n)"
    using arg_cong [OF added(2), of "\<lambda>xs. xs ! n"] n by (simp add: nth_append)
  then have row: "row_id (?items' ! n) = MessageRow run role True"
    using items by (simp add: nth_append)
  moreover have "message_of run role (?items' ! n) = message_of run role (?items ! n)"
    using arg_cong [OF more, of "\<lambda>xs. xs ! n"] n by (simp add: nth_append)
  then have "message_of run role (?items' ! n) = Some blocks"
    using items by (simp add: nth_append message_of_def)
  ultimately obtain phase' where at_n: "?items' ! n = MessageItem run role blocks phase' True"
    by (cases "?items' ! n") (auto simp: message_of_def)
  have "rows (drop (Suc n) ?items') = rows after @ added"
    using arg_cong [OF added(2), of "drop (Suc n)"] items by (simp add: drop_map)
  then have "MessageRow run role True \<notin> set (rows (drop (Suc n) ?items'))"
    using no_target items(3) by (auto simp: is_stream_target_iff)
  then have "\<forall>item\<in>set (drop (Suc n) ?items'). \<not> is_stream_target run role item"
    unfolding is_stream_target_iff by (metis image_eqI list.set_map)
  then show ?thesis
    using id_take_nth_drop [OF n(2)] at_n n(2) unfolding streaming_def
    by (intro exI [of _ "take n ?items'"] exI [of _ phase'] exI [of _ "drop (Suc n) ?items'"]) simp
qed

lemma streaming_events:
  assumes "streaming n run role blocks (sn_timeline s)"
    and "MessageStreamStarted run role \<notin> set events"
  shows "streaming n run role (foldl merge_block blocks (chunks_of run role events))
    (sn_timeline (project_events s events))"
  using assms
proof (induction events arbitrary: s blocks)
  case Nil
  then show ?case by (simp add: chunks_of_def List.map_filter_simps)
next
  case (Cons e events)
  show ?case
  proof (cases "\<exists>delta. e = MessageChunk run role delta")
    case True
    then obtain delta where e: "e = MessageChunk run role delta" by blast
    have "streaming n run role (merge_block blocks delta) (sn_timeline (project_event s e))"
      using streaming_chunk [OF Cons.prems(1)] e by simp
    from Cons.IH [OF this] Cons.prems(2) e show ?thesis
      by (simp add: chunks_of_def List.map_filter_simps)
  next
    case False
    then have skip: "chunks_of run role (e # events) = chunks_of run role events"
      by (cases e) (auto simp: chunks_of_def List.map_filter_simps)
    have "streaming n run role blocks (sn_timeline (project_event s e))"
      using streaming_other [OF Cons.prems(1)] False Cons.prems(2) by auto
    from Cons.IH [OF this] Cons.prems(2) show ?thesis by (simp add: skip)
  qed
qed

lemma merge_block_texts:
  "concat (map visible_text (merge_block blocks delta)) = concat (map visible_text blocks) @ visible_text delta"
  "concat (map thinking_text (merge_block blocks delta)) = concat (map thinking_text blocks) @ thinking_text delta"
proof -
  have split: "concat (map f blocks) = concat (map f (butlast blocks)) @ f (last blocks)"
    if "blocks \<noteq> []" for f :: "content_block \<Rightarrow> rstr"
    using that by (induction blocks) auto
  show "concat (map visible_text (merge_block blocks delta)) = concat (map visible_text blocks) @ visible_text delta"
    using split [of visible_text]
    by (cases "last blocks"; cases delta) (auto simp: merge_block_def)
  show "concat (map thinking_text (merge_block blocks delta)) = concat (map thinking_text blocks) @ thinking_text delta"
    using split [of thinking_text]
    by (cases "last blocks"; cases delta) (auto simp: merge_block_def)
qed

lemma merged_texts:
  "concat (map visible_text (foldl merge_block blocks deltas))
     = concat (map visible_text blocks) @ concat (map visible_text deltas)"
  "concat (map thinking_text (foldl merge_block blocks deltas))
     = concat (map thinking_text blocks) @ concat (map thinking_text deltas)"
  by (induction deltas arbitrary: blocks) (simp_all add: merge_block_texts)



section \<open>Finished runs\<close>

lemma settle_calls_map:
  "map_of (foldl (\<lambda>calls i. im_adjust i (settle_call st) calls) m ids) k
     = (if k \<in> set ids then map_option (settle_call st) (map_of m k) else map_of m k)"
proof (induction ids arbitrary: m)
  case (Cons i ids)
  have "settle_call st (settle_call st call) = settle_call st call" for call :: "'a tool_call"
    by (simp add: settle_call_def)
  then show ?case by (auto simp: Cons map_of_im_adjust option.map_comp comp_def)
qed simp

lemma settled_status_settled: "settled_status st = Some t \<Longrightarrow> tool_settled t"
  by (cases st) (auto simp: tool_settled_def)

lemma settled_status_iff: "settled_status st = None \<longleftrightarrow> run_active st"
  by (cases st) (simp_all add: run_active_def)

text \<open>
  A run that finishes leaves nothing that looks live: its view has the outcome, its status
  and the latest usage, no permission gate is pending, and every tool call whose row belongs
  to the run is settled: with the status of the run if it was still live, unchanged
  otherwise. The calls of other runs are not touched.
\<close>

lemma finished_run_settles_tools:
  assumes "\<not> run_active (ro_status outcome)"
  shows "\<exists>st view. settled_status (ro_status outcome) = Some st \<and> tool_settled st
     \<and> map_of (sn_runs (project_event s (RunFinished run outcome))) run = Some view
     \<and> rv_status view = ro_status outcome \<and> rv_outcome view = Some outcome
     \<and> sn_pending_permission (project_event s (RunFinished run outcome)) = None
     \<and> rows (sn_timeline (project_event s (RunFinished run outcome))) = rows (sn_timeline s)
     \<and> (\<forall>i. map_of (sn_tool_calls (project_event s (RunFinished run outcome))) i =
          (if ToolCallItem i (Some run) \<in> set (sn_timeline s)
           then map_option (settle_call st) (map_of (sn_tool_calls s) i)
           else map_of (sn_tool_calls s) i))
     \<and> (\<forall>call :: 'v tool_call. tool_settled (tc_status (settle_call st call)))"
proof -
  obtain st where st: "settled_status (ro_status outcome) = Some st"
    using assms settled_status_iff by fastforce
  have row: "ToolCallItem i (Some run) \<in> set (set_latest_unphased_agent_message items run phase)
      \<longleftrightarrow> ToolCallItem i (Some run) \<in> set items" for i items phase
    unfolding set_tool_row_items [symmetric] set_tool_rows by simp
  have "\<forall>i. map_of (sn_tool_calls (project_event s (RunFinished run outcome))) i =
      (if ToolCallItem i (Some run) \<in> set (sn_timeline s)
       then map_option (settle_call st) (map_of (sn_tool_calls s) i)
       else map_of (sn_tool_calls s) i)"
    using st by (simp add: finish_run_def settle_run_tool_calls_def settle_calls_map
      set_tool_row_items row)
  moreover have "tool_settled (tc_status (settle_call st call))" for call :: "'v tool_call"
    using settled_status_settled [OF st]
    by (cases "tc_status call") (simp_all add: settle_call_def tool_settled_def)
  ultimately show ?thesis
    using st settled_status_settled [OF st]
    by (simp add: finish_run_def map_of_im_entry)
qed

definition example_outcome :: run_outcome where
  "example_outcome = \<lparr>ro_status = RDone, ro_stop_reason = None, ro_error = None,
     ro_failure_kind = None, ro_usage = None, ro_execution = None\<rparr>"

lemma finished_run_settles_tools_witness:
  "\<exists>call. map_of (sn_tool_calls (project_event (reduce_all example_start)
     (RunFinished ''run-1'' example_outcome))) ''call-1'' = Some call \<and> tc_status call = TCompleted"
proof -
  let ?s = "reduce_all example_start"
  have "\<not> run_active (ro_status example_outcome)"
    by (simp add: example_outcome_def run_active_def)
  from finished_run_settles_tools [OF this, of ?s "''run-1''"]
  have "map_of (sn_tool_calls (project_event ?s (RunFinished ''run-1'' example_outcome))) ''call-1'' =
      (if ToolCallItem ''call-1'' (Some ''run-1'') \<in> set (sn_timeline ?s)
       then map_option (settle_call TCompleted) (map_of (sn_tool_calls ?s) ''call-1'')
       else map_of (sn_tool_calls ?s) ''call-1'')"
    by (auto simp: example_outcome_def)
  moreover have "ToolCallItem ''call-1'' (Some ''run-1'') \<in> set (sn_timeline ?s)"
    "map_of (sn_tool_calls ?s) ''call-1'' = Some example_call"
    by (simp_all add: reduce_all_def example_start_def snapshot_new_def example_call_def Let_def
      im_contains_def)
  ultimately show ?thesis by (simp add: settle_call_def example_call_def)
qed

text \<open>
  A run that fails by an error event does look live afterwards: the event marks the run as
  failed but settles no tool call, so a call of the run that was in progress stays in progress
  under a failed run.
\<close>

lemma errored_run_keeps_live_tools:
  assumes "map_of (sn_runs s) run = Some view"
  shows "map_of (sn_runs (project_event s (ErrorRaised code message (Some run)))) run
       = Some (view\<lparr>rv_status := RFailed\<rparr>)
     \<and> sn_tool_calls (project_event s (ErrorRaised code message (Some run))) = sn_tool_calls s
     \<and> sn_pending_permission (project_event s (ErrorRaised code message (Some run)))
       = sn_pending_permission s"
  using assms by (simp add: map_of_im_adjust)

section \<open>Updates are not idempotent\<close>

text \<open>
  Folding an update in twice is not the same as folding it in once: what the patch appends is
  appended again.
\<close>

lemma update_not_idempotent:
  assumes "map_of (sn_tool_calls s) i = Some call" and "pt_replace_content patch = None"
    and "pt_append_content patch \<noteq> []"
  shows "project_event (project_event s (ToolCallUpdate run i patch)) (ToolCallUpdate run i patch)
    \<noteq> project_event s (ToolCallUpdate run i patch)"
proof
  let ?s = "project_event s (ToolCallUpdate run i patch)"
  assume "project_event ?s (ToolCallUpdate run i patch) = ?s"
  then have "map_of (sn_tool_calls (project_event ?s (ToolCallUpdate run i patch))) i
      = map_of (sn_tool_calls ?s) i" by simp
  then have "tc_content (apply_patch patch (apply_patch patch call)) = tc_content (apply_patch patch call)"
    using assms(1) by (simp add: map_of_im_adjust)
  then show False using assms(2,3) by (simp add: apply_patch_def Let_def or_keep_def)
qed

section \<open>The conversation as a state machine\<close>

fun tool_key :: "row_key \<Rightarrow> tool_call_id option" where
  "tool_key (ToolRow i run) = Some i"
| "tool_key key = None"

fun incident_key :: "row_key \<Rightarrow> rstr option" where
  "incident_key (IncidentRow run i) = Some i"
| "incident_key key = None"

definition tool_keys :: "row_key list \<Rightarrow> tool_call_id list" where
  "tool_keys ks = List.map_filter tool_key ks"

definition incident_keys :: "row_key list \<Rightarrow> rstr list" where
  "incident_keys ks = List.map_filter incident_key ks"

lemma keys_simps [simp]:
  "tool_keys [] = []" "incident_keys [] = []"
  "tool_keys (k # ks) = (case tool_key k of None \<Rightarrow> tool_keys ks | Some i \<Rightarrow> i # tool_keys ks)"
  "incident_keys (k # ks) = (case incident_key k of None \<Rightarrow> incident_keys ks | Some i \<Rightarrow> i # incident_keys ks)"
  by (simp_all add: tool_keys_def incident_keys_def List.map_filter_simps split: option.split)

lemma keys_append [simp]:
  "tool_keys (ks @ ls) = tool_keys ks @ tool_keys ls"
  "incident_keys (ks @ ls) = incident_keys ks @ incident_keys ls"
  by (induction ks) (auto split: option.split)

lemma tool_key_iff: "tool_key k = Some i \<longleftrightarrow> (\<exists>run. k = ToolRow i run)"
  by (cases k) auto

lemma incident_key_iff: "incident_key k = Some i \<longleftrightarrow> (\<exists>run. k = IncidentRow run i)"
  by (cases k) auto

lemma set_keys:
  "i \<in> set (tool_keys (rows items)) \<longleftrightarrow> timeline_references_tool items i"
  "i \<in> set (incident_keys (rows items)) \<longleftrightarrow> timeline_references_incident items i"
proof -
  have "tool_key (row_id item) = Some i \<longleftrightarrow> (\<exists>r. item = ToolCallItem i r)" for item
    by (cases item) auto
  then have tool: "timeline_references_tool (item # items) i \<longleftrightarrow>
      tool_key (row_id item) = Some i \<or> timeline_references_tool items i" for item items
    by (auto simp: references_iff)
  have "incident_key (row_id item) = Some i \<longleftrightarrow> (\<exists>r. item = IncidentItem r i)" for item
    by (cases item) auto
  then have incident: "timeline_references_incident (item # items) i \<longleftrightarrow>
      incident_key (row_id item) = Some i \<or> timeline_references_incident items i" for item items
    by (auto simp: references_iff)
  show "i \<in> set (tool_keys (rows items)) \<longleftrightarrow> timeline_references_tool items i"
  proof (induction items)
    case (Cons item items)
    then show ?case by (cases "tool_key (row_id item)") (auto simp: tool)
  qed (simp add: references_iff)
  show "i \<in> set (incident_keys (rows items)) \<longleftrightarrow> timeline_references_incident items i"
  proof (induction items)
    case (Cons item items)
    then show ?case by (cases "incident_key (row_id item)") (auto simp: incident)
  qed (simp add: references_iff)
qed

definition fan_out_exact :: "fan_out \<Rightarrow> bool" where
  "fan_out_exact fo \<longleftrightarrow> fo_total fo = length (fo_agents fo)
     \<and> fo_done fo = count_status FDone (fo_agents fo)
     \<and> fo_running fo = count_status FRunning (fo_agents fo)
     \<and> distinct (map fa_id (fo_agents fo))"

text \<open>Records are stored under their own id.\<close>

definition keyed :: "'v snapshot \<Rightarrow> bool" where
  "keyed s \<longleftrightarrow> (\<forall>i call. map_of (sn_tool_calls s) i = Some call \<longrightarrow> tc_id call = i)
     \<and> (\<forall>i x. map_of (sn_provider_incidents s) i = Some x \<longrightarrow> pi_id x = i)
     \<and> (\<forall>i view. map_of (sn_runs s) i = Some view \<longrightarrow> rv_id view = i)"

definition conversation_ok :: "'v snapshot \<Rightarrow> bool" where
  "conversation_ok s \<longleftrightarrow>
     snapshot_wf s \<and> keyed s
     \<and> distinct (tool_keys (rows (sn_timeline s)))
     \<and> set (tool_keys (rows (sn_timeline s))) = fst ` set (sn_tool_calls s)
     \<and> distinct (incident_keys (rows (sn_timeline s)))
     \<and> set (incident_keys (rows (sn_timeline s))) = fst ` set (sn_provider_incidents s)
     \<and> (\<forall>fo. sn_fan_out s = Some fo \<longrightarrow> fan_out_exact fo)
     \<and> (\<forall>c. sn_model_context_checkpoint s = Some c \<longrightarrow>
          mc_timeline_index c \<le> sn_timeline_offset s + length (sn_timeline s))"

text \<open>
  What the owner of a snapshot does with it: an event of the provider is folded in, the host sets
  or clears the flag of a submission under way, and the compacted prefix is sealed into pages.
\<close>

inductive session_step :: "'v wire_sizes \<Rightarrow> 'v snapshot \<Rightarrow> 'v snapshot \<Rightarrow> bool"
  for w :: "'v wire_sizes" where
  folded: "session_step w s (project_event s e)"
| submitting: "session_step w s (s\<lparr>sn_starting := b\<rparr>)"
| sealed: "seal_transcript_pages w s = (s', pages) \<Longrightarrow> session_step w s s'"

lemma project_event_tool_keys:
  "fst ` set (sn_tool_calls (project_event s e)) = fst ` set (sn_tool_calls s)
     \<union> (case e of ToolCalled run call \<Rightarrow> {tc_id call} | _ \<Rightarrow> {})"
  "fst ` set (sn_provider_incidents (project_event s e)) = fst ` set (sn_provider_incidents s)
     \<union> (case e of ProviderIncidentUpdated run x \<Rightarrow> {pi_id x} | _ \<Rightarrow> {})"
  by (cases e; simp add: Let_def finish_run_def settle_run_tool_calls_def keys_settled
    split: option.split)+

lemma im_contains_iff: "im_contains m k \<longleftrightarrow> k \<in> fst ` set m"
  by (auto simp: im_contains_def map_of_eq_None_iff dest: map_of_SomeD weak_map_of_SomeI)

lemma new_rows_keys:
  assumes "added \<in> new_rows s e"
  shows "tool_keys added = (case e of ToolCalled run call \<Rightarrow>
      if im_contains (sn_tool_calls s) (tc_id call) then [] else [tc_id call] | _ \<Rightarrow> [])"
    and "incident_keys added = (case e of ProviderIncidentUpdated run x \<Rightarrow>
      if im_contains (sn_provider_incidents s) (pi_id x) then [] else [pi_id x] | _ \<Rightarrow> [])"
  using assms by (cases e; auto)+

lemma conversation_rows_event:
  assumes "conversation_ok s"
  shows "distinct (tool_keys (rows (sn_timeline (project_event s e))))
    \<and> set (tool_keys (rows (sn_timeline (project_event s e))))
        = fst ` set (sn_tool_calls (project_event s e))
    \<and> distinct (incident_keys (rows (sn_timeline (project_event s e))))
    \<and> set (incident_keys (rows (sn_timeline (project_event s e))))
        = fst ` set (sn_provider_incidents (project_event s e))"
proof -
  obtain added where added: "added \<in> new_rows s e"
      "rows (sn_timeline (project_event s e)) = rows (sn_timeline s) @ added"
    using project_event_rows by blast
  have ok: "distinct (tool_keys (rows (sn_timeline s)))"
    "set (tool_keys (rows (sn_timeline s))) = fst ` set (sn_tool_calls s)"
    "distinct (incident_keys (rows (sn_timeline s)))"
    "set (incident_keys (rows (sn_timeline s))) = fst ` set (sn_provider_incidents s)"
    using assms by (simp_all add: conversation_ok_def)
  show ?thesis
    unfolding added(2) keys_append distinct_append set_append project_event_tool_keys
      new_rows_keys [OF added(1)]
    using ok by (cases e) (simp_all add: im_contains_iff insert_absorb del: image_iff)
qed

lemma fan_out_progress_exact:
  assumes "distinct (map fa_id (fo_agents fo))"
  shows "fan_out_exact (fan_out_progress title agent fo)"
proof (cases "update_first (\<lambda>a. fa_id a = fa_id agent) (merge_fan_out_agent agent) (fo_agents fo)")
  case None
  then show ?thesis
    using assms None unfolding update_first_None_iff
    by (auto simp: fan_out_exact_def fan_out_progress_def Let_def None)
next
  case (Some agents')
  have "map fa_id agents' = map fa_id (fo_agents fo)"
    using Some by (rule update_first_SomeE) (simp add: merge_fan_out_agent_def)
  then show ?thesis
    using assms Some by (simp add: fan_out_exact_def fan_out_progress_def Let_def)
qed

lemma conversation_fan_out_event:
  assumes "conversation_ok s" and "sn_fan_out (project_event s e) = Some fo"
  shows "fan_out_exact fo"
proof (cases e)
  case (FanOutProgress run parent agent)
  have "distinct (map fa_id (fo_agents (or_keep (sn_fan_out s) default_fan_out)))"
    using assms(1)
    by (auto simp: conversation_ok_def fan_out_exact_def or_keep_def default_fan_out_def split: option.split)
  then show ?thesis using assms(2) FanOutProgress fan_out_progress_exact by (auto simp: Let_def)
qed (use assms in \<open>auto simp: conversation_ok_def Let_def finish_run_def split: option.splits if_splits\<close>)

lemma conversation_checkpoint_event:
  assumes "conversation_ok s" and "sn_model_context_checkpoint (project_event s e) = Some c"
  shows "mc_timeline_index c \<le> sn_timeline_offset s + length (sn_timeline (project_event s e))"
proof -
  have len: "length (sn_timeline s) \<le> length (sn_timeline (project_event s e))"
    using project_events_length [of s "[e]"] by simp
  show ?thesis
  proof (cases "sn_model_context_checkpoint s = Some c")
    case True
    then show ?thesis using assms(1) len by (auto simp: conversation_ok_def)
  next
    case False
    then show ?thesis
      using assms(2) by (cases e) (auto simp: Let_def finish_run_def split: option.splits if_splits)
  qed
qed

lemma patched_id [simp]: "tc_id (apply_patch patch call) = tc_id call" "tc_id (settle_call st call) = tc_id call"
  by (simp_all add: apply_patch_def settle_call_def Let_def)

lemma keyed_event: "keyed s \<Longrightarrow> keyed (project_event s e)"
  by (cases e) (auto simp: keyed_def Let_def finish_run_def settle_run_tool_calls_def settle_calls_map
    map_of_im_adjust map_of_im_entry new_run_view_def split: option.splits if_splits)

lemma conversation_ok_event: "conversation_ok s \<Longrightarrow> conversation_ok (project_event s e)"
  using conversation_rows_event [of s e] conversation_fan_out_event [of s e]
    conversation_checkpoint_event [of s e] keyed_event [of s e]
  by (simp add: conversation_ok_def [of "project_event s e"]) (simp add: conversation_ok_def)

lemma move_record_wf: "snapshot_wf (fst sp) \<Longrightarrow> snapshot_wf (fst (move_record sp item))"
  by (cases "(sp, item)" rule: move_record.cases) (auto simp: snapshot_wf_def split: option.split)

lemma move_items_wf: "snapshot_wf (fst sp) \<Longrightarrow> snapshot_wf (fst (foldl move_record sp items))"
  by (induction items arbitrary: sp) (simp_all add: move_record_wf)

lemma move_records_wf: "snapshot_wf s \<Longrightarrow> snapshot_wf (fst (move_records s pages))"
proof (induction pages arbitrary: s)
  case (Cons page pages)
  then show ?case
    using move_items_wf [of "(s, page)" "pg_items page"]
    by (auto split: prod.split) (metis fst_conv)
qed simp

lemma conversation_ok_seal:
  assumes "conversation_ok s" and "seal_transcript_pages w s = (s', pages)"
  shows "conversation_ok s'"
  using assms(2)
proof (cases rule: seal_cases)
  case 1
  then show ?thesis using assms(1) by simp
next
  case 2
  let ?n = "seal_count s"
  let ?sealed = "take ?n (sn_timeline s)" and ?tail = "drop ?n (sn_timeline s)"
  let ?cut = "cut_pages w (cut_snapshot s) (sn_timeline_offset s) ?sealed"
  have frame: "same_but_records (cut_snapshot s) s'"
    using move_records_frame [of "cut_snapshot s" ?cut] 2(3) by simp
  note d = same_but_recordsD [OF frame]
  have pages: "page_rows ?cut = ?sealed" using cut_pages_ok by blast
  note stores = move_records_stores [OF 2(3) cut_pages_bare, unfolded pages]
  have split: "rows (sn_timeline s) = rows ?sealed @ rows ?tail"
    by (metis append_take_drop_id map_append)
  have cut: "sn_timeline (cut_snapshot s) = ?tail" "sn_tool_calls (cut_snapshot s) = sn_tool_calls s"
    "sn_provider_incidents (cut_snapshot s) = sn_provider_incidents s"
    by (simp_all add: cut_snapshot_def)
  have keys: "fst ` set m = dom (map_of m)" for m :: "('k \<times> 'r) list"
    by (rule dom_map_of_conv_image_fst [symmetric])
  have tools: "fst ` set (sn_tool_calls s') = set (tool_keys (rows ?tail))"
    using assms(1) stores unfolding keys conversation_ok_def split cut
    by (auto simp: tool_gone_def set_keys [symmetric] split: if_splits)
  have incidents: "fst ` set (sn_provider_incidents s') = set (incident_keys (rows ?tail))"
    using assms(1) stores unfolding keys conversation_ok_def split cut
    by (auto simp: incident_gone_def set_keys [symmetric] split: if_splits)
  have wf: "snapshot_wf s'"
    using move_records_wf [of "cut_snapshot s" ?cut] assms(1) 2(3)
    by (simp add: conversation_ok_def cut_snapshot_def snapshot_wf_def)
  have keyed: "keyed s'"
    using assms(1) stores d(6) unfolding conversation_ok_def keyed_def cut
    by (simp add: cut_snapshot_def)
  have len: "sn_timeline_offset s' + length (sn_timeline s')
      = sn_timeline_offset s + length (sn_timeline s)"
    using seal_count_length [of s] d(1,2) by (simp add: cut_snapshot_def)
  have same: "sn_fan_out s' = sn_fan_out s"
    "sn_model_context_checkpoint s' = sn_model_context_checkpoint s" "sn_timeline s' = ?tail"
    using d by (simp_all add: cut_snapshot_def)
  have ok: "distinct (tool_keys (rows ?tail))" "distinct (incident_keys (rows ?tail))"
    "\<forall>fo. sn_fan_out s = Some fo \<longrightarrow> fan_out_exact fo"
    "\<forall>c. sn_model_context_checkpoint s = Some c \<longrightarrow>
       mc_timeline_index c \<le> sn_timeline_offset s + length (sn_timeline s)"
    using assms(1) unfolding conversation_ok_def split keys_append distinct_append by blast+
  show ?thesis
    unfolding conversation_ok_def len same(1,2) using ok wf keyed tools incidents unfolding same(3) by blast
qed

interpretation conversations: state_machine "session_step w" conversation_ok for w
proof
  fix s t :: "'a snapshot"
  assume "session_step w s t" and ok: "conversation_ok s"
  then show "conversation_ok t"
    by (cases rule: session_step.cases)
      (auto simp: conversation_ok_event conversation_ok_seal, simp add: conversation_ok_def snapshot_wf_def keyed_def)
qed


lemma conversation_ok_new: "conversation_ok snapshot_new"
  by (simp add: conversation_ok_def keyed_def snapshot_new_def snapshot_wf_def)

lemma map_filter_one:
  assumes "distinct (List.map_filter f xs)" and "n < length xs" and "m < length xs"
    and "f (xs ! n) = Some i" and "f (xs ! m) = Some i"
  shows "n = m"
  using assms
proof (induction xs arbitrary: n m)
  case (Cons x xs)
  have there: "i \<in> set (List.map_filter f xs)" if "k < length xs" "f (xs ! k) = Some i" for k
    using that by (force simp: map_filter_def)
  show ?case
  proof (cases n)
    case 0
    then show ?thesis
      using Cons.prems there by (cases m) (auto simp: List.map_filter_simps)
  next
    case (Suc n')
    then show ?thesis
      using Cons.prems Cons.IH [of n'] there [of n']
      by (cases m) (auto simp: List.map_filter_simps split: option.splits)
  qed
qed simp

text \<open>A row of its own: exactly one position of the timeline has it.\<close>

lemma one_row:
  assumes "distinct (List.map_filter key (rows items))"
  shows "i \<in> set (List.map_filter key (rows items)) \<longleftrightarrow>
    (\<exists>!n. n < length items \<and> key (row_id (items ! n)) = Some i)"
proof
  assume "i \<in> set (List.map_filter key (rows items))"
  then obtain item where "item \<in> set items" "key (row_id item) = Some i"
    by (auto simp: map_filter_def)
  then obtain n where "n < length items" "key (row_id (items ! n)) = Some i"
    by (auto simp: in_set_conv_nth)
  then show "\<exists>!n. n < length items \<and> key (row_id (items ! n)) = Some i"
    using map_filter_one [OF assms] by (intro ex1I [of _ n]) auto
next
  assume "\<exists>!n. n < length items \<and> key (row_id (items ! n)) = Some i"
  then obtain n where n: "n < length items" "key (row_id (items ! n)) = Some i" by blast
  then have "row_id (items ! n) \<in> set (rows items)" by simp
  with n(2) show "i \<in> set (List.map_filter key (rows items))"
    by (force simp: map_filter_def)
qed

text \<open>
  C33. A conversation stays consistent. Whatever events arrive in whatever order, however often a
  submission is announced and the compacted prefix is sealed into pages: a tool call (a provider
  incident) is in the snapshot exactly if one row of the timeline shows it, and there is exactly
  one such row; every record is stored under its own id; the fan-out counters are those of its
  agents, no agent twice; and the compaction boundary lies within the transcript.
\<close>

theorem conversation_consistent:
  assumes "(session_step w)\<^sup>*\<^sup>* snapshot_new s"
  shows "(\<forall>i. (\<exists>call. map_of (sn_tool_calls s) i = Some call) \<longleftrightarrow>
      (\<exists>!n. n < length (sn_timeline s) \<and> (\<exists>run. sn_timeline s ! n = ToolCallItem i run)))
    \<and> (\<forall>i. (\<exists>x. map_of (sn_provider_incidents s) i = Some x) \<longleftrightarrow>
      (\<exists>!n. n < length (sn_timeline s) \<and> (\<exists>run. sn_timeline s ! n = IncidentItem run i)))
    \<and> (\<forall>i call. map_of (sn_tool_calls s) i = Some call \<longrightarrow> tc_id call = i)
    \<and> (\<forall>i x. map_of (sn_provider_incidents s) i = Some x \<longrightarrow> pi_id x = i)
    \<and> (\<forall>i view. map_of (sn_runs s) i = Some view \<longrightarrow> rv_id view = i)
    \<and> (\<forall>fo. sn_fan_out s = Some fo \<longrightarrow> fo_total fo = length (fo_agents fo)
         \<and> fo_done fo = count_status FDone (fo_agents fo)
         \<and> fo_running fo = count_status FRunning (fo_agents fo)
         \<and> distinct (map fa_id (fo_agents fo)))
    \<and> (\<forall>c. sn_model_context_checkpoint s = Some c \<longrightarrow>
         mc_timeline_index c \<le> sn_timeline_offset s + length (sn_timeline s))"
proof -
  have ok: "conversation_ok s"
    by (rule conversations.inv_reachable [OF assms conversation_ok_new])
  have tool: "tool_key (row_id item) = Some i \<longleftrightarrow> (\<exists>run. item = ToolCallItem i run)" for item i
    by (cases item) auto
  have incident: "incident_key (row_id item) = Some i \<longleftrightarrow> (\<exists>run. item = IncidentItem run i)" for item i
    by (cases item) auto
  have dom: "(\<exists>r. map_of m i = Some r) \<longleftrightarrow> i \<in> fst ` set m" for m :: "('k \<times> 'r) list" and i
    by (metis map_of_eq_None_iff not_Some_eq)
  have tools: "(\<exists>call. map_of (sn_tool_calls s) i = Some call) \<longleftrightarrow>
      (\<exists>!n. n < length (sn_timeline s) \<and> (\<exists>run. sn_timeline s ! n = ToolCallItem i run))" for i
    using one_row [of tool_key "sn_timeline s" i] ok
    unfolding dom tool conversation_ok_def tool_keys_def by blast
  have incidents: "(\<exists>x. map_of (sn_provider_incidents s) i = Some x) \<longleftrightarrow>
      (\<exists>!n. n < length (sn_timeline s) \<and> (\<exists>run. sn_timeline s ! n = IncidentItem run i))" for i
    using one_row [of incident_key "sn_timeline s" i] ok
    unfolding dom incident conversation_ok_def incident_keys_def by blast
  show ?thesis
    by (intro conjI allI tools incidents)
      (use ok in \<open>simp_all add: conversation_ok_def keyed_def fan_out_exact_def\<close>)
qed

lemma events_reachable: "(session_step w)\<^sup>*\<^sup>* s (project_events s es)"
proof (induction es arbitrary: s)
  case (Cons e es)
  have "session_step w s (project_event s e)" by (rule folded)
  then show ?case using Cons [of "project_event s e"] by (simp add: converse_rtranclp_into_rtranclp)
qed simp

theorem conversation_consistent_witness:
  "\<exists>!n. n < length (sn_timeline (reduce_all (example_start @ example_batch)))
     \<and> (\<exists>run. sn_timeline (reduce_all (example_start @ example_batch)) ! n = ToolCallItem ''call-1'' run)"
proof -
  let ?s = "reduce_all (example_start @ example_batch)"
  have reach: "(session_step example_wire)\<^sup>*\<^sup>* snapshot_new ?s"
    unfolding reduce_all_def by (rule events_reachable)
  have "\<exists>call. map_of (sn_tool_calls ?s) ''call-1'' = Some call"
    by (simp add: reduce_all_def example_start_def example_batch_def snapshot_new_def example_call_def
      Let_def im_contains_def map_of_im_adjust)
  with conversation_consistent [OF reach] show ?thesis by blast
qed

end
