(* ===== verification/Spec2Isabelle.thy ===== *)
theory Spec2Isabelle
  imports Budget Contract Control Ledger Admission FanOut RepoPlan RepoRunPanic ResearchTree CodeHost
    Conversation
begin

text \<open>
  \<^bold>\<open>Verification of the core of clark-code.\<close>

  clark-code runs coding agents. Its orchestration core, \<open>crates/agent-orchestration\<close>, decides
  when work is given to several agents, hands out agent slots and token budget, records what
  happened in an event journal, and accepts results only with evidence. The parts and how they
  interact:

  \<^item> The shared budget (\<open>budget.rs\<close>) is charged by every agent; a reservation is a handle that is
    settled by the usage or dropped. It is used by the fan-out coordinator and by
    multi-repository runs.
  \<^item> The admission policy (\<open>policy.rs\<close>) decides whether a request may fan out. The control plane
    (\<open>control.rs\<close>) owns the agents, their mailboxes and reports. The coordinator (\<open>runtime.rs\<close>)
    joins them: admission, then slots, then one harness attempt per task, then review or rework.
  \<^item> The execution ledger (\<open>execution.rs\<close>, \<open>execution/reducer.rs\<close>) is the event-sourced record of
    one execution with its attempts, tools and receipts.
  \<^item> A multi-repository plan (\<open>multi_repo.rs\<close>) assigns tasks and path leases; its coordinator
    (\<open>multi_repo/runtime.rs\<close>) runs readers, writer batches, review and integration on the budget.

  Three further crates are modelled. \<open>crates/research-tree\<close> schedules research work as a
  graph whose state is the replay of its journal. \<open>crates/code-host\<close> is the headless host of a
  remote worker: it answers requests, runs plugins at most once per request id with durable
  receipts, and keeps a numbered trajectory. \<open>crates/agent-core\<close> holds the events every provider
  emits and their projection into the snapshot that clients render; a host publishes the
  projection as deltas and seals the compacted prefix of its timeline into pages.

  \<^bold>\<open>Theories.\<close>

  \<^item> \<open>Prelude\<close>: machine integers, results and early returns, strings. \<open>OrdMap\<close>: \<open>BTreeMap\<close> as an
    ordered association list, with the interface locale \<open>finite_map\<close>. \<open>Float64\<close>: binary64
    arithmetic as exact rationals rounded once. \<open>Machines\<close>: the contracts shared by stateful
    components, as locales: \<open>state_machine\<close>, \<open>event_sourced\<close>, \<open>held_resources\<close>.
  \<^item> \<open>Budget\<close> (\<open>budget.rs\<close>): the record \<open>shared_budget\<close> with one definition per method, and the
    step relation \<open>budget_step\<close> of a budget with its live handles. The lemmas are an accounting
    invariant, the exactness of the reserved counter and the truth of the \<open>exhausted\<close> flag.
  \<^item> \<open>Contract\<close> (\<open>contract.rs\<close>): identifiers, agent paths, reports. \<open>Control\<close> (\<open>control.rs\<close>):
    \<open>control_plane\<close>, one definition per method, \<open>control_step\<close>, slot accounting and the report
    protocol. It interprets \<open>held_resources\<close> (spawn reservations) and \<open>state_machine\<close>.
  \<^item> \<open>Ledger\<close> (\<open>execution.rs\<close>, \<open>execution/reducer.rs\<close>): the reducer \<open>apply_event\<close>, one definition
    per case, and the ledger's methods. It interprets \<open>event_sourced\<close>: replay gives the live state.
  \<^item> \<open>Admission\<close> (\<open>policy.rs\<close>): \<open>evaluate\<close> in the order of its checks. \<open>FanOut\<close> (\<open>runtime.rs\<close>,
    \<open>harness.rs\<close>): the coordinator, an attempt split at its \<open>await\<close>, and \<open>fan_step\<close>, which
    interleaves everything. What a stretch of code does between two awaits is one step, although
    it takes several locks.
  \<^item> \<open>RepoPlan\<close> (\<open>multi_repo.rs\<close>, data of \<open>multi_repo/contract.rs\<close>): validation, topological
    layers, decomposition, packages, result digests. \<open>RepoRun\<close> (\<open>multi_repo/runtime.rs\<close>,
    \<open>runtime/run.rs\<close>, \<open>runtime/validation.rs\<close>): the whole of \<open>MultiRepoCoordinator::run\<close>.
    \<open>RepoRunInv\<close>: the locale \<open>run_invariant\<close> and its interpretations, what every run keeps.
    \<open>RepoRunProps\<close>, \<open>RepoRunPanic\<close>: what a passed run has proved, settlement of the
    budget, termination, and absence of panics.
  \<^item> \<open>ResearchTree\<close> (\<open>research-tree/src\<close>): \<open>tree_apply\<close> with one definition per event, selection,
    replay and the two loops of \<open>context\<close>. Its lemmas type the nodes, keep the work order acyclic
    and show the journal slots reserved for active work; it interprets \<open>event_sourced\<close>.
  \<^item> \<open>HostProtocol\<close> (\<open>code-host/src/protocol.rs\<close>, \<open>contract.rs\<close>): requests, responses, identifiers,
    the project registry, session recipes. \<open>Receipts\<close> (\<open>idempotency.rs\<close>): the receipt files and the
    cached usage; every file system answer of a call is an argument, so a call may fail anywhere
    and tear a file. \<open>CodeHost\<close> (\<open>plugin.rs\<close>, \<open>host.rs\<close>, \<open>trajectory.rs\<close>): an invocation as steps between
    its \<open>await\<close>s, and \<open>host_step\<close>, which interleaves invocations, cancellation, shutdown,
    the registration of plugins and restart. Both interpret \<open>state_machine\<close> with their invariants.
  \<^item> \<open>IndexMap\<close>: insertion-ordered maps. \<open>AgentDomain\<close> (\<open>agent-core/src/domain.rs\<close>,
    \<open>recovery.rs\<close>, \<open>access_failure.rs\<close>, the transcript of \<open>provider.rs\<close>): the events and the
    records they carry. \<open>Projection\<close> (\<open>projection.rs\<close>, \<open>projection/checklist.rs\<close>): the snapshot
    and the reducer \<open>project_event\<close>, with one definition per larger case. \<open>Rows\<close>: what no event
    changes. \<open>SnapshotDelta\<close> (\<open>projection/delta.rs\<close>) and \<open>TranscriptPages\<close>
    (\<open>projection/transcript_pages.rs\<close>): deltas carry every change, sealing loses nothing and
    leaves the resumed history unchanged. \<open>Conversation\<close>: streamed messages, and \<open>session_step\<close>
    over events, sealing and the starting flag, which interprets \<open>state_machine\<close> with the
    references between rows and records as invariant.

  \<^bold>\<open>Conventions.\<close> A method under a mutex is one atomic step. \<open>Result\<close> is a sum with the error
  left; a refused operation returns the state it leaves behind, so in-place effects before an error
  are visible. \<open>u64\<close> and \<open>u32\<close> are words (the release profile wraps), \<open>usize\<close> counts are naturals.
  A panic (\<open>expect\<close>, an index out of range, a slice off a character boundary) is a value of its
  own: \<open>None\<close>, \<open>Panicked\<close>, \<open>PlanPanicked\<close> or \<open>CPanicked\<close>, never an ordinary result.
  What the environment decides (clock, UUIDs, harness answers, the order in which futures become
  ready, SHA-256, JSON) is an argument of the definitions; the properties hold for all of them.
  Where a property needs documented behaviour of JSON encodings (one line per value, decoding what
  was encoded) or of \<open>read_dir\<close>, it is the hypothesis \<open>codec_ok\<close>, \<open>trajectory_codec_ok\<close> or \<open>env_ok\<close>;
  that a proper prefix of a JSON object does not decode is \<open>cut_short_fails\<close>. JSON values that
  the code only stores are a type parameter, and the sizes \<open>serde_json\<close> gives rows and records
  are the parameter \<open>wire_sizes\<close>.

  \<^bold>\<open>Bounds and fuel.\<close> The recovery and review loops of \<open>RepoRun\<close> have no bound in the code and
  take fuel; \<open>None\<close> is running out of it. \<open>cancellation_ends_run\<close> gives enough fuel for every run
  that is cancelled; the lemma \<open>refused_recovery_never_ends\<close> shows that
  there may be none for one that is not.
  Everything else terminates by a measure. Sums of whole tokens are exact in binary64 up to \<open>2 ^ 53\<close>;
  the budget properties state that bound.

  \<^bold>\<open>Not modelled.\<close> In \<open>agent-core\<close> the migration of old snapshots
  (\<open>normalize_snapshot_value\<close>, a rewriting of JSON trees), the serde code of \<open>codec.rs\<close> and the
  provider trait. The production harness \<open>provider_harness.rs\<close> (process and model I/O), the
  provider crates and their tools, the sandbox back ends and their helper binaries, remote execution,
  computer use, the desktop shell (\<open>src-tauri\<close>) and its front end, and the vendored capture code:
  they act on processes, files, sockets and operating-system interfaces, which the coordinators
  modelled here see only through the answers that are arguments of the model.
\<close>

end
